(* ===== verification/Prelude.thy ===== *)
theory Prelude
  imports Main "HOL-Library.Monad_Syntax"
begin

text \<open>
  What every component shares: the environment that decides whether a fallible library call
  succeeds, C arrays with checked indices, and the generic facts about them.

  Conventions of the development:
  \<^item> \<^emph>\<open>Undefined behaviour is a value.\<close> An operation of type \<open>\<dots> \<Rightarrow> 'a option\<close> built with
    the \<open>do\<close> notation has the value \<open>None\<close> when the C code would dereference an invalid
    pointer, index an array out of bounds, read an indeterminate value, overflow a signed
    integer, misuse a lock or run forever. A theorem with conclusion \<open>op s = Some r\<close> therefore
    says that the code returns and does nothing undefined.
  \<^item> \<^emph>\<open>Library failures are inputs.\<close> Each call of calloc, realloc, malloc or of a pthread
    function that may fail takes the next outcome of the environment; after the listed
    outcomes every call succeeds.
  \<^item> A pointer that may be \<open>NULL\<close> is an \<open>option\<close>.
\<close>

section \<open>The environment of library outcomes\<close>

type_synonym env = "bool list"

fun env_next :: "env \<Rightarrow> bool \<times> env" where
  "env_next [] = (True, [])"
| "env_next (b # e) = (b, e)"

definition all_succeed :: "env \<Rightarrow> bool" where
  "all_succeed e \<longleftrightarrow> (\<forall>b \<in> set e. b)"

section \<open>C arrays\<close>

definition rd :: "'a list \<Rightarrow> nat \<Rightarrow> 'a option" where
  "rd xs i = (if i < length xs then Some (xs ! i) else None)"

definition wr :: "'a list \<Rightarrow> nat \<Rightarrow> 'a \<Rightarrow> 'a list option" where
  "wr xs i x = (if i < length xs then Some (xs[i := x]) else None)"

text \<open>Cells of an array that is allocated but not initialised hold \<open>None\<close>; reading one is
  undefined.\<close>

definition rd_init :: "'a option list \<Rightarrow> nat \<Rightarrow> 'a option" where
  "rd_init xs i = do { x \<leftarrow> rd xs i; x }"

text \<open>\<open>realloc\<close> to a larger number of cells keeps the old ones; the new ones are indeterminate.\<close>

definition grow_cells :: "'a option list \<Rightarrow> nat \<Rightarrow> 'a option list" where
  "grow_cells cells n = cells @ replicate (n - length cells) None"

section \<open>Shared facts\<close>

named_theorems array_simps \<open>evaluation of checked array accesses\<close>
named_theorems env_simps \<open>evaluation of environments in which no call fails\<close>

lemma rd_Some [array_simps]: "i < length xs \<Longrightarrow> rd xs i = Some (xs ! i)"
  by (simp add: rd_def)

lemma wr_Some [array_simps]: "i < length xs \<Longrightarrow> wr xs i x = Some (xs[i := x])"
  by (simp add: wr_def)

lemma rd_init_Some [array_simps]: "i < length xs \<Longrightarrow> rd_init xs i = xs ! i"
  by (simp add: rd_init_def rd_def)

lemma rd_eq_Some_iff: "rd xs i = Some x \<longleftrightarrow> i < length xs \<and> xs ! i = x"
  by (auto simp: rd_def)

lemma length_grow_cells [simp]: "length cells \<le> n \<Longrightarrow> length (grow_cells cells n) = n"
  and take_grow_cells [simp]: "m \<le> length cells \<Longrightarrow> take m (grow_cells cells n) = take m cells"
  by (simp_all add: grow_cells_def)

lemma take_Suc_update: "n < length xs \<Longrightarrow> take (Suc n) (xs[n := x]) = take n xs @ [x]"
  by (simp add: take_Suc_conv_app_nth)

lemma env_next_all_succeed [env_simps]:
  "all_succeed e \<Longrightarrow> env_next e = (True, tl e)"
  by (cases e) (auto simp: all_succeed_def)

lemma all_succeed_tl [env_simps]: "all_succeed e \<Longrightarrow> all_succeed (tl e)"
  by (cases e) (auto simp: all_succeed_def)

lemma env_next_succeed: "env_next e = (ok, e') \<Longrightarrow> all_succeed e \<Longrightarrow> ok \<and> all_succeed e'"
  by (cases e) (auto simp: all_succeed_def)

lemma env_nextE:
  assumes "all_succeed e"
  obtains e' where "env_next e = (True, e')" "all_succeed e'"
  using assms by (cases e) (auto simp: all_succeed_def)

lemma all_succeed_Nil [simp]: "all_succeed []"
  by (simp add: all_succeed_def)

end
