(* ===== verification/BPTree_Heap.thy ===== *)
theory BPTree_Heap
  imports Prelude
begin

text \<open>
  \<^verbatim>\<open>sql_processor/bptree.c\<close>: the B+ tree as the code has it, a graph of nodes in a heap.
  A node address is a natural number; \<open>nodes\<close> maps the addresses allocated for this tree to
  node structures and \<open>brk\<close> is the next address that calloc hands out. Every operation of
  the file is one definition, in the order of the file; loops that only run over array
  indices are \<open>function\<close>s with a measure, the two loops that follow pointers
  (the descent to a leaf and the climb to the root) are \<open>partial_function (option)\<close>.
\<close>

section \<open>Data\<close>

definition BPTREE_ORDER :: nat where
  "BPTREE_ORDER = 4"

definition BPTREE_MAX_KEYS :: nat where
  "BPTREE_MAX_KEYS = BPTREE_ORDER - 1"

record 'v BPTreeNode =
  is_leaf :: bool
  num_keys :: nat
  keys :: "int list"
  vals :: "'v option list"
  children :: "nat option list"
  parent :: "nat option"
  next_leaf :: "nat option"

record 'v BPTree =
  root :: "nat option"
  nodes :: "nat \<rightharpoonup> 'v BPTreeNode"
  brk :: nat

text \<open>Writing a whole node back, updating a field through a pointer, and \<open>free\<close>.\<close>

definition put_node :: "'v BPTree \<Rightarrow> nat \<Rightarrow> 'v BPTreeNode \<Rightarrow> 'v BPTree" where
  "put_node t a nd = t\<lparr>nodes := (nodes t)(a \<mapsto> nd)\<rparr>"

definition upd_node :: "'v BPTree \<Rightarrow> nat \<Rightarrow> ('v BPTreeNode \<Rightarrow> 'v BPTreeNode) \<Rightarrow> 'v BPTree option" where
  "upd_node t a f = do { nd \<leftarrow> nodes t a; Some (put_node t a (f nd)) }"

definition free_node :: "'v BPTree \<Rightarrow> nat \<Rightarrow> 'v BPTree option" where
  "free_node t a = do { nd \<leftarrow> nodes t a; Some (t\<lparr>nodes := (nodes t)(a := None)\<rparr>) }"

section \<open>Creating nodes, finding positions and leaves\<close>

definition bptree_create_node :: "'v BPTree \<Rightarrow> bool \<Rightarrow> env \<Rightarrow> nat option \<times> 'v BPTree \<times> env" where
  "bptree_create_node t leaf e =
     (case env_next e of (ok, e') \<Rightarrow>
        if ok then
          (Some (brk t),
           (put_node t (brk t)
             \<lparr>is_leaf = leaf, num_keys = 0, keys = replicate BPTREE_MAX_KEYS 0,
              vals = replicate BPTREE_MAX_KEYS None, children = replicate BPTREE_ORDER None,
              parent = None, next_leaf = None\<rparr>)\<lparr>brk := Suc (brk t)\<rparr>,
           e')
        else (None, t, e'))"

function find_insert_index_loop :: "int list \<Rightarrow> nat \<Rightarrow> int \<Rightarrow> nat \<Rightarrow> nat option" where
  "find_insert_index_loop ks n key i =
     (if i < n
      then do { k \<leftarrow> rd ks i;
                if k < key then find_insert_index_loop ks n key (Suc i) else Some i }
      else Some i)"
  by pat_completeness auto
termination
  by (relation "measure (\<lambda>(ks, n, key, i). n - i)") auto

definition bptree_find_insert_index :: "int list \<Rightarrow> nat \<Rightarrow> int \<Rightarrow> nat option" where
  "bptree_find_insert_index ks n key = find_insert_index_loop ks n key 0"

text \<open>The inner loop of the descent: the first separator greater than the key.\<close>

function child_index_loop :: "int list \<Rightarrow> nat \<Rightarrow> int \<Rightarrow> nat \<Rightarrow> nat option" where
  "child_index_loop ks n key i =
     (if i < n
      then do { k \<leftarrow> rd ks i;
                if key \<ge> k then child_index_loop ks n key (Suc i) else Some i }
      else Some i)"
  by pat_completeness auto
termination
  by (relation "measure (\<lambda>(ks, n, key, i). n - i)") auto

partial_function (option) find_leaf_loop :: "'v BPTree \<Rightarrow> int \<Rightarrow> nat \<Rightarrow> nat option" where
  "find_leaf_loop t key current =
     do { nd \<leftarrow> nodes t current;
          if is_leaf nd then Some current
          else do { i \<leftarrow> child_index_loop (keys nd) (num_keys nd) key 0;
                    c \<leftarrow> rd_init (children nd) i;
                    find_leaf_loop t key c } }"

text \<open>\<open>Some None\<close>: the tree pointer or its root is \<open>NULL\<close>.\<close>

definition bptree_find_leaf :: "'v BPTree option \<Rightarrow> int \<Rightarrow> nat option option" where
  "bptree_find_leaf tree key =
     (case tree of None \<Rightarrow> Some None
      | Some t \<Rightarrow> (case root t of None \<Rightarrow> Some None
                    | Some r \<Rightarrow> do { a \<leftarrow> find_leaf_loop t key r; Some (Some a) }))"

section \<open>Freeing a tree\<close>

text \<open>
  \<open>destroy_node_from t a i\<close> is the run of \<open>bptree_destroy_node\<close> on the node at \<open>a\<close> from
  loop index \<open>i\<close>: the remaining children, then the node itself.
\<close>

partial_function (option) destroy_node_from :: "'v BPTree \<Rightarrow> nat \<Rightarrow> nat \<Rightarrow> 'v BPTree option" where
  "destroy_node_from t a i =
     do { nd \<leftarrow> nodes t a;
          if \<not> is_leaf nd \<and> i \<le> num_keys nd
          then do { c \<leftarrow> rd (children nd) i;
                    t' \<leftarrow> (case c of None \<Rightarrow> Some t | Some b \<Rightarrow> destroy_node_from t b 0);
                    destroy_node_from t' a (Suc i) }
          else free_node t a }"

definition bptree_destroy_node :: "'v BPTree \<Rightarrow> nat option \<Rightarrow> 'v BPTree option" where
  "bptree_destroy_node t node =
     (case node of None \<Rightarrow> Some t | Some a \<Rightarrow> destroy_node_from t a 0)"

section \<open>Inserting into a node that has room\<close>

function leaf_shift_loop ::
    "int list \<Rightarrow> 'v option list \<Rightarrow> nat \<Rightarrow> nat \<Rightarrow> (int list \<times> 'v option list) option" where
  "leaf_shift_loop ks vs i position =
     (if i > position
      then do { k \<leftarrow> rd ks (i - 1); ks' \<leftarrow> wr ks i k;
                v \<leftarrow> rd vs (i - 1); vs' \<leftarrow> wr vs i v;
                leaf_shift_loop ks' vs' (i - 1) position }
      else Some (ks, vs))"
  by pat_completeness auto
termination
  by (relation "measure (\<lambda>(ks, vs, i, position). i)") auto

definition bptree_insert_into_leaf ::
    "'v BPTree \<Rightarrow> nat \<Rightarrow> int \<Rightarrow> 'v option \<Rightarrow> 'v BPTree option" where
  "bptree_insert_into_leaf t leaf key value =
     do { nd \<leftarrow> nodes t leaf;
          position \<leftarrow> bptree_find_insert_index (keys nd) (num_keys nd) key;
          (ks, vs) \<leftarrow> leaf_shift_loop (keys nd) (vals nd) (num_keys nd) position;
          ks' \<leftarrow> wr ks position key;
          vs' \<leftarrow> wr vs position value;
          Some (put_node t leaf (nd\<lparr>keys := ks', vals := vs', num_keys := num_keys nd + 1\<rparr>)) }"

definition bptree_create_new_root ::
    "'v BPTree \<Rightarrow> nat \<Rightarrow> int \<Rightarrow> nat \<Rightarrow> env \<Rightarrow> (bool \<times> 'v BPTree \<times> env) option" where
  "bptree_create_new_root t left key right e =
     (case bptree_create_node t False e of
        (None, t', e') \<Rightarrow> Some (False, t', e')
      | (Some r, t', e') \<Rightarrow>
          do { nd \<leftarrow> nodes t' r;
               ks \<leftarrow> wr (keys nd) 0 key;
               cs \<leftarrow> wr (children nd) 0 (Some left);
               cs' \<leftarrow> wr cs 1 (Some right);
               let t1 = put_node t' r (nd\<lparr>keys := ks, children := cs', num_keys := 1\<rparr>);
               t2 \<leftarrow> upd_node t1 left (parent_update (\<lambda>_. Some r));
               t3 \<leftarrow> upd_node t2 right (parent_update (\<lambda>_. Some r));
               Some (True, t3\<lparr>root := Some r\<rparr>, e') })"

text \<open>The two shifting loops, on keys and on child pointers, run down to a lower index.\<close>

function shift_loop :: "'a list \<Rightarrow> nat \<Rightarrow> nat \<Rightarrow> 'a list option" where
  "shift_loop xs i low =
     (if i > low
      then do { x \<leftarrow> rd xs (i - 1); xs' \<leftarrow> wr xs i x; shift_loop xs' (i - 1) low }
      else Some xs)"
  by pat_completeness auto
termination
  by (relation "measure (\<lambda>(xs, i, low). i)") auto

definition bptree_insert_into_internal ::
    "'v BPTree \<Rightarrow> nat \<Rightarrow> nat \<Rightarrow> int \<Rightarrow> nat \<Rightarrow> 'v BPTree option" where
  "bptree_insert_into_internal t p insert_index key right_child =
     do { nd \<leftarrow> nodes t p;
          ks \<leftarrow> shift_loop (keys nd) (num_keys nd) insert_index;
          cs \<leftarrow> shift_loop (children nd) (num_keys nd + 1) (insert_index + 1);
          ks' \<leftarrow> wr ks insert_index key;
          cs' \<leftarrow> wr cs (insert_index + 1) (Some right_child);
          t' \<leftarrow> upd_node (put_node t p (nd\<lparr>keys := ks', children := cs'\<rparr>)) right_child
                   (parent_update (\<lambda>_. Some p));
          upd_node t' p (num_keys_update Suc) }"

section \<open>Splitting a full leaf\<close>

text \<open>Merging the old entries with the new one into the temporary arrays.\<close>

function leaf_merge_loop ::
    "'v BPTreeNode \<Rightarrow> int \<Rightarrow> 'v option \<Rightarrow> nat \<Rightarrow> nat \<Rightarrow> nat \<Rightarrow> int option list \<Rightarrow> 'v option option list
     \<Rightarrow> (nat \<times> int option list \<times> 'v option option list) option" where
  "leaf_merge_loop nd key value insert_index index temp_index tk tv =
     (if index < num_keys nd
      then do { (temp_index', tk', tv') \<leftarrow>
                  (if temp_index = insert_index
                   then do { tk1 \<leftarrow> wr tk temp_index (Some key);
                             tv1 \<leftarrow> wr tv temp_index (Some value);
                             Some (temp_index + 1, tk1, tv1) }
                   else Some (temp_index, tk, tv));
                k \<leftarrow> rd (keys nd) index;
                v \<leftarrow> rd (vals nd) index;
                tk2 \<leftarrow> wr tk' temp_index' (Some k);
                tv2 \<leftarrow> wr tv' temp_index' (Some v);
                leaf_merge_loop nd key value insert_index (index + 1) (temp_index' + 1) tk2 tv2 }
      else Some (temp_index, tk, tv))"
  by pat_completeness auto
termination
  by (relation "measure (\<lambda>(nd, key, value, insert_index, index, temp_index, tk, tv). num_keys nd - index)")
     auto

text \<open>Both copy loops write the entry at temporary index \<open>index\<close> behind the node's last entry:
  \<open>leaf->keys[index]\<close> on the left, where \<open>num_keys\<close> equals \<open>index\<close> after the reset to 0, and
  \<open>right_leaf->keys[right_leaf->num_keys]\<close> on the right.\<close>

function leaf_copy_left_loop ::
    "'v BPTreeNode \<Rightarrow> int option list \<Rightarrow> 'v option option list \<Rightarrow> nat \<Rightarrow> nat \<Rightarrow> 'v BPTreeNode option" where
  "leaf_copy_left_loop nd tk tv index left_count =
     (if index < left_count
      then do { k \<leftarrow> rd_init tk index;
                v \<leftarrow> rd_init tv index;
                ks \<leftarrow> wr (keys nd) index k;
                vs \<leftarrow> wr (vals nd) index v;
                leaf_copy_left_loop (nd\<lparr>keys := ks, vals := vs, num_keys := num_keys nd + 1\<rparr>)
                  tk tv (index + 1) left_count }
      else Some nd)"
  by pat_completeness auto
termination
  by (relation "measure (\<lambda>(nd, tk, tv, index, left_count). left_count - index)") auto

function leaf_copy_right_loop ::
    "'v BPTreeNode \<Rightarrow> int option list \<Rightarrow> 'v option option list \<Rightarrow> nat \<Rightarrow> 'v BPTreeNode option" where
  "leaf_copy_right_loop nd tk tv index =
     (if index < BPTREE_ORDER
      then do { k \<leftarrow> rd_init tk index;
                v \<leftarrow> rd_init tv index;
                ks \<leftarrow> wr (keys nd) (num_keys nd) k;
                vs \<leftarrow> wr (vals nd) (num_keys nd) v;
                leaf_copy_right_loop (nd\<lparr>keys := ks, vals := vs, num_keys := num_keys nd + 1\<rparr>)
                  tk tv (index + 1) }
      else Some nd)"
  by pat_completeness auto
termination
  by (relation "measure (\<lambda>(nd, tk, tv, index). BPTREE_ORDER - index)") auto

text \<open>
  \<open>bptree_split_leaf_and_insert\<close> up to its tail call of \<open>bptree_insert_into_parent\<close>:
  \<open>None\<close> for the failed allocation, else the address and first key of the new right leaf.
\<close>

definition bptree_split_leaf ::
    "'v BPTree \<Rightarrow> nat \<Rightarrow> int \<Rightarrow> 'v option \<Rightarrow> env \<Rightarrow> ((int \<times> nat) option \<times> 'v BPTree \<times> env) option" where
  "bptree_split_leaf t leaf key value e =
     do { nd \<leftarrow> nodes t leaf;
          insert_index \<leftarrow> bptree_find_insert_index (keys nd) (num_keys nd) key;
          (case bptree_create_node t True e of
             (None, t', e') \<Rightarrow> Some (None, t', e')
           | (Some right_leaf, t', e') \<Rightarrow>
               do { let left_count = BPTREE_ORDER div 2;
                    (temp_index, tk, tv) \<leftarrow>
                       leaf_merge_loop nd key value insert_index 0 0
                         (replicate BPTREE_ORDER None) (replicate BPTREE_ORDER None);
                    (tk', tv') \<leftarrow>
                       (if temp_index = insert_index
                        then do { tk1 \<leftarrow> wr tk temp_index (Some key);
                                  tv1 \<leftarrow> wr tv temp_index (Some value);
                                  Some (tk1, tv1) }
                        else Some (tk, tv));
                    left \<leftarrow> leaf_copy_left_loop (nd\<lparr>num_keys := 0\<rparr>) tk' tv' 0 left_count;
                    rn \<leftarrow> nodes t' right_leaf;
                    right \<leftarrow> leaf_copy_right_loop (rn\<lparr>parent := parent left\<rparr>) tk' tv' left_count;
                    first \<leftarrow> rd (keys right) 0;
                    Some (Some (first, right_leaf),
                          put_node (put_node t' leaf (left\<lparr>next_leaf := Some right_leaf\<rparr>))
                            right_leaf (right\<lparr>next_leaf := next_leaf left\<rparr>),
                          e') }) }"

section \<open>Splitting a full internal node\<close>

text \<open>\<open>if (child != NULL) child->parent = p\<close>\<close>

definition set_child_parent :: "'v BPTree \<Rightarrow> nat option \<Rightarrow> nat \<Rightarrow> 'v BPTree option" where
  "set_child_parent t c p =
     (case c of None \<Rightarrow> Some t | Some a \<Rightarrow> upd_node t a (parent_update (\<lambda>_. Some p)))"

text \<open>Copying the first entries of a node array into a temporary array of the next size.\<close>

function temp_copy_loop :: "'a list \<Rightarrow> 'a option list \<Rightarrow> nat \<Rightarrow> nat \<Rightarrow> 'a option list option" where
  "temp_copy_loop xs temp index n =
     (if index < n
      then do { x \<leftarrow> rd xs index; temp' \<leftarrow> wr temp index (Some x);
                temp_copy_loop xs temp' (index + 1) n }
      else Some temp)"
  by pat_completeness auto
termination
  by (relation "measure (\<lambda>(xs, temp, index, n). n - index)") auto

function split_left_loop ::
    "'v BPTree \<Rightarrow> nat \<Rightarrow> int option list \<Rightarrow> nat option option list \<Rightarrow> nat \<Rightarrow> nat \<Rightarrow> 'v BPTree option" where
  "split_left_loop t p tk tc index promote_index =
     (if index < promote_index
      then do { k \<leftarrow> rd_init tk index;
                c \<leftarrow> rd_init tc index;
                nd \<leftarrow> nodes t p;
                ks \<leftarrow> wr (keys nd) index k;
                cs \<leftarrow> wr (children nd) index c;
                t1 \<leftarrow> set_child_parent (put_node t p (nd\<lparr>keys := ks, children := cs\<rparr>)) c p;
                t2 \<leftarrow> upd_node t1 p (num_keys_update Suc);
                split_left_loop t2 p tk tc (index + 1) promote_index }
      else Some t)"
  by pat_completeness auto
termination
  by (relation "measure (\<lambda>(t, p, tk, tc, index, promote_index). promote_index - index)") auto

function split_right_loop ::
    "'v BPTree \<Rightarrow> nat \<Rightarrow> int option list \<Rightarrow> nat option option list \<Rightarrow> nat \<Rightarrow> 'v BPTree option" where
  "split_right_loop t r tk tc index =
     (if index < BPTREE_ORDER
      then do { k \<leftarrow> rd_init tk index;
                c \<leftarrow> rd_init tc index;
                nd \<leftarrow> nodes t r;
                ks \<leftarrow> wr (keys nd) (num_keys nd) k;
                cs \<leftarrow> wr (children nd) (num_keys nd) c;
                t1 \<leftarrow> set_child_parent (put_node t r (nd\<lparr>keys := ks, children := cs\<rparr>)) c r;
                t2 \<leftarrow> upd_node t1 r (num_keys_update Suc);
                split_right_loop t2 r tk tc (index + 1) }
      else Some t)"
  by pat_completeness auto
termination
  by (relation "measure (\<lambda>(t, r, tk, tc, index). BPTREE_ORDER - index)") auto

text \<open>One more child, without a key, at the index of the node's last key.\<close>

definition set_last_child :: "'v BPTree \<Rightarrow> nat \<Rightarrow> nat \<Rightarrow> nat option \<Rightarrow> 'v BPTree option" where
  "set_last_child t p i c =
     do { nd \<leftarrow> nodes t p;
          cs \<leftarrow> wr (children nd) i c;
          set_child_parent (put_node t p (nd\<lparr>children := cs\<rparr>)) c p }"

text \<open>
  \<open>bptree_split_internal_and_insert\<close> up to its tail call of \<open>bptree_insert_into_parent\<close>:
  \<open>None\<close> for the failed allocation, else the promoted key and the new right node.
\<close>

definition bptree_split_internal ::
    "'v BPTree \<Rightarrow> nat \<Rightarrow> nat \<Rightarrow> int \<Rightarrow> nat \<Rightarrow> env \<Rightarrow> ((int \<times> nat) option \<times> 'v BPTree \<times> env) option" where
  "bptree_split_internal t p insert_index key right_child e =
     (case bptree_create_node t False e of
        (None, t', e') \<Rightarrow> Some (None, t', e')
      | (Some right_parent, t', e') \<Rightarrow>
          do { let promote_index = BPTREE_ORDER div 2;
               nd \<leftarrow> nodes t' p;
               tk \<leftarrow> temp_copy_loop (keys nd) (replicate BPTREE_ORDER None) 0 (num_keys nd);
               tc \<leftarrow> temp_copy_loop (children nd) (replicate (BPTREE_ORDER + 1) None) 0 (num_keys nd + 1);
               tk1 \<leftarrow> shift_loop tk (num_keys nd) insert_index;
               tk2 \<leftarrow> wr tk1 insert_index (Some key);
               tc1 \<leftarrow> shift_loop tc (num_keys nd + 1) (insert_index + 1);
               tc2 \<leftarrow> wr tc1 (insert_index + 1) (Some (Some right_child));
               t1 \<leftarrow> split_left_loop (put_node t' p (nd\<lparr>num_keys := 0\<rparr>)) p tk2 tc2 0 promote_index;
               c \<leftarrow> rd_init tc2 promote_index;
               t2 \<leftarrow> set_last_child t1 p promote_index c;
               promote_key \<leftarrow> rd_init tk2 promote_index;
               pn \<leftarrow> nodes t2 p;
               t3 \<leftarrow> upd_node t2 right_parent (parent_update (\<lambda>_. parent pn));
               t4 \<leftarrow> split_right_loop t3 right_parent tk2 tc2 (promote_index + 1);
               c' \<leftarrow> rd_init tc2 BPTREE_ORDER;
               rn \<leftarrow> nodes t4 right_parent;
               t5 \<leftarrow> set_last_child t4 right_parent (num_keys rn) c';
               Some (Some (promote_key, right_parent), t5, e') })"

section \<open>Pushing a key upward, insert and search\<close>

text \<open>The position of the split child: \<open>while (i <= num_keys && children[i] != left) i++\<close>\<close>

function child_pos_loop :: "nat option list \<Rightarrow> nat \<Rightarrow> nat \<Rightarrow> nat \<Rightarrow> nat option" where
  "child_pos_loop cs n left i =
     (if i \<le> n
      then do { c \<leftarrow> rd cs i;
                if c \<noteq> Some left then child_pos_loop cs n left (i + 1) else Some i }
      else Some i)"
  by pat_completeness auto
termination
  by (relation "measure (\<lambda>(cs, n, left, i). Suc n - i)") auto

text \<open>The mutual recursion with \<open>bptree_split_internal_and_insert\<close> is one recursion here: the
  last branch runs that function's body and makes its tail call.\<close>

partial_function (option) bptree_insert_into_parent ::
    "'v BPTree \<Rightarrow> nat \<Rightarrow> int \<Rightarrow> nat \<Rightarrow> env \<Rightarrow> (bool \<times> 'v BPTree \<times> env) option" where
  "bptree_insert_into_parent t left key right e =
     do { l \<leftarrow> nodes t left;
          (case parent l of
             None \<Rightarrow> bptree_create_new_root t left key right e
           | Some p \<Rightarrow>
               do { pn \<leftarrow> nodes t p;
                    insert_index \<leftarrow> child_pos_loop (children pn) (num_keys pn) left 0;
                    if num_keys pn < BPTREE_MAX_KEYS
                    then do { t' \<leftarrow> bptree_insert_into_internal t p insert_index key right;
                              Some (True, t', e) }
                    else do { (r, t', e') \<leftarrow> bptree_split_internal t p insert_index key right e;
                              (case r of None \<Rightarrow> Some (False, t', e')
                               | Some (promote_key, right_parent) \<Rightarrow>
                                   bptree_insert_into_parent t' p promote_key right_parent e') } }) }"

definition bptree_split_leaf_and_insert ::
    "'v BPTree \<Rightarrow> nat \<Rightarrow> int \<Rightarrow> 'v option \<Rightarrow> env \<Rightarrow> (bool \<times> 'v BPTree \<times> env) option" where
  "bptree_split_leaf_and_insert t leaf key value e =
     do { (r, t', e') \<leftarrow> bptree_split_leaf t leaf key value e;
          (case r of None \<Rightarrow> Some (False, t', e')
           | Some (first, right_leaf) \<Rightarrow> bptree_insert_into_parent t' leaf first right_leaf e') }"

definition bptree_create :: "env \<Rightarrow> 'v BPTree option \<times> env" where
  "bptree_create e =
     (case env_next e of (ok, e') \<Rightarrow>
        (if ok then Some \<lparr>root = None, nodes = Map.empty, brk = 0\<rparr> else None, e'))"

text \<open>The node heap that is left when the tree structure is gone.\<close>

definition bptree_destroy :: "'v BPTree option \<Rightarrow> (nat \<rightharpoonup> 'v BPTreeNode) option" where
  "bptree_destroy tree =
     (case tree of None \<Rightarrow> Some Map.empty
      | Some t \<Rightarrow> do { t' \<leftarrow> bptree_destroy_node t (root t); Some (nodes t') })"

text \<open>The scan for an equal key in a leaf: the index, if there is one.\<close>

function leaf_scan_loop :: "int list \<Rightarrow> nat \<Rightarrow> int \<Rightarrow> nat \<Rightarrow> nat option option" where
  "leaf_scan_loop ks n key index =
     (if index < n
      then do { k \<leftarrow> rd ks index;
                if k = key then Some (Some index) else leaf_scan_loop ks n key (index + 1) }
      else Some None)"
  by pat_completeness auto
termination
  by (relation "measure (\<lambda>(ks, n, key, index). n - index)") auto

definition bptree_insert ::
    "'v BPTree option \<Rightarrow> int \<Rightarrow> 'v option \<Rightarrow> env \<Rightarrow> (bool \<times> 'v BPTree option \<times> env) option" where
  "bptree_insert tree key value e =
     (case tree of None \<Rightarrow> Some (False, None, e)
      | Some t \<Rightarrow>
         (case root t of
            None \<Rightarrow>
              (case bptree_create_node t True e of
                 (None, t', e') \<Rightarrow> Some (False, Some t', e')
               | (Some r, t', e') \<Rightarrow>
                   do { nd \<leftarrow> nodes t' r;
                        ks \<leftarrow> wr (keys nd) 0 key;
                        vs \<leftarrow> wr (vals nd) 0 value;
                        Some (True,
                              Some ((put_node t' r (nd\<lparr>keys := ks, vals := vs, num_keys := 1\<rparr>))
                                      \<lparr>root := Some r\<rparr>),
                              e') })
          | Some _ \<Rightarrow>
              do { lf \<leftarrow> bptree_find_leaf tree key;
                   leaf \<leftarrow> lf;
                   nd \<leftarrow> nodes t leaf;
                   found \<leftarrow> leaf_scan_loop (keys nd) (num_keys nd) key 0;
                   (case found of
                      Some _ \<Rightarrow> Some (False, tree, e)
                    | None \<Rightarrow>
                        if num_keys nd < BPTREE_MAX_KEYS
                        then do { t' \<leftarrow> bptree_insert_into_leaf t leaf key value;
                                  Some (True, Some t', e) }
                        else do { (ok, t', e') \<leftarrow> bptree_split_leaf_and_insert t leaf key value e;
                                  Some (ok, Some t', e') }) }))"

definition bptree_search :: "'v BPTree option \<Rightarrow> int \<Rightarrow> 'v option option" where
  "bptree_search tree key =
     do { lf \<leftarrow> bptree_find_leaf tree key;
          (case lf of
             None \<Rightarrow> Some None
           | Some leaf \<Rightarrow>
               (case tree of None \<Rightarrow> None
                | Some t \<Rightarrow>
                    do { nd \<leftarrow> nodes t leaf;
                         found \<leftarrow> leaf_scan_loop (keys nd) (num_keys nd) key 0;
                         (case found of None \<Rightarrow> Some None
                          | Some index \<Rightarrow> rd (vals nd) index) })) }"

declare find_leaf_loop.simps [code] destroy_node_from.simps [code] bptree_insert_into_parent.simps [code]

declare find_insert_index_loop.simps [simp del] child_index_loop.simps [simp del]
  leaf_shift_loop.simps [simp del] shift_loop.simps [simp del] leaf_merge_loop.simps [simp del]
  leaf_copy_left_loop.simps [simp del] leaf_copy_right_loop.simps [simp del]
  temp_copy_loop.simps [simp del] split_left_loop.simps [simp del] split_right_loop.simps [simp del]
  child_pos_loop.simps [simp del] leaf_scan_loop.simps [simp del]

end
