(* ===== verification/BPTree_Shape.thy ===== *)
theory BPTree_Shape
  imports Prelude "HOL-Library.Multiset"
begin

text \<open>
  The abstract trees that the node heap of the B+ tree represents: a leaf or an inner node
  together with the address it lives at. The theory holds the reference algorithm for a split
  that climbs towards the root (\<open>grow\<close>), over contexts (a path of frames from a subtree up to
  the root), and shows that it keeps the order, the balance, the fill and the contents.

  The order of a search tree is one sorted list: \<open>flat\<close> writes a leaf key \<open>k\<close> as the odd
  number \<open>2 * k + 1\<close> and a separator \<open>k\<close> as the even number \<open>2 * k\<close>. That this list is strictly
  increasing says that the leaf keys increase and that everything left of a separator is
  smaller than it and everything right of it at least as large.
\<close>

section \<open>Addressed trees and their views\<close>

datatype 'v atree = ALeaf nat "(int \<times> 'v option) list" | ANode nat "'v atree list" "int list"

fun addr :: "'v atree \<Rightarrow> nat" where
  "addr (ALeaf a kvs) = a"
| "addr (ANode a ts ks) = a"

fun addrs :: "'v atree \<Rightarrow> nat list" where
  "addrs (ALeaf a kvs) = [a]"
| "addrs (ANode a ts ks) = a # concat (map addrs ts)"

fun leaf_addrs :: "'v atree \<Rightarrow> nat list" where
  "leaf_addrs (ALeaf a kvs) = [a]"
| "leaf_addrs (ANode a ts ks) = concat (map leaf_addrs ts)"

fun entries :: "'v atree \<Rightarrow> (int \<times> 'v option) list" where
  "entries (ALeaf a kvs) = kvs"
| "entries (ANode a ts ks) = concat (map entries ts)"

fun weave :: "'a list list \<Rightarrow> 'a list \<Rightarrow> 'a list" where
  "weave [] ks = []"
| "weave (xs # xss) [] = xs @ concat xss"
| "weave (xs # xss) (k # ks) = xs @ k # weave xss ks"

definition key_mark :: "int \<Rightarrow> int" where
  "key_mark k = 2 * k + 1"

definition sep_mark :: "int \<Rightarrow> int" where
  "sep_mark k = 2 * k"

fun flat :: "'v atree \<Rightarrow> int list" where
  "flat (ALeaf a kvs) = map (\<lambda>kv. key_mark (fst kv)) kvs"
| "flat (ANode a ts ks) = weave (map flat ts) (map sep_mark ks)"

section \<open>Well-formedness\<close>

text \<open>Sizes: at most three keys in a node, one more child than keys.\<close>

fun shape :: "'v atree \<Rightarrow> bool" where
  "shape (ALeaf a kvs) \<longleftrightarrow> length kvs \<le> 3"
| "shape (ANode a ts ks) \<longleftrightarrow>
     1 \<le> length ks \<and> length ks \<le> 3 \<and> length ts = Suc (length ks) \<and> (\<forall>c \<in> set ts. shape c)"

text \<open>All leaves at the same depth.\<close>

fun bal :: "nat \<Rightarrow> 'v atree \<Rightarrow> bool" where
  "bal n (ALeaf a kvs) \<longleftrightarrow> n = 0"
| "bal n (ANode a ts ks) \<longleftrightarrow> (case n of 0 \<Rightarrow> False | Suc m \<Rightarrow> \<forall>c \<in> set ts. bal m c)"

text \<open>Every leaf at least half full; a leaf that is the root may be emptier.\<close>

fun fill :: "'v atree \<Rightarrow> bool" where
  "fill (ALeaf a kvs) \<longleftrightarrow> 2 \<le> length kvs"
| "fill (ANode a ts ks) \<longleftrightarrow> (\<forall>c \<in> set ts. fill c)"

fun root_fill :: "'v atree \<Rightarrow> bool" where
  "root_fill (ALeaf a kvs) \<longleftrightarrow> 1 \<le> length kvs"
| "root_fill (ANode a ts ks) \<longleftrightarrow> (\<forall>c \<in> set ts. fill c)"

abbreviation increasing :: "int list \<Rightarrow> bool" where
  "increasing \<equiv> sorted_wrt (<)"

section \<open>Contexts\<close>

text \<open>\<open>Frame a lts lks rks rts\<close> is the inner node at \<open>a\<close> with a hole between the subtrees
  \<open>lts\<close> and \<open>rts\<close>; a context lists the frames from the hole up to the root.\<close>

datatype 'v frame = Frame nat "'v atree list" "int list" "int list" "'v atree list"

type_synonym 'v ctx = "'v frame list"

fun plug :: "'v ctx \<Rightarrow> 'v atree \<Rightarrow> 'v atree" where
  "plug [] t = t"
| "plug (Frame a lts lks rks rts # C) t = plug C (ANode a (lts @ t # rts) (lks @ rks))"

fun caddrs :: "'v ctx \<Rightarrow> nat list" where
  "caddrs [] = []"
| "caddrs (Frame a lts lks rks rts # C) =
     a # concat (map addrs lts) @ concat (map addrs rts) @ caddrs C"

fun lflat :: "'v ctx \<Rightarrow> int list" where
  "lflat [] = []"
| "lflat (Frame a lts lks rks rts # C) = lflat C @ concat (map2 (\<lambda>t k. flat t @ [sep_mark k]) lts lks)"

fun rflat :: "'v ctx \<Rightarrow> int list" where
  "rflat [] = []"
| "rflat (Frame a lts lks rks rts # C) = concat (map2 (\<lambda>k t. sep_mark k # flat t) rks rts) @ rflat C"

text \<open>What a view that concatenates over subtrees sees on the two sides of the hole.\<close>

fun lview :: "('v atree \<Rightarrow> 'b list) \<Rightarrow> 'v ctx \<Rightarrow> 'b list" where
  "lview f [] = []"
| "lview f (Frame a lts lks rks rts # C) = lview f C @ concat (map f lts)"

fun rview :: "('v atree \<Rightarrow> 'b list) \<Rightarrow> 'v ctx \<Rightarrow> 'b list" where
  "rview f [] = []"
| "rview f (Frame a lts lks rks rts # C) = concat (map f rts) @ rview f C"

fun cshape :: "'v ctx \<Rightarrow> bool" where
  "cshape [] \<longleftrightarrow> True"
| "cshape (Frame a lts lks rks rts # C) \<longleftrightarrow>
     length lts = length lks \<and> length rts = length rks \<and>
     1 \<le> length lks + length rks \<and> length lks + length rks \<le> 3 \<and>
     (\<forall>c \<in> set lts \<union> set rts. shape c) \<and> cshape C"

text \<open>The subtree in the hole is replaced by two subtrees with a separator between them; a full
  node splits and passes its middle separator on. Fresh addresses start at \<open>n\<close>.\<close>

fun grow :: "'v ctx \<Rightarrow> 'v atree \<Rightarrow> int \<Rightarrow> 'v atree \<Rightarrow> nat \<Rightarrow> 'v atree \<times> nat" where
  "grow [] l k r n = (ANode n [l, r] [k], Suc n)"
| "grow (Frame a lts lks rks rts # C) l k r n =
     (if length lks + length rks < 3
      then (plug C (ANode a (lts @ l # r # rts) (lks @ k # rks)), n)
      else let ts = lts @ l # r # rts; ks = lks @ k # rks
           in grow C (ANode a (take 3 ts) (take 2 ks)) (ks ! 2)
                (ANode n (drop 3 ts) (drop 3 ks)) (Suc n))"

section \<open>Views of a plugged context\<close>

named_theorems plug_views \<open>the views of a tree, split at a context\<close>

lemma weave_append:
  "length lxs = length lks \<Longrightarrow>
   weave (lxs @ xs) (lks @ ks) = concat (map2 (\<lambda>x k. x @ [k]) lxs lks) @ weave xs ks"
  by (induction lxs lks rule: list_induct2) auto

lemma weave_right:
  "length rxs = length rks \<Longrightarrow> weave (x # rxs) rks = x @ concat (map2 (\<lambda>k x. k # x) rks rxs)"
  by (induction rxs rks arbitrary: x rule: list_induct2) auto

lemma flat_hole:
  assumes "length lts = length lks" and "length rts = length rks"
  shows "flat (ANode a (lts @ t # rts) (lks @ rks)) =
    concat (map2 (\<lambda>t k. flat t @ [sep_mark k]) lts lks) @ flat t @
    concat (map2 (\<lambda>k t. sep_mark k # flat t) rks rts)"
  using assms by (simp add: weave_append weave_right zip_map_map split_def comp_def)

lemma flat_plug [plug_views]:
  "cshape C \<Longrightarrow> flat (plug C t) = lflat C @ flat t @ rflat C"
  by (induction C t rule: plug.induct) (simp_all add: flat_hole del: flat.simps)

lemma view_plug:
  assumes "\<And>a ts ks. f (ANode a ts ks) = concat (map f ts)"
  shows "f (plug C t) = lview f C @ f t @ rview f C"
  by (induction C t rule: plug.induct) (simp_all add: assms)

lemmas entries_plug [plug_views] = view_plug [of entries, OF entries.simps(2)]
lemmas leaf_addrs_plug [plug_views] = view_plug [of leaf_addrs, OF leaf_addrs.simps(2)]

lemma mset_addrs_plug [plug_views]: "mset (addrs (plug C t)) = mset (caddrs C) + mset (addrs t)"
  by (induction C t rule: plug.induct) (simp_all add: ac_simps)

lemma set_addrs_plug [plug_views]: "set (addrs (plug C t)) = set (caddrs C) \<union> set (addrs t)"
  by (metis mset_addrs_plug set_mset_mset set_mset_union)

lemma distinct_addrs_plug [plug_views]:
  "distinct (addrs (plug C t)) \<longleftrightarrow> distinct (caddrs C @ addrs t)"
proof -
  have "mset (addrs (plug C t)) = mset (caddrs C @ addrs t)" by (simp add: mset_addrs_plug)
  then show ?thesis by (rule mset_eq_imp_distinct_iff)
qed

lemma shape_plug: "cshape C \<Longrightarrow> shape t \<Longrightarrow> shape (plug C t)"
  by (induction C t rule: plug.induct) auto

lemma plug_append: "plug (C @ D) t = plug D (plug C t)"
  by (induction C t rule: plug.induct) simp_all

lemma cshape_append [simp]: "cshape (C @ D) \<longleftrightarrow> cshape C \<and> cshape D"
  by (induction C rule: cshape.induct) auto

lemma lflat_append [simp]: "lflat (C @ D) = lflat D @ lflat C"
  by (induction C rule: lflat.induct) auto

lemma rflat_append [simp]: "rflat (C @ D) = rflat C @ rflat D"
  by (induction C rule: rflat.induct) auto

section \<open>The climb keeps the order, the contents, the sizes and the balance\<close>

text \<open>Splitting a node in two around its middle separator does not change its flat view.\<close>

lemma flat_split:
  assumes "length ts = Suc (length ks)" and "i < length ks"
  shows "flat (ANode a ts ks) =
    flat (ANode b (take (Suc i) ts) (take i ks)) @ sep_mark (ks ! i) #
    flat (ANode c (drop (Suc i) ts) (drop (Suc i) ks))"
proof -
  have ks: "ks = take i ks @ ks ! i # drop (Suc i) ks"
    using assms(2) by (rule id_take_nth_drop)
  have ts: "ts = take i ts @ ts ! i # drop (Suc i) ts"
    using assms by (simp add: id_take_nth_drop)
  obtain x rest where d: "drop (Suc i) ts = x # rest"
    using assms by (cases "drop (Suc i) ts") auto
  have rest: "length rest = length (drop (Suc i) ks)"
    using arg_cong [OF d, of length] assms by simp
  have t: "take (Suc i) ts = take i ts @ [ts ! i]"
    using assms by (simp add: take_Suc_conv_app_nth)
  have "flat (ANode a ts ks) =
      flat (ANode a (take i ts @ ts ! i # x # rest) (take i ks @ ks ! i # drop (Suc i) ks))"
    using ts ks d by metis
  also have "\<dots> = flat (ANode b (take (Suc i) ts) (take i ks)) @ sep_mark (ks ! i) #
      flat (ANode c (x # rest) (drop (Suc i) ks))"
    using assms t
    by (simp add: weave_append weave_append [of _ _ "[flat (ts ! i)]" "[]", simplified])
  finally show ?thesis using d by simp
qed

lemma flat_hole2:
  assumes "length lts = length lks" and "length rts = length rks"
  shows "flat (ANode a (lts @ l # r # rts) (lks @ k # rks)) =
    concat (map2 (\<lambda>t k. flat t @ [sep_mark k]) lts lks) @ (flat l @ sep_mark k # flat r) @
    concat (map2 (\<lambda>k t. sep_mark k # flat t) rks rts)"
  using assms by (simp add: weave_append weave_right zip_map_map split_def comp_def)

lemma flat_grow:
  "cshape C \<Longrightarrow>
   flat (fst (grow C l k r n)) = lflat C @ (flat l @ sep_mark k # flat r) @ rflat C"
proof (induction C l k r n rule: grow.induct)
  case (1 l k r n)
  show ?case by simp
next
  case (2 a lts lks rks rts C l k r n)
  let ?ts = "lts @ l # r # rts" and ?ks = "lks @ k # rks"
  show ?case
  proof (cases "length lks + length rks < 3")
    case True
    with "2.prems" show ?thesis by (simp add: flat_plug flat_hole2 del: flat.simps)
  next
    case False
    have "flat (fst (grow (Frame a lts lks rks rts # C) l k r n)) =
        lflat C @ (flat (ANode a (take 3 ?ts) (take 2 ?ks)) @ sep_mark (?ks ! 2) #
          flat (ANode n (drop 3 ?ts) (drop 3 ?ks))) @ rflat C"
      using "2.IH" [OF False refl refl] False "2.prems" by (simp add: Let_def del: flat.simps)
    also have "\<dots> = lflat C @ flat (ANode a ?ts ?ks) @ rflat C"
      using "2.prems" False flat_split [of ?ts ?ks 2 a a n]
      by (simp add: numeral_3_eq_3 del: flat.simps)
    finally show ?thesis using "2.prems" by (simp add: flat_hole2 del: flat.simps)
  qed
qed

lemma concat_map_take_drop: "concat (map f (take m xs)) @ concat (map f (drop m xs)) = concat (map f xs)"
  by (metis append_take_drop_id concat_append map_append)

lemma view_grow:
  assumes f: "\<And>a ts ks. f (ANode a ts ks) = concat (map f ts)"
  shows "f (fst (grow C l k r n)) = lview f C @ f l @ f r @ rview f C"
proof (induction C l k r n rule: grow.induct)
  case (1 l k r n)
  show ?case by (simp add: f)
next
  case (2 a lts lks rks rts C l k r n)
  let ?ts = "lts @ l # r # rts" and ?ks = "lks @ k # rks"
  show ?case
  proof (cases "length lks + length rks < 3")
    case True
    then show ?thesis by (simp add: view_plug [of f, OF f] f)
  next
    case False
    then have "f (fst (grow (Frame a lts lks rks rts # C) l k r n)) =
        lview f C @ (concat (map f (take 3 ?ts)) @ concat (map f (drop 3 ?ts))) @ rview f C"
      using "2.IH" [OF False refl refl] by (simp add: Let_def f del: take_append drop_append)
    then show ?thesis by (simp only: concat_map_take_drop) simp
  qed
qed

lemmas entries_grow = view_grow [of entries, OF entries.simps(2)]
lemmas leaf_addrs_grow = view_grow [of leaf_addrs, OF leaf_addrs.simps(2)]

text \<open>The addresses: those of the context and the subtrees, and the fresh ones.\<close>

lemma snd_grow_ge: "n \<le> snd (grow C l k r n)"
  by (induction C l k r n rule: grow.induct) (auto simp: Let_def intro: Suc_leD)

lemma mset_addrs_grow:
  "mset (addrs (fst (grow C l k r n))) =
   mset (caddrs C) + mset (addrs l) + mset (addrs r) + mset [n..<snd (grow C l k r n)]"
proof (induction C l k r n rule: grow.induct)
  case (1 l k r n)
  show ?case by (simp add: ac_simps)
next
  case (2 a lts lks rks rts C l k r n)
  let ?ts = "lts @ l # r # rts" and ?ks = "lks @ k # rks"
  show ?case
  proof (cases "length lks + length rks < 3")
    case True
    then show ?thesis by (simp add: mset_addrs_plug ac_simps)
  next
    case False
    let ?n' = "snd (grow (Frame a lts lks rks rts # C) l k r n)"
    have up: "mset [n..<?n'] = {#n#} + mset [Suc n..<?n']"
      using snd_grow_ge [of "Suc n" C] False by (simp add: Let_def upt_conv_Cons Suc_le_eq)
    have "mset (addrs (fst (grow (Frame a lts lks rks rts # C) l k r n))) =
        mset (caddrs C) + {#a#} + mset (concat (map addrs (take 3 ?ts)) @ concat (map addrs (drop 3 ?ts)))
        + mset [n..<?n']"
      using False "2.IH" [OF False refl refl] unfolding up
      by (simp add: Let_def ac_simps del: take_append drop_append)
    then show ?thesis by (simp only: concat_map_take_drop) (simp add: ac_simps)
  qed
qed

text \<open>Sizes, balance and fill.\<close>

lemma shape_grow:
  "cshape C \<Longrightarrow> shape l \<Longrightarrow> shape r \<Longrightarrow> shape (fst (grow C l k r n))"
proof (induction C l k r n rule: grow.induct)
  case (2 a lts lks rks rts C l k r n)
  let ?ts = "lts @ l # r # rts" and ?ks = "lks @ k # rks"
  have ts: "\<forall>c \<in> set ?ts. shape c" and len: "length ?ts = Suc (length ?ks)"
    using "2.prems" by auto
  show ?case
  proof (cases "length lks + length rks < 3")
    case True
    have "shape (ANode a ?ts ?ks)" using "2.prems" True ts len by simp
    then show ?thesis using True "2.prems" by (simp add: shape_plug)
  next
    case False
    then have 4: "length ?ks = 4" using "2.prems" by simp
    have "shape (ANode a (take 3 ?ts) (take 2 ?ks))" "shape (ANode n (drop 3 ?ts) (drop 3 ?ks))"
      using ts len 4 in_set_takeD [of _ 3 ?ts] in_set_dropD [of _ 3 ?ts]
      by (simp_all del: take_append drop_append set_append)
    then show ?thesis using False "2.IH" [OF False refl refl] "2.prems" by (simp add: Let_def)
  qed
qed simp

text \<open>\<open>cbal m n C\<close>: a subtree of height \<open>m\<close> in the hole makes a tree of height \<open>n\<close>.\<close>

fun cbal :: "nat \<Rightarrow> nat \<Rightarrow> 'v ctx \<Rightarrow> bool" where
  "cbal m n [] \<longleftrightarrow> m = n"
| "cbal m n (Frame a lts lks rks rts # C) \<longleftrightarrow>
     (\<forall>c \<in> set lts \<union> set rts. bal m c) \<and> cbal (Suc m) n C"

fun cfill :: "'v ctx \<Rightarrow> bool" where
  "cfill [] \<longleftrightarrow> True"
| "cfill (Frame a lts lks rks rts # C) \<longleftrightarrow> (\<forall>c \<in> set lts \<union> set rts. fill c) \<and> cfill C"

lemma bal_plug: "bal n (plug C t) \<longleftrightarrow> (\<exists>m. cbal m n C \<and> bal m t)"
proof (induction C t rule: plug.induct)
  case (2 a lts lks rks rts C t)
  have "bal m (ANode a (lts @ t # rts) (lks @ rks)) \<longleftrightarrow>
      (\<exists>m'. m = Suc m' \<and> (\<forall>c \<in> set lts \<union> set rts. bal m' c) \<and> bal m' t)" for m
    by (cases m) auto
  with 2 show ?case by auto
qed simp

lemma bal_grow:
  "cbal m n C \<Longrightarrow> bal m l \<Longrightarrow> bal m r \<Longrightarrow>
   bal n (fst (grow C l k r a)) \<or> bal (Suc n) (fst (grow C l k r a))"
proof (induction C l k r a arbitrary: m rule: grow.induct)
  case (2 a lts lks rks rts C l k r b)
  let ?ts = "lts @ l # r # rts" and ?ks = "lks @ k # rks"
  have ts: "\<forall>c \<in> set ?ts. bal m c" and C: "cbal (Suc m) n C" using "2.prems" by auto
  show ?case
  proof (cases "length lks + length rks < 3")
    case True
    have "bal n (plug C (ANode a ?ts ?ks))" using C ts by (auto simp: bal_plug)
    then show ?thesis using True by simp
  next
    case False
    have "bal (Suc m) (ANode a (take 3 ?ts) (take 2 ?ks))" "bal (Suc m) (ANode b (drop 3 ?ts) (drop 3 ?ks))"
      using ts in_set_takeD [of _ 3 ?ts] in_set_dropD [of _ 3 ?ts]
      by (simp_all del: take_append drop_append set_append)
    then show ?thesis using False "2.IH" [OF False refl refl C] by (simp add: Let_def)
  qed
qed simp

lemma fill_plug: "fill (plug C t) \<longleftrightarrow> cfill C \<and> fill t"
  by (induction C t rule: plug.induct) auto

lemma root_fill_plug: "C \<noteq> [] \<Longrightarrow> root_fill (plug C t) \<longleftrightarrow> cfill C \<and> fill t"
proof (induction C t rule: plug.induct)
  case (2 a lts lks rks rts C t)
  then show ?case by (cases C) auto
qed simp

lemma root_fill_grow: "cfill C \<Longrightarrow> fill l \<Longrightarrow> fill r \<Longrightarrow> root_fill (fst (grow C l k r n))"
proof (induction C l k r n rule: grow.induct)
  case (2 a lts lks rks rts C l k r n)
  let ?ts = "lts @ l # r # rts" and ?ks = "lks @ k # rks"
  have ts: "\<forall>c \<in> set ?ts. fill c" using "2.prems" by auto
  show ?case
  proof (cases "length lks + length rks < 3")
    case True
    with ts "2.prems" show ?thesis by (cases C) (auto simp: root_fill_plug)
  next
    case False
    have "fill (ANode a (take 3 ?ts) (take 2 ?ks))" "fill (ANode n (drop 3 ?ts) (drop 3 ?ks))"
      using ts in_set_takeD [of _ 3 ?ts] in_set_dropD [of _ 3 ?ts]
      by (simp_all del: take_append drop_append set_append)
    then show ?thesis using False "2.IH" [OF False refl refl] "2.prems" by (simp add: Let_def)
  qed
qed simp

text \<open>A tree of height \<open>n\<close> holds at least \<open>2 ^ n\<close> entries: the descent is logarithmic.\<close>

lemma sum_list_ge: "(\<forall>c \<in> set ts. m \<le> f c) \<Longrightarrow> length ts * m \<le> (\<Sum>c\<leftarrow>ts. f c)"
  for m :: nat
  by (induction ts) (auto simp: add_mono)

lemma entries_lower: "shape t \<Longrightarrow> fill t \<Longrightarrow> bal n t \<Longrightarrow> 2 ^ Suc n \<le> length (entries t)"
proof (induction t arbitrary: n)
  case (ANode a ts ks)
  then obtain m where n: "n = Suc m" by (cases n) auto
  have "\<forall>c \<in> set ts. 2 ^ Suc m \<le> length (entries c)" using ANode n by simp
  from sum_list_ge [OF this] have "length ts * 2 ^ Suc m \<le> length (entries (ANode a ts ks))"
    by (simp add: length_concat comp_def)
  moreover have "2 * 2 ^ Suc m \<le> length ts * 2 ^ Suc m" using ANode.prems by (intro mult_right_mono) auto
  ultimately have "2 * 2 ^ Suc m \<le> length (entries (ANode a ts ks))" by (rule order_trans [rotated])
  then show ?case using n by simp
qed simp

lemma entries_root_lower: "shape t \<Longrightarrow> root_fill t \<Longrightarrow> bal n t \<Longrightarrow> 2 ^ n \<le> length (entries t)"
proof (cases t)
  case (ANode a ts ks)
  assume a: "shape t" "root_fill t" "bal n t"
  then have "fill t" using ANode by simp
  with a entries_lower [of t n] show ?thesis by simp
qed simp

end
