(* ===== verification/BPTree_Rep.thy ===== *)
theory BPTree_Rep
  imports BPTree_Heap BPTree_Shape
begin

text \<open>
  When the node heap of \<^verbatim>\<open>bptree.c\<close> represents an abstract tree: every node of the tree is
  allocated at its address with the right keys, values, child pointers and parent pointer, the
  leaves are chained by \<open>next_leaf\<close>, no address is used twice and every allocated node is
  part of the tree. The lemmas
  say which heap changes a represented tree does not notice.
\<close>

section \<open>Node contents\<close>

definition leaf_node :: "'v BPTreeNode \<Rightarrow> nat option \<Rightarrow> (int \<times> 'v option) list \<Rightarrow> bool" where
  "leaf_node nd q kvs \<longleftrightarrow>
     is_leaf nd \<and> num_keys nd = length kvs \<and> length kvs \<le> 3 \<and>
     length (keys nd) = 3 \<and> length (vals nd) = 3 \<and> length (children nd) = 4 \<and>
     take (length kvs) (keys nd) = map fst kvs \<and> take (length kvs) (vals nd) = map snd kvs \<and>
     parent nd = q"

definition inner_node :: "'v BPTreeNode \<Rightarrow> nat option \<Rightarrow> nat list \<Rightarrow> int list \<Rightarrow> bool" where
  "inner_node nd q cs ks \<longleftrightarrow>
     \<not> is_leaf nd \<and> num_keys nd = length ks \<and> length ks \<le> 3 \<and>
     length (keys nd) = 3 \<and> length (vals nd) = 3 \<and> length (children nd) = 4 \<and>
     take (length ks) (keys nd) = ks \<and> take (Suc (length ks)) (children nd) = map Some cs \<and>
     parent nd = q"

section \<open>Representation of trees and contexts\<close>

fun rep :: "(nat \<rightharpoonup> 'v BPTreeNode) \<Rightarrow> nat option \<Rightarrow> 'v atree \<Rightarrow> bool" where
  "rep h q (ALeaf a kvs) \<longleftrightarrow> (\<exists>nd. h a = Some nd \<and> leaf_node nd q kvs)"
| "rep h q (ANode a ts ks) \<longleftrightarrow>
     (\<exists>nd. h a = Some nd \<and> inner_node nd q (map addr ts) ks) \<and> (\<forall>c \<in> set ts. rep h (Some a) c)"

fun rep_ctx :: "(nat \<rightharpoonup> 'v BPTreeNode) \<Rightarrow> nat option \<Rightarrow> 'v ctx \<Rightarrow> nat \<Rightarrow> bool" where
  "rep_ctx h q [] x \<longleftrightarrow> q = None"
| "rep_ctx h q (Frame a lts lks rks rts # C) x \<longleftrightarrow>
     q = Some a \<and>
     (\<exists>nd p. h a = Some nd \<and> inner_node nd p (map addr lts @ x # map addr rts) (lks @ rks) \<and>
             rep_ctx h p C a) \<and>
     (\<forall>c \<in> set lts \<union> set rts. rep h (Some a) c)"

text \<open>The leaves are a linked list through \<open>next_leaf\<close>.\<close>

fun leaf_chain :: "(nat \<rightharpoonup> 'v BPTreeNode) \<Rightarrow> nat list \<Rightarrow> bool" where
  "leaf_chain h [] \<longleftrightarrow> True"
| "leaf_chain h (a # as) \<longleftrightarrow>
     (\<exists>nd. h a = Some nd \<and> next_leaf nd = (case as of [] \<Rightarrow> None | b # bs \<Rightarrow> Some b)) \<and> leaf_chain h as"

section \<open>The invariant of a tree\<close>

definition represents :: "'v BPTree \<Rightarrow> 'v atree \<Rightarrow> bool" where
  "represents t T \<longleftrightarrow>
     root t = Some (addr T) \<and> rep (nodes t) None T \<and> distinct (addrs T) \<and>
     set (addrs T) = {..<brk t} \<and> leaf_chain (nodes t) (leaf_addrs T)"

text \<open>Exactly the addresses handed out so far are allocated.\<close>

definition heap_ok :: "'v BPTree \<Rightarrow> bool" where
  "heap_ok t \<longleftrightarrow> (\<forall>a. nodes t a = None \<longleftrightarrow> brk t \<le> a)"

definition search_tree :: "'v atree \<Rightarrow> bool" where
  "search_tree T \<longleftrightarrow> shape T \<and> increasing (flat T) \<and> root_fill T \<and> (\<exists>n. bal n T)"

text \<open>The entries in key order, as the specification sees a tree.\<close>

definition bptree_entries :: "'v BPTree \<Rightarrow> (int \<times> 'v option) list \<Rightarrow> bool" where
  "bptree_entries t es \<longleftrightarrow>
     heap_ok t \<and>
     (case root t of None \<Rightarrow> es = [] \<and> brk t = 0
      | Some _ \<Rightarrow> \<exists>T. represents t T \<and> search_tree T \<and> es = entries T)"

section \<open>Frame properties\<close>

lemma addr_in_addrs [simp]: "addr T \<in> set (addrs T)"
  by (cases T) auto

lemma leaf_addrs_subset: "set (leaf_addrs T) \<subseteq> set (addrs T)"
  by (induction T) auto

lemma leaf_addrs_nonempty: "shape T \<Longrightarrow> leaf_addrs T \<noteq> []"
proof (induction T)
  case (ANode a ts ks)
  then show ?case by (cases ts) auto
qed simp

lemma rep_cong: "(\<And>a. a \<in> set (addrs T) \<Longrightarrow> h a = h' a) \<Longrightarrow> rep h q T = rep h' q T"
proof (induction T arbitrary: q)
  case (ANode a ts ks)
  have "rep h (Some a) c = rep h' (Some a) c" if "c \<in> set ts" for c
    using ANode that by auto
  then show ?case using ANode.prems by simp
qed simp

lemma rep_ctx_cong: "(\<And>a. a \<in> set (caddrs C) \<Longrightarrow> h a = h' a) \<Longrightarrow> rep_ctx h q C x = rep_ctx h' q C x"
proof (induction h q C x rule: rep_ctx.induct)
  case (2 h q a lts lks rks rts C x)
  have "\<forall>c \<in> set lts \<union> set rts. rep h (Some a) c = rep h' (Some a) c"
    using "2.prems" by (auto intro!: rep_cong)
  moreover have "rep_ctx h p C a = rep_ctx h' p C a" for p
    using "2.prems" by (intro "2.IH") simp
  ultimately show ?case using "2.prems" by simp
qed simp

lemma leaf_chain_cong: "(\<And>a. a \<in> set as \<Longrightarrow> h a = h' a) \<Longrightarrow> leaf_chain h as = leaf_chain h' as"
  by (induction as) auto

text \<open>Only the \<open>next_leaf\<close> field matters for the chain.\<close>

lemma leaf_chain_next:
  "leaf_chain h as \<Longrightarrow> (\<And>a. a \<in> set as \<Longrightarrow> map_option next_leaf (h' a) = map_option next_leaf (h a))
   \<Longrightarrow> leaf_chain h' as"
proof (induction as)
  case (Cons a as)
  then have "map_option next_leaf (h' a) = map_option next_leaf (h a)" by simp
  with Cons show ?case by (cases "h' a") auto
qed simp

lemma inner_node_parent: "inner_node nd q cs ks \<Longrightarrow> inner_node (nd\<lparr>parent := q'\<rparr>) q' cs ks"
  by (simp add: inner_node_def)

lemma leaf_node_parent: "leaf_node nd q kvs \<Longrightarrow> leaf_node (nd\<lparr>parent := q'\<rparr>) q' kvs"
  by (simp add: leaf_node_def)

text \<open>Redirecting the parent pointer of a subtree's root.\<close>

lemma rep_reparent:
  assumes "rep h q T" and "distinct (addrs T)"
    and "h' (addr T) = map_option (parent_update (\<lambda>_. q')) (h (addr T))"
    and "\<And>a. a \<in> set (addrs T) \<Longrightarrow> a \<noteq> addr T \<Longrightarrow> h' a = h a"
  shows "rep h' q' T"
proof (cases T)
  case (ALeaf a kvs)
  with assms show ?thesis by (auto intro: leaf_node_parent)
next
  case (ANode a ts ks)
  have "rep h' (Some a) c" if "c \<in> set ts" for c
  proof -
    have "h' b = h b" if "b \<in> set (addrs c)" for b
      using assms(2,4) ANode \<open>c \<in> set ts\<close> that by auto
    then have "rep h' (Some a) c = rep h (Some a) c" by (rule rep_cong)
    then show ?thesis using assms(1) ANode \<open>c \<in> set ts\<close> by simp
  qed
  then show ?thesis using assms ANode by (auto intro: inner_node_parent)
qed

lemma rep_allocated: "rep h q T \<Longrightarrow> a \<in> set (addrs T) \<Longrightarrow> h a \<noteq> None"
  by (induction T arbitrary: q) auto

lemma rep_parent: "rep h q T \<Longrightarrow> \<exists>nd. h (addr T) = Some nd \<and> parent nd = q"
  by (cases T) (auto simp: leaf_node_def inner_node_def)

lemma rep_leaf: "rep h q T \<Longrightarrow> a \<in> set (leaf_addrs T) \<Longrightarrow> \<exists>nd. h a = Some nd \<and> is_leaf nd"
  by (induction T arbitrary: q) (auto simp: leaf_node_def)

lemma rep_plug:
  "rep h None (plug C T) \<longleftrightarrow> (\<exists>q. rep_ctx h q C (addr T) \<and> rep h q T)"
proof (induction C T rule: plug.induct)
  case (2 a lts lks rks rts C t)
  show ?case unfolding plug.simps "2.IH" by auto
qed auto

lemma addr_plug: "addr (plug (C @ [Frame a lts lks rks rts]) T) = a"
  by (simp add: plug_append)

end
