(* ===== verification/BPTree_Ops.thy ===== *)
theory BPTree_Ops
  imports BPTree_Rep
begin

text \<open>
  What each helper of \<^verbatim>\<open>bptree.c\<close> does to the node heap: the array loops in closed form, the
  insertion into a node with room, the two splits and the climb of a promoted key
  to the root, each as "it returns, does nothing undefined and leaves this heap".
\<close>

section \<open>Loops over a node's arrays\<close>

lemma find_insert_index_loop_eq:
  "n \<le> length ks \<Longrightarrow> i \<le> n \<Longrightarrow>
   find_insert_index_loop ks n key i = Some (i + length (takeWhile (\<lambda>k. k < key) (drop i (take n ks))))"
proof (induction ks n key i rule: find_insert_index_loop.induct)
  case (1 ks n key i)
  show ?case
  proof (cases "i < n")
    case True
    then have "drop i (take n ks) = ks ! i # drop (Suc i) (take n ks)"
      using "1.prems" by (metis Cons_nth_drop_Suc length_take min.absorb2 nth_take)
    with 1 True show ?thesis
      by (subst find_insert_index_loop.simps) (simp add: array_simps)
  next
    case False
    with "1.prems" show ?thesis by (subst find_insert_index_loop.simps) simp
  qed
qed

lemma find_insert_index_eq:
  "n \<le> length ks \<Longrightarrow>
   bptree_find_insert_index ks n key = Some (length (takeWhile (\<lambda>k. k < key) (take n ks)))"
  by (simp add: bptree_find_insert_index_def find_insert_index_loop_eq)

lemma child_index_loop_eq:
  "n \<le> length ks \<Longrightarrow> i \<le> n \<Longrightarrow>
   child_index_loop ks n key i = Some (i + length (takeWhile (\<lambda>k. k \<le> key) (drop i (take n ks))))"
proof (induction ks n key i rule: child_index_loop.induct)
  case (1 ks n key i)
  show ?case
  proof (cases "i < n")
    case True
    then have "drop i (take n ks) = ks ! i # drop (Suc i) (take n ks)"
      using "1.prems" by (metis Cons_nth_drop_Suc length_take min.absorb2 nth_take)
    with 1 True show ?thesis
      by (subst child_index_loop.simps) (simp add: array_simps)
  next
    case False
    with "1.prems" show ?thesis by (subst child_index_loop.simps) simp
  qed
qed

lemma leaf_scan_loop_step:
  "i < n \<Longrightarrow> n \<le> length ks \<Longrightarrow> leaf_scan_loop ks n key i =
     (if ks ! i = key then Some (Some i) else leaf_scan_loop ks n key (Suc i))"
  by (subst leaf_scan_loop.simps) (simp add: array_simps)

lemma leaf_scan_loop_stop: "n \<le> i \<Longrightarrow> leaf_scan_loop ks n key i = Some None"
  by (subst leaf_scan_loop.simps) simp

lemma leaf_scan_loop_cases:
  assumes "n \<le> length ks"
  shows "(leaf_scan_loop ks n key i = Some None \<and> (\<forall>j. i \<le> j \<and> j < n \<longrightarrow> ks ! j \<noteq> key)) \<or>
    (\<exists>j. leaf_scan_loop ks n key i = Some (Some j) \<and> i \<le> j \<and> j < n \<and> ks ! j = key)"
proof (induction "n - i" arbitrary: i)
  case 0
  then show ?case by (simp add: leaf_scan_loop_stop)
next
  case (Suc d)
  then have i: "i < n" and IH: "leaf_scan_loop ks n key (Suc i) = Some None \<and>
      (\<forall>j. Suc i \<le> j \<and> j < n \<longrightarrow> ks ! j \<noteq> key) \<or>
    (\<exists>j. leaf_scan_loop ks n key (Suc i) = Some (Some j) \<and> Suc i \<le> j \<and> j < n \<and> ks ! j = key)"
    by simp_all
  show ?case
  proof (cases "ks ! i = key")
    case True
    then show ?thesis using i assms by (auto simp: leaf_scan_loop_step)
  next
    case False
    then have "leaf_scan_loop ks n key i = leaf_scan_loop ks n key (Suc i)"
      using i assms by (simp add: leaf_scan_loop_step)
    moreover have "i \<le> j \<longleftrightarrow> j = i \<or> Suc i \<le> j" for j by auto
    ultimately show ?thesis using IH False by auto
  qed
qed

lemma child_pos_loop_eq:
  assumes "take (Suc n) cs = map Some (las @ x # ras)" and "n = length las + length ras"
    and "x \<notin> set las"
  shows "i \<le> length las \<Longrightarrow> child_pos_loop cs n x i = Some (length las)"
proof (induction "length las - i" arbitrary: i)
  case 0
  then have i: "i = length las" by simp
  have "length (take (Suc n) cs) = Suc n" using assms(1,2) by simp
  then have "i < length cs" and "cs ! i = take (Suc n) cs ! i" using i assms(2) by simp_all
  then have "i < length cs" and "cs ! i = Some x" using i assms(1) by (simp_all add: nth_append)
  then show ?case using i assms(2) by (subst child_pos_loop.simps) (simp add: array_simps)
next
  case (Suc d)
  then have i: "i < length las" by simp
  have "length (take (Suc n) cs) = Suc n" using assms(1,2) by simp
  then have "i < length cs" and "cs ! i = take (Suc n) cs ! i" using i assms(2) by simp_all
  then have "i < length cs" and "cs ! i = Some (las ! i)" using i assms(1) by (simp_all add: nth_append)
  moreover have "las ! i \<noteq> x" using i assms(3) by (metis nth_mem)
  moreover have "child_pos_loop cs n x (i + 1) = Some (length las)" using Suc by simp
  ultimately show ?case using i assms(2) by (subst child_pos_loop.simps) (simp add: array_simps)
qed

text \<open>Shifting up by one from position \<open>low\<close>, then writing there, is insertion into the prefix.\<close>

lemma shift_loop_step:
  "low \<le> i \<Longrightarrow> Suc i < length xs \<Longrightarrow> shift_loop xs (Suc i) low = shift_loop (xs[Suc i := xs ! i]) i low"
  by (subst shift_loop.simps) (simp add: array_simps)

lemma shift_loop_stop: "i \<le> low \<Longrightarrow> shift_loop xs i low = Some xs"
  by (subst shift_loop.simps) simp

lemma shift_loop_nth:
  "low \<le> i \<Longrightarrow> i < length xs \<Longrightarrow>
   \<exists>ys. shift_loop xs i low = Some ys \<and> length ys = length xs \<and>
        (\<forall>j < length xs. ys ! j = (if low < j \<and> j \<le> i then xs ! (j - 1) else xs ! j))"
proof (induction i arbitrary: xs)
  case 0
  then show ?case by (simp add: shift_loop_stop)
next
  case (Suc i)
  show ?case
  proof (cases "low = Suc i")
    case True
    then show ?thesis by (auto simp: shift_loop_stop)
  next
    case False
    let ?xs = "xs[Suc i := xs ! i]"
    obtain ys where "shift_loop ?xs i low = Some ys" "length ys = length xs"
      and ys: "\<forall>j < length xs. ys ! j = (if low < j \<and> j \<le> i then ?xs ! (j - 1) else ?xs ! j)"
      using Suc.IH [of ?xs] Suc.prems False by auto
    moreover have "ys ! j = (if low < j \<and> j \<le> Suc i then xs ! (j - 1) else xs ! j)" if "j < length xs" for j
      using ys that False Suc.prems by (auto simp: nth_list_update)
    ultimately show ?thesis using False Suc.prems by (auto simp: shift_loop_step)
  qed
qed

lemma shift_then_write:
  assumes "low \<le> i" and "i < length xs"
  shows "\<exists>ys. shift_loop xs i low = Some ys \<and> length ys = length xs \<and>
    wr ys low x = Some (ys[low := x]) \<and>
    take (Suc i) (ys[low := x]) = take low (take i xs) @ x # drop low (take i xs)"
proof -
  obtain ys where ys: "shift_loop xs i low = Some ys" "length ys = length xs"
    "\<forall>j < length xs. ys ! j = (if low < j \<and> j \<le> i then xs ! (j - 1) else xs ! j)"
    using shift_loop_nth [OF assms] by blast
  have "take (Suc i) (ys[low := x]) = take low (take i xs) @ x # drop low (take i xs)"
  proof (rule nth_equalityI)
    show "length (take (Suc i) (ys[low := x])) = length (take low (take i xs) @ x # drop low (take i xs))"
      using assms ys(2) by simp
  next
    fix j assume "j < length (take (Suc i) (ys[low := x]))"
    then have j: "j \<le> i" by simp
    consider "j < low" | "j = low" | m where "j = Suc (low + m)"
      by (metis less_iff_Suc_add not_less_iff_gr_or_eq)
    then show "take (Suc i) (ys[low := x]) ! j = (take low (take i xs) @ x # drop low (take i xs)) ! j"
      using assms ys(2,3) j by cases (auto simp: nth_append nth_list_update)
  qed
  then show ?thesis using ys assms by (auto simp: array_simps)
qed

lemma leaf_shift_loop_eq:
  "low \<le> i \<Longrightarrow> i < length ks \<Longrightarrow> length vs = length ks \<Longrightarrow>
   leaf_shift_loop ks vs i low =
     do { ks' \<leftarrow> shift_loop ks i low; vs' \<leftarrow> shift_loop vs i low; Some (ks', vs') }"
proof (induction i arbitrary: ks vs)
  case 0
  then show ?case by (subst leaf_shift_loop.simps) (simp add: shift_loop_stop)
next
  case (Suc i)
  show ?case
  proof (cases "low = Suc i")
    case True
    then show ?thesis by (subst leaf_shift_loop.simps) (simp add: shift_loop_stop)
  next
    case False
    then have "leaf_shift_loop ks vs (Suc i) low =
        leaf_shift_loop (ks[Suc i := ks ! i]) (vs[Suc i := vs ! i]) i low"
      using Suc.prems by (subst leaf_shift_loop.simps) (simp add: array_simps)
    then show ?thesis using Suc.IH [of "ks[Suc i := ks ! i]" "vs[Suc i := vs ! i]"] Suc.prems False
      by (simp add: shift_loop_step)
  qed
qed

section \<open>Insertion into a node with room\<close>

text \<open>The position of a key among sorted entries, and the entries with the key inserted.\<close>

definition ins_pos :: "int \<Rightarrow> (int \<times> 'b) list \<Rightarrow> nat" where
  "ins_pos key kvs = length (takeWhile (\<lambda>kv. fst kv < key) kvs)"

definition ins_entry :: "int \<Rightarrow> 'b \<Rightarrow> (int \<times> 'b) list \<Rightarrow> (int \<times> 'b) list" where
  "ins_entry key v kvs = take (ins_pos key kvs) kvs @ (key, v) # drop (ins_pos key kvs) kvs"

lemma ins_pos_le: "ins_pos key kvs \<le> length kvs"
  by (simp add: ins_pos_def length_takeWhile_le)

lemma length_ins_entry [simp]: "length (ins_entry key v kvs) = Suc (length kvs)"
  using ins_pos_le [of key kvs] by (simp add: ins_entry_def)

lemma ins_pos_keys: "length (takeWhile (\<lambda>k. k < key) (map fst kvs)) = ins_pos key kvs"
  by (simp add: ins_pos_def takeWhile_map comp_def)

lemma map_fst_ins_entry:
  "map fst (ins_entry key v kvs) = take (ins_pos key kvs) (map fst kvs) @ key # drop (ins_pos key kvs) (map fst kvs)"
  by (simp add: ins_entry_def take_map drop_map)

lemma map_snd_ins_entry:
  "map snd (ins_entry key v kvs) = take (ins_pos key kvs) (map snd kvs) @ v # drop (ins_pos key kvs) (map snd kvs)"
  by (simp add: ins_entry_def take_map drop_map)

lemma bptree_insert_into_leaf_ok:
  assumes "nodes t a = Some nd" and "leaf_node nd q kvs" and "length kvs < 3"
  shows "\<exists>nd'. bptree_insert_into_leaf t a key v = Some (put_node t a nd') \<and>
    leaf_node nd' q (ins_entry key v kvs) \<and> next_leaf nd' = next_leaf nd"
proof -
  let ?i = "ins_pos key kvs" and ?n = "length kvs"
  have nd: "num_keys nd = ?n" "length (keys nd) = 3" "length (vals nd) = 3"
    "take ?n (keys nd) = map fst kvs" "take ?n (vals nd) = map snd kvs" "length (children nd) = 4"
    "is_leaf nd" "parent nd = q"
    using assms(2) by (simp_all add: leaf_node_def)
  have i: "?i \<le> ?n" by (rule ins_pos_le)
  have pos: "bptree_find_insert_index (keys nd) (num_keys nd) key = Some ?i"
    using nd assms(3) by (simp add: find_insert_index_eq ins_pos_keys)
  obtain ks where ks: "shift_loop (keys nd) ?n ?i = Some ks" "length ks = 3"
    "wr ks ?i key = Some (ks[?i := key])"
    "take (Suc ?n) (ks[?i := key]) = take ?i (map fst kvs) @ key # drop ?i (map fst kvs)"
    using shift_then_write [of ?i ?n "keys nd" key] i nd assms(3) by auto
  obtain vs where vs: "shift_loop (vals nd) ?n ?i = Some vs" "length vs = 3"
    "wr vs ?i v = Some (vs[?i := v])"
    "take (Suc ?n) (vs[?i := v]) = take ?i (map snd kvs) @ v # drop ?i (map snd kvs)"
    using shift_then_write [of ?i ?n "vals nd" v] i nd assms(3) by auto
  let ?nd = "nd\<lparr>keys := ks[?i := key], vals := vs[?i := v], num_keys := ?n + 1\<rparr>"
  have "bptree_insert_into_leaf t a key v = Some (put_node t a ?nd)"
    using assms(1,3) pos ks vs i nd by (simp add: bptree_insert_into_leaf_def leaf_shift_loop_eq)
  moreover have "leaf_node ?nd q (ins_entry key v kvs)"
    using assms(3) ks vs nd unfolding leaf_node_def
    by (simp add: map_fst_ins_entry map_snd_ins_entry)
  ultimately show ?thesis by auto
qed

lemma bptree_insert_into_internal_ok:
  assumes p: "nodes t p = Some nd" and nd: "inner_node nd q (las @ x # ras) (lks @ rks)"
    and len: "length las = length lks" "length ras = length rks" "length lks + length rks < 3"
    and r: "nodes t r = Some rn" "r \<noteq> p"
  shows "\<exists>nd'. bptree_insert_into_internal t p (length las) k r =
      Some (put_node (put_node t r (rn\<lparr>parent := Some p\<rparr>)) p nd') \<and>
    inner_node nd' q (las @ x # r # ras) (lks @ k # rks) \<and> next_leaf nd' = next_leaf nd"
proof -
  let ?i = "length las" and ?n = "length lks + length rks"
  have nd': "num_keys nd = ?n" "length (keys nd) = 3" "length (vals nd) = 3" "length (children nd) = 4"
    "take ?n (keys nd) = lks @ rks" "take (Suc ?n) (children nd) = map Some (las @ x # ras)"
    "\<not> is_leaf nd" "parent nd = q"
    using nd by (simp_all add: inner_node_def)
  obtain ks where ks: "shift_loop (keys nd) ?n ?i = Some ks" "length ks = 3"
    "wr ks ?i k = Some (ks[?i := k])" "take (Suc ?n) (ks[?i := k]) = lks @ k # rks"
    using shift_then_write [of ?i ?n "keys nd" k] len nd' by auto
  obtain cs where cs: "shift_loop (children nd) (Suc ?n) (Suc ?i) = Some cs" "length cs = 4"
    "wr cs (Suc ?i) (Some r) = Some (cs[Suc ?i := Some r])"
    "take (Suc (Suc ?n)) (cs[Suc ?i := Some r]) = map Some (las @ x # r # ras)"
    using shift_then_write [of "Suc ?i" "Suc ?n" "children nd" "Some r"] len nd' by auto
  let ?nd = "num_keys_update Suc (nd\<lparr>keys := ks[?i := k], children := cs[Suc ?i := Some r]\<rparr>)"
  have "bptree_insert_into_internal t p ?i k r =
      Some (put_node (put_node t r (rn\<lparr>parent := Some p\<rparr>)) p ?nd)"
    using p r ks cs nd' by (simp add: bptree_insert_into_internal_def upd_node_def put_node_def fun_upd_twist)
  moreover have "inner_node ?nd q (las @ x # r # ras) (lks @ k # rks)"
    using len ks cs nd' unfolding inner_node_def by simp
  ultimately show ?thesis by auto
qed

section \<open>Allocation and a new root\<close>

lemma bptree_create_node_ok:
  "env_next e = (True, e') \<Longrightarrow>
   bptree_create_node t leaf e =
     (Some (brk t),
      (put_node t (brk t) \<lparr>is_leaf = leaf, num_keys = 0, keys = [0, 0, 0], vals = [None, None, None],
         children = [None, None, None, None], parent = None, next_leaf = None\<rparr>)\<lparr>brk := Suc (brk t)\<rparr>, e')"
  by (simp add: bptree_create_node_def BPTREE_MAX_KEYS_def BPTREE_ORDER_def numeral_eq_Suc)

lemma bptree_create_new_root_ok:
  assumes "nodes t l = Some ln" and "nodes t r = Some rn" and "l \<noteq> r" and "l < brk t" and "r < brk t"
    and "env_next e = (True, e')"
  shows "\<exists>t' nd. bptree_create_new_root t l k r e = Some (True, t', e') \<and>
    root t' = Some (brk t) \<and> brk t' = Suc (brk t) \<and>
    nodes t' (brk t) = Some nd \<and> inner_node nd None [l, r] [k] \<and>
    nodes t' l = Some (ln\<lparr>parent := Some (brk t)\<rparr>) \<and> nodes t' r = Some (rn\<lparr>parent := Some (brk t)\<rparr>) \<and>
    (\<forall>a. a \<noteq> l \<longrightarrow> a \<noteq> r \<longrightarrow> a \<noteq> brk t \<longrightarrow> nodes t' a = nodes t a)"
  using assms
  by (simp add: bptree_create_new_root_def bptree_create_node_ok put_node_def upd_node_def
      array_simps inner_node_def)

section \<open>Splitting a full leaf\<close>

lemma three_cases:
  assumes "length xs = 3"
  obtains a b c where "xs = [a, b, c]"
  using assms by (auto simp: numeral_eq_Suc length_Suc_conv)

lemma leaf_node_full:
  "leaf_node nd q kvs \<Longrightarrow> length kvs = 3 \<Longrightarrow> keys nd = map fst kvs \<and> vals nd = map snd kvs"
  by (auto simp: leaf_node_def)

text \<open>The temporary arrays hold the old entries with the new one at its position.\<close>

lemma replicate_4: "replicate 4 x = [x, x, x, x]"
  by (simp add: numeral_eq_Suc)

lemma leaf_merge_loop_full:
  assumes "keys nd = [k0, k1, k2]" and "vals nd = [v0, v1, v2]" and "num_keys nd = 3" and "i \<le> 3"
  shows "\<exists>tk tv. leaf_merge_loop nd key v i 0 0 [None, None, None, None] [None, None, None, None] =
      Some (if i = 3 then 3 else 4, tk, tv) \<and>
    (if i = 3 then tk[3 := Some key] else tk) = map Some (take i [k0, k1, k2] @ key # drop i [k0, k1, k2]) \<and>
    (if i = 3 then tv[3 := Some v] else tv) = map Some (take i [v0, v1, v2] @ v # drop i [v0, v1, v2]) \<and>
    length tk = 4 \<and> length tv = 4"
proof -
  have "i = 0 \<or> i = 1 \<or> i = 2 \<or> i = 3" using assms(4) by linarith
  then show ?thesis
    using assms(1-3) by (elim disjE) (simp_all add: leaf_merge_loop.simps rd_def wr_def numeral_eq_Suc)
qed

lemma leaf_copy_left_loop_full:
  assumes "length (keys nd) = 3" and "length (vals nd) = 3" and "num_keys nd = 0"
  shows "\<exists>nd'. leaf_copy_left_loop nd [Some k0, Some k1, k2, k3] [Some v0, Some v1, v2, v3] 0 2 = Some nd' \<and>
    num_keys nd' = 2 \<and> length (keys nd') = 3 \<and> length (vals nd') = 3 \<and>
    take 2 (keys nd') = [k0, k1] \<and> take 2 (vals nd') = [v0, v1] \<and>
    is_leaf nd' = is_leaf nd \<and> children nd' = children nd \<and> parent nd' = parent nd \<and>
    next_leaf nd' = next_leaf nd"
proof -
  obtain a b c d e f where "keys nd = [a, b, c]" "vals nd = [d, e, f]"
    using assms(1,2) three_cases by metis
  then show ?thesis
    using assms(3) by (simp add: leaf_copy_left_loop.simps rd_def wr_def rd_init_def numeral_eq_Suc)
qed

lemma leaf_copy_right_loop_full:
  assumes "keys nd = [0, 0, 0]" and "vals nd = [None, None, None]" and "num_keys nd = 0"
  shows "\<exists>nd'. leaf_copy_right_loop nd [k0, k1, Some k2, Some k3] [v0, v1, Some v2, Some v3] 2 = Some nd' \<and>
    num_keys nd' = 2 \<and> keys nd' = [k2, k3, 0] \<and> vals nd' = [v2, v3, None] \<and>
    is_leaf nd' = is_leaf nd \<and> children nd' = children nd \<and> parent nd' = parent nd"
  using assms
  by (simp add: leaf_copy_right_loop.simps BPTREE_ORDER_def rd_def wr_def rd_init_def numeral_eq_Suc)

lemma four_cases:
  assumes "length xs = 4"
  obtains a b c d where "xs = [a, b, c, d]"
  using assms by (auto simp: numeral_eq_Suc length_Suc_conv)

lemma bptree_split_leaf_ok:
  assumes a: "nodes t a = Some nd" and nd: "leaf_node nd q kvs" and len: "length kvs = 3"
    and e: "env_next e = (True, e')" and fresh: "a < brk t"
  shows "\<exists>t' nd' rn. bptree_split_leaf t a key v e =
      Some (Some (fst (ins_entry key v kvs ! 2), brk t), t', e') \<and>
    root t' = root t \<and> brk t' = Suc (brk t) \<and>
    nodes t' a = Some nd' \<and> nodes t' (brk t) = Some rn \<and>
    (\<forall>b. b \<noteq> a \<longrightarrow> b \<noteq> brk t \<longrightarrow> nodes t' b = nodes t b) \<and>
    leaf_node nd' q (take 2 (ins_entry key v kvs)) \<and> next_leaf nd' = Some (brk t) \<and>
    leaf_node rn q (drop 2 (ins_entry key v kvs)) \<and> next_leaf rn = next_leaf nd"
proof -
  let ?i = "ins_pos key kvs"
  obtain k0 v0 k1 v1 k2 v2 where kvs: "kvs = [(k0, v0), (k1, v1), (k2, v2)]"
    using len three_cases by (metis prod.collapse)
  have keys: "keys nd = [k0, k1, k2]" and vals: "vals nd = [v0, v1, v2]"
    using leaf_node_full [OF nd len] kvs by simp_all
  have n: "num_keys nd = 3" and q: "parent nd = q" "is_leaf nd" "length (children nd) = 4"
    using nd len by (simp_all add: leaf_node_def)
  have pos: "bptree_find_insert_index (keys nd) (num_keys nd) key = Some ?i"
    using n keys kvs by (simp add: find_insert_index_eq ins_pos_def)
  have "length (ins_entry key v kvs) = 4" using len by simp
  then obtain l0 w0 l1 w1 l2 w2 l3 w3 where ins: "ins_entry key v kvs = [(l0, w0), (l1, w1), (l2, w2), (l3, w3)]"
    using four_cases by (metis prod.collapse)
  have "take ?i (keys nd) @ key # drop ?i (keys nd) = [l0, l1, l2, l3]"
    using map_fst_ins_entry [of key v kvs, symmetric] leaf_node_full [OF nd len] ins by simp
  then have mk: "map Some (take ?i (keys nd) @ key # drop ?i (keys nd)) = [Some l0, Some l1, Some l2, Some l3]"
    by (simp only: list.map)
  have "take ?i (vals nd) @ v # drop ?i (vals nd) = [w0, w1, w2, w3]"
    using map_snd_ins_entry [of key v kvs, symmetric] leaf_node_full [OF nd len] ins by simp
  then have mv: "map Some (take ?i (vals nd) @ v # drop ?i (vals nd)) = [Some w0, Some w1, Some w2, Some w3]"
    by (simp only: list.map)
  obtain tk tv where merge: "leaf_merge_loop nd key v ?i 0 0 [None, None, None, None] [None, None, None, None] =
      Some (if ?i = 3 then 3 else 4, tk, tv)"
    "(if ?i = 3 then tk[3 := Some key] else tk) = [Some l0, Some l1, Some l2, Some l3]"
    "(if ?i = 3 then tv[3 := Some v] else tv) = [Some w0, Some w1, Some w2, Some w3]"
    "length tk = 4" "length tv = 4"
    using leaf_merge_loop_full [OF keys vals n, of ?i key v] ins_pos_le [of key kvs] mk mv len keys vals by auto
  obtain left where left: "leaf_copy_left_loop (nd\<lparr>num_keys := 0\<rparr>) [Some l0, Some l1, Some l2, Some l3]
      [Some w0, Some w1, Some w2, Some w3] 0 2 = Some left"
    "num_keys left = 2" "length (keys left) = 3" "length (vals left) = 3" "take 2 (keys left) = [l0, l1]"
    "take 2 (vals left) = [w0, w1]" "is_leaf left" "length (children left) = 4" "parent left = q"
    "next_leaf left = next_leaf nd"
    using leaf_copy_left_loop_full [of "nd\<lparr>num_keys := 0\<rparr>" l0 l1 "Some l2" "Some l3" w0 w1 "Some w2" "Some w3"] keys vals q by auto
  let ?z = "\<lparr>is_leaf = True, num_keys = 0, keys = [0, 0, 0], vals = [None, None, None],
      children = [None, None, None, None], parent = q, next_leaf = None\<rparr>"
  obtain right where right: "leaf_copy_right_loop ?z [Some l0, Some l1, Some l2, Some l3]
      [Some w0, Some w1, Some w2, Some w3] 2 = Some right"
    "num_keys right = 2" "keys right = [l2, l3, 0]" "vals right = [w2, w3, None]" "is_leaf right"
    "length (children right) = 4" "parent right = q"
    using leaf_copy_right_loop_full [of ?z "Some l0" "Some l1" l2 l3 "Some w0" "Some w1" w2 w3] by auto
  have i: "?i = 3 \<or> ?i \<noteq> 3 \<and> ?i \<noteq> 4" using ins_pos_le [of key kvs] len by linarith
  have "bptree_split_leaf t a key v e = Some (Some (l2, brk t),
      put_node (put_node (t\<lparr>brk := Suc (brk t)\<rparr>) a (left\<lparr>next_leaf := Some (brk t)\<rparr>)) (brk t)
        (right\<lparr>next_leaf := next_leaf nd\<rparr>), e')"
    using a pos merge left right fresh i
    by (auto simp: bptree_split_leaf_def bptree_create_node_ok [OF e] put_node_def Let_def
      BPTREE_ORDER_def replicate_4 wr_def rd_def)
  moreover have "leaf_node (left\<lparr>next_leaf := Some (brk t)\<rparr>) q (take 2 (ins_entry key v kvs))"
    using left ins by (simp add: leaf_node_def numeral_2_eq_2)
  moreover have "leaf_node (right\<lparr>next_leaf := next_leaf nd\<rparr>) q (drop 2 (ins_entry key v kvs))"
    using right ins by (simp add: leaf_node_def)
  ultimately show ?thesis using ins fresh by (simp add: put_node_def)
qed

section \<open>Splitting a full internal node\<close>

lemma temp_copy_keys: "temp_copy_loop [a, b, c] [None, None, None, None] 0 3 = Some [Some a, Some b, Some c, None]"
  by (simp add: temp_copy_loop.simps rd_def wr_def numeral_eq_Suc)

lemma temp_copy_children:
  "temp_copy_loop [a, b, c, d] [None, None, None, None, None] 0 4 = Some [Some a, Some b, Some c, Some d, None]"
  by (simp add: temp_copy_loop.simps rd_def wr_def numeral_eq_Suc)

text \<open>The temporary arrays of the split: the old ones with the new key or child inserted.\<close>

lemma temp_insert:
  assumes "i \<le> length xs"
  shows "\<exists>ys. shift_loop (map Some xs @ [None]) (length xs) i = Some ys \<and>
    wr ys i (Some x) = Some (map Some (take i xs @ x # drop i xs))"
proof -
  let ?xs = "map Some xs @ [None]"
  obtain ys where ys: "shift_loop ?xs (length xs) i = Some ys" "length ys = Suc (length xs)"
    "wr ys i (Some x) = Some (ys[i := Some x])"
    "take (Suc (length xs)) (ys[i := Some x]) = map Some (take i xs @ x # drop i xs)"
    using shift_then_write [of i "length xs" ?xs "Some x"] assms by (auto simp: take_map drop_map)
  then show ?thesis by auto
qed

lemma split_left_loop_step:
  assumes "nodes t p = Some nd" and "nodes t c = Some cn" and "c \<noteq> p" and "i < m"
    and "rd_init tk i = Some k" and "rd_init tc i = Some (Some c)"
    and "i < length (keys nd)" and "i < length (children nd)"
  shows "split_left_loop t p tk tc i m =
    split_left_loop (put_node (put_node t c (cn\<lparr>parent := Some p\<rparr>)) p
      (num_keys_update Suc (nd\<lparr>keys := (keys nd)[i := k], children := (children nd)[i := Some c]\<rparr>)))
      p tk tc (Suc i) m"
  using assms
  by (subst split_left_loop.simps)
     (simp add: array_simps set_child_parent_def upd_node_def put_node_def fun_upd_twist)

lemma split_right_loop_step:
  assumes "nodes t p = Some nd" and "nodes t c = Some cn" and "c \<noteq> p" and "i < BPTREE_ORDER"
    and "rd_init tk i = Some k" and "rd_init tc i = Some (Some c)"
    and "num_keys nd < length (keys nd)" and "num_keys nd < length (children nd)"
  shows "split_right_loop t p tk tc i =
    split_right_loop (put_node (put_node t c (cn\<lparr>parent := Some p\<rparr>)) p
      (num_keys_update Suc (nd\<lparr>keys := (keys nd)[num_keys nd := k],
         children := (children nd)[num_keys nd := Some c]\<rparr>)))
      p tk tc (Suc i)"
  using assms
  by (subst split_right_loop.simps)
     (simp add: array_simps set_child_parent_def upd_node_def put_node_def fun_upd_twist)

lemma set_last_child_eq:
  assumes "nodes t p = Some nd" and "nodes t c = Some cn" and "c \<noteq> p" and "i < length (children nd)"
  shows "set_last_child t p i (Some c) =
    Some (put_node (put_node t c (cn\<lparr>parent := Some p\<rparr>)) p (nd\<lparr>children := (children nd)[i := Some c]\<rparr>))"
  using assms
  by (simp add: set_last_child_def array_simps set_child_parent_def upd_node_def put_node_def fun_upd_twist)

lemma split_left_loop_two:
  assumes p: "nodes t p = Some nd" "length (keys nd) = 3" "length (children nd) = 4" "num_keys nd = 0"
    and c: "nodes t c0 = Some n0" "nodes t c1 = Some n1"
    and d: "distinct [p, c0, c1]"
  shows "\<exists>t' nd'. split_left_loop t p [Some k0, Some k1, k2, k3] [Some (Some c0), Some (Some c1), c2, c3, c4] 0 2
      = Some t' \<and> root t' = root t \<and> brk t' = brk t \<and>
    nodes t' p = Some nd' \<and> nodes t' c0 = Some (n0\<lparr>parent := Some p\<rparr>) \<and>
    nodes t' c1 = Some (n1\<lparr>parent := Some p\<rparr>) \<and>
    (\<forall>b. b \<notin> {p, c0, c1} \<longrightarrow> nodes t' b = nodes t b) \<and>
    num_keys nd' = 2 \<and> length (keys nd') = 3 \<and> take 2 (keys nd') = [k0, k1] \<and>
    length (children nd') = 4 \<and> take 2 (children nd') = [Some c0, Some c1] \<and>
    is_leaf nd' = is_leaf nd \<and> vals nd' = vals nd \<and> parent nd' = parent nd \<and> next_leaf nd' = next_leaf nd"
proof -
  obtain a b c e f g h where k: "keys nd = [a, b, c]" "children nd = [e, f, g, h]"
    using p three_cases four_cases by metis
  let ?nd = "num_keys_update (Suc \<circ> Suc) (nd\<lparr>keys := [k0, k1, c], children := [Some c0, Some c1, g, h]\<rparr>)"
  have "split_left_loop t p [Some k0, Some k1, k2, k3] [Some (Some c0), Some (Some c1), c2, c3, c4] 0 2 =
      Some (t\<lparr>nodes := (nodes t)(c0 \<mapsto> n0\<lparr>parent := Some p\<rparr>, c1 \<mapsto> n1\<lparr>parent := Some p\<rparr>, p \<mapsto> ?nd)\<rparr>)"
    using p c d k
    by (simp add: split_left_loop_step [where c = c0 and cn = n0 and nd = nd]
      split_left_loop_step [where c = c1 and cn = n1 and i = "Suc 0" and
        nd = "num_keys_update Suc (nd\<lparr>keys := [k0, b, c], children := [Some c0, f, g, h]\<rparr>)"]
      split_left_loop.simps [where index = "Suc (Suc 0)"] rd_init_def rd_def put_node_def)
  then show ?thesis using p k d by simp
qed

lemma split_right_loop_stop: "split_right_loop t p tk tc (Suc (Suc (Suc (Suc 0)))) = Some t"
  by (subst split_right_loop.simps) (simp add: BPTREE_ORDER_def)

lemma split_right_loop_one:
  assumes p: "nodes t p = Some nd" "keys nd = [0, 0, 0]" "children nd = [None, None, None, None]" "num_keys nd = 0"
    and c: "nodes t c = Some cn" "c \<noteq> p"
  shows "\<exists>t' nd'. split_right_loop t p [k0, k1, k2, Some k3] [c0, c1, c2, Some (Some c), c4] 3
      = Some t' \<and> root t' = root t \<and> brk t' = brk t \<and>
    nodes t' p = Some nd' \<and> nodes t' c = Some (cn\<lparr>parent := Some p\<rparr>) \<and>
    (\<forall>b. b \<notin> {p, c} \<longrightarrow> nodes t' b = nodes t b) \<and>
    num_keys nd' = 1 \<and> keys nd' = [k3, 0, 0] \<and> children nd' = [Some c, None, None, None] \<and>
    is_leaf nd' = is_leaf nd \<and> vals nd' = vals nd \<and> parent nd' = parent nd \<and> next_leaf nd' = next_leaf nd"
  using assms
  by (simp add: split_right_loop_step [where c = c and cn = cn and nd = nd]
      split_right_loop_stop rd_init_def rd_def put_node_def BPTREE_ORDER_def
      numeral_eq_Suc)

text \<open>The whole split, for the two temporary arrays written out.\<close>

lemma split_internal_arrays:
  assumes nd: "inner_node nd q as ks" and len: "length ks = 3" "length as = 4" and i: "i \<le> 3"
    and ls: "ls = take i ks @ k # drop i ks" and bs: "bs = take (Suc i) as @ r # drop (Suc i) as"
  obtains tk tk1 tc tc1 where
    "temp_copy_loop (keys nd) (replicate BPTREE_ORDER None) 0 (num_keys nd) = Some tk"
    "shift_loop tk (num_keys nd) i = Some tk1" "wr tk1 i (Some k) = Some (map Some ls)"
    "temp_copy_loop (children nd) (replicate (BPTREE_ORDER + 1) None) 0 (num_keys nd + 1) = Some tc"
    "shift_loop tc (num_keys nd + 1) (i + 1) = Some tc1"
    "wr tc1 (i + 1) (Some (Some r)) = Some (map Some (map Some bs))"
proof -
  have n: "num_keys nd = 3" and keys: "keys nd = ks" and cs: "children nd = map Some as"
    using nd len by (auto simp: inner_node_def)
  obtain k0 k1 k2 where ks: "ks = [k0, k1, k2]" using len three_cases by metis
  obtain a0 a1 a2 a3 where as: "as = [a0, a1, a2, a3]" using len four_cases by metis
  have r5: "replicate (BPTREE_ORDER + 1) None = [None, None, None, None, None]" for x :: "'a option option"
    by (simp add: BPTREE_ORDER_def numeral_eq_Suc)
  obtain tk1 where tk1: "shift_loop (map Some ks @ [None]) 3 i = Some tk1" "wr tk1 i (Some k) = Some (map Some ls)"
    using temp_insert [of i ks k] i len ls by auto
  obtain tc1 where tc1: "shift_loop (map Some (map Some as) @ [None]) 4 (i + 1) = Some tc1"
    "wr tc1 (i + 1) (Some (Some r)) = Some (map Some (map Some bs))"
    using temp_insert [of "i + 1" "map Some as" "Some r"] i len bs
    by (auto simp: take_map drop_map)
  show thesis
    by (rule that [of "map Some ks @ [None]" tk1 "map Some (map Some as) @ [None]" tc1])
       (use n keys cs ks as tk1 tc1 in \<open>simp_all add: temp_copy_keys temp_copy_children BPTREE_ORDER_def
          replicate_4 numeral_eq_Suc temp_copy_loop.simps rd_def wr_def\<close>)
qed

lemma bptree_split_internal_ok:
  assumes p: "nodes t p = Some nd" and nd: "inner_node nd q as ks"
    and len: "length ks = 3" "length as = 4" and i: "i \<le> 3"
    and ls: "ls = take i ks @ k # drop i ks" and bs: "bs = take (Suc i) as @ r # drop (Suc i) as"
    and dist: "distinct (p # brk t # bs)" and alloc: "\<forall>b \<in> set bs. nodes t b \<noteq> None"
    and e: "env_next e = (True, e')"
  shows "\<exists>t' nd' rn. bptree_split_internal t p i k r e = Some (Some (ls ! 2, brk t), t', e') \<and>
    brk t' = Suc (brk t) \<and> root t' = root t \<and>
    nodes t' p = Some nd' \<and> inner_node nd' q (take 3 bs) (take 2 ls) \<and>
    nodes t' (brk t) = Some rn \<and> inner_node rn q (drop 3 bs) (drop 3 ls) \<and>
    (\<forall>b \<in> set (take 3 bs). nodes t' b = map_option (parent_update (\<lambda>_. Some p)) (nodes t b)) \<and>
    (\<forall>b \<in> set (drop 3 bs). nodes t' b = map_option (parent_update (\<lambda>_. Some (brk t))) (nodes t b)) \<and>
    (\<forall>b. b \<notin> insert p (insert (brk t) (set bs)) \<longrightarrow> nodes t' b = nodes t b)"
proof -
  let ?n = "brk t"
  let ?z = "\<lparr>is_leaf = False, num_keys = 0, keys = [0, 0, 0], vals = [None, None, None],
      children = [None, None, None, None], parent = None, next_leaf = None\<rparr>"
  have "length bs = 5" "length ls = 4" using i len ls bs by simp_all
  then obtain b0 b1 b2 b3 b4 l0 l1 l2 l3 where B: "bs = [b0, b1, b2, b3, b4]" and L: "ls = [l0, l1, l2, l3]"
    by (auto simp: numeral_eq_Suc length_Suc_conv)
  obtain n0 n1 n2 n3 n4 where al: "nodes t b0 = Some n0" "nodes t b1 = Some n1" "nodes t b2 = Some n2"
    "nodes t b3 = Some n3" "nodes t b4 = Some n4"
    using alloc B by auto
  obtain tk tk1 tc tc1 where arr:
    "temp_copy_loop (keys nd) (replicate BPTREE_ORDER None) 0 (num_keys nd) = Some tk"
    "shift_loop tk (num_keys nd) i = Some tk1" "wr tk1 i (Some k) = Some (map Some ls)"
    "temp_copy_loop (children nd) (replicate (BPTREE_ORDER + 1) None) 0 (num_keys nd + 1) = Some tc"
    "shift_loop tc (num_keys nd + 1) (i + 1) = Some tc1"
    "wr tc1 (i + 1) (Some (Some r)) = Some (map Some (map Some bs))"
    using split_internal_arrays [OF nd len i ls bs] by metis
  have ndf: "length (keys nd) = 3" "length (vals nd) = 3" "length (children nd) = 4" "parent nd = q" "\<not> is_leaf nd"
    using nd by (simp_all add: inner_node_def)
  let ?t0 = "put_node ((put_node t ?n ?z)\<lparr>brk := Suc ?n\<rparr>) p (nd\<lparr>num_keys := 0\<rparr>)"
  have n0: "nodes ?t0 = (nodes t)(?n \<mapsto> ?z, p \<mapsto> nd\<lparr>num_keys := 0\<rparr>)" by (simp add: put_node_def)
  obtain t1 nd1 where t1: "split_left_loop ?t0 p (map Some ls) (map Some (map Some bs)) 0 2 = Some t1"
    "root t1 = root t" "brk t1 = Suc ?n" "nodes t1 p = Some nd1"
    "nodes t1 b0 = Some (n0\<lparr>parent := Some p\<rparr>)" "nodes t1 b1 = Some (n1\<lparr>parent := Some p\<rparr>)"
    "\<forall>b. b \<notin> {p, b0, b1} \<longrightarrow> nodes t1 b = nodes ?t0 b"
    and nd1: "num_keys nd1 = 2" "length (keys nd1) = 3" "take 2 (keys nd1) = [l0, l1]"
    "length (children nd1) = 4" "take 2 (children nd1) = [Some b0, Some b1]" "\<not> is_leaf nd1"
    "length (vals nd1) = 3" "parent nd1 = q"
    using split_left_loop_two [of ?t0 p "nd\<lparr>num_keys := 0\<rparr>" b0 n0 b1 n1 l0 l1 "Some l2" "Some l3"
        "Some (Some b2)" "Some (Some b3)" "Some (Some b4)"] n0 al dist ndf B L
    by (auto simp: put_node_def)
  let ?nd2 = "nd1\<lparr>children := (children nd1)[2 := Some b2]\<rparr>"
  let ?t2 = "put_node (put_node t1 b2 (n2\<lparr>parent := Some p\<rparr>)) p ?nd2"
  have t2: "set_last_child t1 p 2 (Some b2) = Some ?t2"
    using t1 nd1 al dist B n0 by (intro set_last_child_eq) auto
  let ?t3 = "put_node ?t2 ?n (?z\<lparr>parent := q\<rparr>)"
  have t3: "upd_node ?t2 ?n (parent_update (\<lambda>_. q)) = Some ?t3"
    using t1 dist B n0 by (auto simp: upd_node_def put_node_def)
  obtain t4 rn where t4: "split_right_loop ?t3 ?n (map Some ls) (map Some (map Some bs)) 3 = Some t4"
    "root t4 = root t" "brk t4 = Suc ?n" "nodes t4 ?n = Some rn" "nodes t4 b3 = Some (n3\<lparr>parent := Some ?n\<rparr>)"
    "\<forall>b. b \<notin> {?n, b3} \<longrightarrow> nodes t4 b = nodes ?t3 b"
    and rn: "num_keys rn = 1" "keys rn = [l3, 0, 0]" "children rn = [Some b3, None, None, None]"
    "\<not> is_leaf rn" "length (vals rn) = 3" "parent rn = q"
    using split_right_loop_one [of ?t3 ?n "?z\<lparr>parent := q\<rparr>" b3 n3 "Some l0" "Some l1" "Some l2" l3
        "Some (Some b0)" "Some (Some b1)" "Some (Some b2)" "Some (Some b4)"] t1 al dist B L n0
    by (auto simp: put_node_def)
  let ?t5 = "put_node (put_node t4 b4 (n4\<lparr>parent := Some ?n\<rparr>)) ?n (rn\<lparr>children := (children rn)[1 := Some b4]\<rparr>)"
  have t5: "set_last_child t4 ?n 1 (Some b4) = Some ?t5"
    using t4 rn t1 al dist B n0 by (intro set_last_child_eq) (auto simp: put_node_def)
  have "bptree_split_internal t p i k r e = Some (Some (l2, ?n), ?t5, e')"
    using p dist arr t1(1) t2 t3 t4(1,4) t5 rn nd1(8) B L
    by (simp add: bptree_split_internal_def bptree_create_node_ok [OF e] put_node_def Let_def
      BPTREE_ORDER_def rd_init_def rd_def)
  moreover have "take 3 ((children nd1)[2 := Some b2]) = map Some (take 3 bs)"
    using nd1 B by (simp add: take_Suc_conv_app_nth numeral_3_eq_3 numeral_2_eq_2)
  then have "inner_node ?nd2 q (take 3 bs) (take 2 ls)"
    using nd1 B L by (simp add: inner_node_def numeral_2_eq_2 numeral_3_eq_3)
  moreover have "inner_node (rn\<lparr>children := (children rn)[1 := Some b4]\<rparr>) q (drop 3 bs) (drop 3 ls)"
    using rn B L by (simp add: inner_node_def)
  ultimately show ?thesis
    using t1 t4 al dist B L n0 by (intro exI [of _ ?t5] exI conjI) (auto simp: put_node_def)
qed

end
