(* ===== verification/BPTree_Climb.thy ===== *)
theory BPTree_Climb
  imports BPTree_Ops
begin

text \<open>
  The climb of a promoted key: \<open>bptree_insert_into_parent\<close>, which follows parent pointers from a
  split node towards the root, computes the reference algorithm \<open>grow\<close> on the represented tree,
  and so terminates. The descent \<open>bptree_find_leaf\<close> finds the leaf and its context.
\<close>

section \<open>Disjoint subtrees\<close>

lemma distinct_subtrees:
  "distinct (concat (map addrs ts)) \<Longrightarrow> c \<in> set ts \<Longrightarrow> d \<in> set ts \<Longrightarrow>
   b \<in> set (addrs c) \<Longrightarrow> b \<in> set (addrs d) \<Longrightarrow> c = d"
  by (induction ts) auto

lemma inner_addr_not_root:
  assumes "distinct (concat (map addrs ts))" and "c \<in> set ts" and "b \<in> set (addrs c)" and "b \<noteq> addr c"
  shows "b \<notin> addr ` set ts"
proof
  assume "b \<in> addr ` set ts"
  then obtain d where d: "d \<in> set ts" "b = addr d" by auto
  then have "c = d" using assms distinct_subtrees [of ts c d b] by simp
  then show False using d assms(4) by simp
qed

lemma distinct_subtree: "distinct (concat (map addrs ts)) \<Longrightarrow> c \<in> set ts \<Longrightarrow> distinct (addrs c)"
  by (induction ts) auto

lemma distinct_roots: "distinct (concat (map addrs ts)) \<Longrightarrow> distinct (map addr ts)"
proof (induction ts)
  case (Cons c ts)
  have "addr c \<noteq> addr d" if "d \<in> set ts" for d
  proof
    assume "addr c = addr d"
    then have "addr c \<in> set (concat (map addrs ts))" using that by (auto intro!: bexI [of _ d])
    then show False using Cons.prems addr_in_addrs [of c] by (auto simp del: addr_in_addrs)
  qed
  then show ?case using Cons by auto
qed simp

lemma distinct_leaf_addrs: "distinct (addrs T) \<Longrightarrow> distinct (leaf_addrs T)"
proof (induction T)
  case (ANode a ts ks)
  have "distinct (concat (map addrs ts))" "\<forall>c \<in> set ts. distinct (leaf_addrs c)"
    using ANode distinct_subtree by auto
  then have "distinct (concat (map leaf_addrs ts))"
  proof (induction ts)
    case (Cons c ts)
    have "set (concat (map leaf_addrs ts)) \<subseteq> set (concat (map addrs ts))" using leaf_addrs_subset by fastforce
    moreover have "set (addrs c) \<inter> set (concat (map addrs ts)) = {}" using Cons.prems by simp
    ultimately have "set (leaf_addrs c) \<inter> set (concat (map leaf_addrs ts)) = {}"
      using leaf_addrs_subset [of c] by blast
    then show ?case using Cons by simp
  qed simp
  then show ?case by simp
qed simp

text \<open>Subtrees whose roots get a new parent pointer and whose inner nodes stay.\<close>

lemma rep_children_reparent:
  assumes "\<forall>c \<in> set ts. \<exists>q. rep h q c" and "distinct (concat (map addrs ts))"
    and "cs \<subseteq> set ts"
    and "\<forall>c \<in> cs. h' (addr c) = map_option (parent_update (\<lambda>_. q')) (h (addr c))"
    and "\<forall>c \<in> cs. \<forall>b \<in> set (addrs c). b \<notin> addr ` set ts \<longrightarrow> h' b = h b"
  shows "\<forall>c \<in> cs. rep h' q' c"
proof
  fix c assume c: "c \<in> cs"
  then have ct: "c \<in> set ts" using assms(3) by auto
  then obtain q where "rep h q c" using assms(1) by blast
  then show "rep h' q' c"
  proof (rule rep_reparent)
    show "distinct (addrs c)" using assms(2) ct by (rule distinct_subtree)
    show "h' (addr c) = map_option (parent_update (\<lambda>_. q')) (h (addr c))" using assms(4) c by blast
    show "h' b = h b" if "b \<in> set (addrs c)" "b \<noteq> addr c" for b
      using inner_addr_not_root [OF assms(2) ct that] assms(5) c that by blast
  qed
qed

section \<open>Leaves keep their links\<close>

definition leaves_kept :: "nat \<Rightarrow> (nat \<rightharpoonup> 'v BPTreeNode) \<Rightarrow> (nat \<rightharpoonup> 'v BPTreeNode) \<Rightarrow> bool" where
  "leaves_kept n h h' \<longleftrightarrow>
     (\<forall>a nd. a < n \<longrightarrow> h a = Some nd \<longrightarrow> is_leaf nd \<longrightarrow>
        (\<exists>nd'. h' a = Some nd' \<and> is_leaf nd' \<and> next_leaf nd' = next_leaf nd))"

lemma leaves_keptD:
  "leaves_kept n h h' \<Longrightarrow> a < n \<Longrightarrow> h a = Some nd \<Longrightarrow> is_leaf nd \<Longrightarrow>
   \<exists>nd'. h' a = Some nd' \<and> is_leaf nd' \<and> next_leaf nd' = next_leaf nd"
  by (simp add: leaves_kept_def)

lemma leaves_kept_trans:
  assumes "leaves_kept n h h'" and "leaves_kept m h' h''" and "n \<le> m"
  shows "leaves_kept n h h''"
  unfolding leaves_kept_def
proof (intro allI impI)
  fix a nd assume a: "a < n" "h a = Some nd" "is_leaf nd"
  obtain nd' where "h' a = Some nd'" "is_leaf nd'" "next_leaf nd' = next_leaf nd"
    using leaves_keptD [OF assms(1) a] by blast
  then show "\<exists>nd''. h'' a = Some nd'' \<and> is_leaf nd'' \<and> next_leaf nd'' = next_leaf nd"
    using leaves_keptD [OF assms(2), of a nd'] a(1) assms(3) by simp
qed

text \<open>Changes of inner nodes, of parent pointers and of fresh nodes keep the leaves.\<close>

lemma leaves_keptI:
  assumes "\<And>a. a < n \<Longrightarrow> h' a = h a \<or> (\<exists>q. h' a = map_option (parent_update (\<lambda>_. q)) (h a)) \<or>
    (\<exists>nd. h a = Some nd \<and> \<not> is_leaf nd)"
  shows "leaves_kept n h h'"
  unfolding leaves_kept_def
proof (intro allI impI)
  fix a nd assume a: "a < n" "h a = Some nd" "is_leaf nd"
  from assms [OF a(1)] show "\<exists>nd'. h' a = Some nd' \<and> is_leaf nd' \<and> next_leaf nd' = next_leaf nd"
  proof (elim disjE exE conjE)
    assume "h' a = h a"
    then show ?thesis using a by simp
  next
    fix q assume "h' a = map_option (parent_update (\<lambda>_. q)) (h a)"
    then show ?thesis using a by simp
  next
    fix nd2 assume "h a = Some nd2" "\<not> is_leaf nd2"
    then show ?thesis using a by simp
  qed
qed

section \<open>The climb\<close>

lemma addr_plug_cong: "addr x = addr y \<Longrightarrow> addr (plug C x) = addr (plug C y)"
proof (cases C rule: rev_cases)
  case (snoc D f)
  then show ?thesis by (cases f) (simp add: plug_append)
qed simp

definition climbs :: "'v BPTree \<Rightarrow> 'v atree \<times> nat \<Rightarrow> 'v BPTree \<Rightarrow> bool" where
  "climbs t g t' \<longleftrightarrow>
     rep (nodes t') None (fst g) \<and> brk t' = snd g \<and> root t' = Some (addr (fst g)) \<and>
     leaves_kept (brk t) (nodes t) (nodes t')"

lemma climb_new_root:
  assumes "rep (nodes t) None l" and "rep (nodes t) q r" and d: "distinct (addrs l @ addrs r)"
    and lt: "\<forall>a \<in> set (addrs l @ addrs r). a < brk t" and e: "env_next e = (True, e')"
  shows "\<exists>t'. bptree_insert_into_parent t (addr l) k (addr r) e = Some (True, t', e') \<and>
    climbs t (grow [] l k r (brk t)) t'"
proof -
  let ?n = "brk t"
  obtain ln rn where ln: "nodes t (addr l) = Some ln" "parent ln = None" and rn: "nodes t (addr r) = Some rn"
    using assms(1,2) rep_parent by metis
  have neq: "addr l \<noteq> addr r" using d by (metis IntI addr_in_addrs distinct_append empty_iff)
  have lts: "addr l < ?n" "addr r < ?n" using lt by auto
  obtain t' nd where t': "bptree_create_new_root t (addr l) k (addr r) e = Some (True, t', e')"
    "root t' = Some ?n" "brk t' = Suc ?n" "nodes t' ?n = Some nd" "inner_node nd None [addr l, addr r] [k]"
    "nodes t' (addr l) = Some (ln\<lparr>parent := Some ?n\<rparr>)" "nodes t' (addr r) = Some (rn\<lparr>parent := Some ?n\<rparr>)"
    "\<forall>a. a \<noteq> addr l \<longrightarrow> a \<noteq> addr r \<longrightarrow> a \<noteq> ?n \<longrightarrow> nodes t' a = nodes t a"
    using bptree_create_new_root_ok [OF ln(1) rn neq lts e, of k] by blast
  have "\<forall>c \<in> {l, r}. rep (nodes t') (Some ?n) c"
  proof (rule rep_children_reparent [of "[l, r]"])
    show "\<forall>c \<in> {l, r}. \<forall>b \<in> set (addrs c). b \<notin> addr ` set [l, r] \<longrightarrow> nodes t' b = nodes t b"
      using t'(8) lt by auto
  qed (use assms(1,2) d t' ln rn in auto)
  then have "rep (nodes t') None (ANode ?n [l, r] [k])" using t' by simp
  moreover have "leaves_kept ?n (nodes t) (nodes t')"
  proof (rule leaves_keptI)
    fix a assume "a < ?n"
    then have "a = addr l \<or> a = addr r \<or> nodes t' a = nodes t a" using t'(8) by auto
    then show "nodes t' a = nodes t a \<or> (\<exists>q. nodes t' a = map_option (parent_update (\<lambda>_. q)) (nodes t a)) \<or>
        (\<exists>nd. nodes t a = Some nd \<and> \<not> is_leaf nd)"
      using t'(6,7) ln rn by auto
  qed
  moreover have "bptree_insert_into_parent t (addr l) k (addr r) e = Some (True, t', e')"
    using ln t'(1) by (subst bptree_insert_into_parent.simps) simp
  ultimately show ?thesis using t' by (simp add: climbs_def)
qed

text \<open>What the heap says about the frame above a split node.\<close>

lemma climb_frame:
  assumes "rep_ctx h q (Frame a lts lks rks rts # C) (addr l)" and "rep h q l"
    and "cshape (Frame a lts lks rks rts # C)"
    and "distinct (caddrs (Frame a lts lks rks rts # C) @ addrs l @ addrs r)"
  obtains ln nd p where "h (addr l) = Some ln" "parent ln = Some a" "h a = Some nd"
    "inner_node nd p (map addr lts @ addr l # map addr rts) (lks @ rks)" "rep_ctx h p C a"
    "\<forall>c \<in> set lts \<union> set rts. rep h (Some a) c" "rep h (Some a) l"
    "child_pos_loop (children nd) (num_keys nd) (addr l) 0 = Some (length lts)"
    "num_keys nd = length lks + length rks"
proof -
  obtain nd p where nd: "h a = Some nd" "inner_node nd p (map addr lts @ addr l # map addr rts) (lks @ rks)"
    "rep_ctx h p C a" "\<forall>c \<in> set lts \<union> set rts. rep h (Some a) c" "q = Some a"
    using assms(1) by auto
  obtain ln where ln: "h (addr l) = Some ln" "parent ln = Some a" using rep_parent [OF assms(2)] nd(5) by auto
  have "addr l \<notin> addr ` set lts"
  proof
    assume "addr l \<in> addr ` set lts"
    then obtain c where "c \<in> set lts" "addr l \<in> set (addrs c)" by (metis addr_in_addrs imageE)
    then have "addr l \<in> set (caddrs (Frame a lts lks rks rts # C))" by auto
    then show False using assms(4) addr_in_addrs [of l] by (auto simp only: distinct_append set_append)
  qed
  moreover have "take (Suc (num_keys nd)) (children nd) = map Some (map addr lts @ addr l # map addr rts)"
    and n: "num_keys nd = length lks + length rks"
    using nd(2) by (simp_all add: inner_node_def)
  ultimately have "child_pos_loop (children nd) (num_keys nd) (addr l) 0 = Some (length lts)"
    using child_pos_loop_eq [of "num_keys nd" "children nd" "map addr lts" "addr l" "map addr rts" 0] assms(3)
    by simp
  then show thesis using that nd ln n assms(2) by blast
qed

lemma climb_insert:
  assumes ctx: "rep_ctx (nodes t) q (Frame a lts lks rks rts # C) (addr l)" "rep (nodes t) q l"
    and r: "rep (nodes t) q' r" and shape: "cshape (Frame a lts lks rks rts # C)"
    and d: "distinct (caddrs (Frame a lts lks rks rts # C) @ addrs l @ addrs r)"
    and root: "root t = Some (addr (plug (Frame a lts lks rks rts # C) l))"
    and room: "length lks + length rks < 3"
  shows "\<exists>t'. bptree_insert_into_parent t (addr l) k (addr r) e = Some (True, t', e) \<and>
    climbs t (grow (Frame a lts lks rks rts # C) l k r (brk t)) t'"
proof -
  obtain ln nd p where ln: "nodes t (addr l) = Some ln" "parent ln = Some a" and nd: "nodes t a = Some nd"
    "inner_node nd p (map addr lts @ addr l # map addr rts) (lks @ rks)" and C: "rep_ctx (nodes t) p C a"
    and sub: "\<forall>c \<in> set lts \<union> set rts. rep (nodes t) (Some a) c" "rep (nodes t) (Some a) l"
    and pos: "child_pos_loop (children nd) (num_keys nd) (addr l) 0 = Some (length lts)"
    "num_keys nd = length lks + length rks"
    using climb_frame [OF ctx shape d] by metis
  obtain rn where rn: "nodes t (addr r) = Some rn" using rep_parent [OF r] by auto
  have ra: "addr r \<noteq> a" using d by auto
  have len: "length (map addr lts) = length lks" "length (map addr rts) = length rks" using shape by auto
  obtain nd' where nd': "bptree_insert_into_internal t a (length lts) k (addr r) =
      Some (put_node (put_node t (addr r) (rn\<lparr>parent := Some a\<rparr>)) a nd')"
    "inner_node nd' p (map addr lts @ addr l # addr r # map addr rts) (lks @ k # rks)"
    using bptree_insert_into_internal_ok [OF nd len room rn ra, of k] by auto
  define t' where "t' = put_node (put_node t (addr r) (rn\<lparr>parent := Some a\<rparr>)) a nd'"
  have h': "nodes t' = (nodes t)(addr r \<mapsto> rn\<lparr>parent := Some a\<rparr>, a \<mapsto> nd')"
    by (simp add: t'_def put_node_def)
  have same: "nodes t' b = nodes t b" if "b \<noteq> addr r" "b \<noteq> a" for b using that h' by simp
  have "rep (nodes t') (Some a) c" if "c \<in> set (lts @ l # rts)" for c
  proof -
    have "b \<noteq> addr r \<and> b \<noteq> a" if "b \<in> set (addrs c)" for b
      using d that \<open>c \<in> set (lts @ l # rts)\<close> addr_in_addrs [of r] by (auto simp del: addr_in_addrs)
    then have "rep (nodes t') (Some a) c = rep (nodes t) (Some a) c" by (intro rep_cong) (simp add: same)
    then show ?thesis using sub that by auto
  qed
  moreover have "rep (nodes t') (Some a) r"
  proof (rule rep_reparent [OF r])
    show "distinct (addrs r)" using d by simp
    show "nodes t' (addr r) = map_option (parent_update (\<lambda>_. Some a)) (nodes t (addr r))"
      using h' rn ra by simp
    show "nodes t' b = nodes t b" if "b \<in> set (addrs r)" "b \<noteq> addr r" for b
      using that d by (intro same) auto
  qed
  ultimately have "rep (nodes t') p (ANode a (lts @ l # r # rts) (lks @ k # rks))"
    using nd'(2) h' by auto
  moreover have "rep_ctx (nodes t') p C a"
  proof -
    have "b \<noteq> addr r \<and> b \<noteq> a" if "b \<in> set (caddrs C)" for b
      using d that addr_in_addrs [of r] by (auto simp del: addr_in_addrs)
    then have "rep_ctx (nodes t') p C a = rep_ctx (nodes t) p C a" by (intro rep_ctx_cong) (simp add: same)
    then show ?thesis using C by simp
  qed
  ultimately have "rep (nodes t') None (plug C (ANode a (lts @ l # r # rts) (lks @ k # rks)))"
    unfolding rep_plug by auto
  moreover have "leaves_kept (brk t) (nodes t) (nodes t')"
  proof (rule leaves_keptI)
    fix b
    show "nodes t' b = nodes t b \<or> (\<exists>q. nodes t' b = map_option (parent_update (\<lambda>_. q)) (nodes t b)) \<or>
        (\<exists>nd. nodes t b = Some nd \<and> \<not> is_leaf nd)"
      using h' rn nd by (auto simp: inner_node_def)
  qed
  moreover have "bptree_insert_into_parent t (addr l) k (addr r) e = Some (True, t', e)"
    using ln nd pos nd'(1) room
    by (subst bptree_insert_into_parent.simps) (simp add: BPTREE_MAX_KEYS_def BPTREE_ORDER_def t'_def)
  moreover have "root t' = Some (addr (plug C (ANode a (lts @ l # r # rts) (lks @ k # rks))))"
    using root addr_plug_cong [of "ANode a (lts @ l # rts) (lks @ rks)" "ANode a (lts @ l # r # rts) (lks @ k # rks)" C]
    by (simp add: t'_def put_node_def)
  moreover have "brk t' = brk t" by (simp add: t'_def put_node_def)
  ultimately show ?thesis using room by (simp add: climbs_def)
qed

text \<open>The step through a full node: two represented halves below the remaining context.\<close>

lemma climb_split:
  assumes ctx: "rep_ctx (nodes t) q (Frame a lts lks rks rts # C) (addr l)" "rep (nodes t) q l"
    and r: "rep (nodes t) q' r" and shape: "cshape (Frame a lts lks rks rts # C)"
    and d: "distinct (caddrs (Frame a lts lks rks rts # C) @ addrs l @ addrs r)"
    and lt: "\<forall>b \<in> set (caddrs (Frame a lts lks rks rts # C) @ addrs l @ addrs r). b < brk t"
    and full: "\<not> length lks + length rks < 3" and e: "env_next e = (True, e')"
    and ts: "ts = lts @ l # r # rts" and ks: "ks = lks @ k # rks"
  shows "\<exists>t' p. bptree_insert_into_parent t (addr l) k (addr r) e =
      bptree_insert_into_parent t' a (ks ! 2) (brk t) e' \<and>
    rep_ctx (nodes t') p C a \<and> rep (nodes t') p (ANode a (take 3 ts) (take 2 ks)) \<and>
    rep (nodes t') p (ANode (brk t) (drop 3 ts) (drop 3 ks)) \<and>
    brk t' = Suc (brk t) \<and> root t' = root t \<and> leaves_kept (brk t) (nodes t) (nodes t')"
proof -
  let ?n = "brk t"
  obtain ln nd p where ln: "nodes t (addr l) = Some ln" "parent ln = Some a" and nd: "nodes t a = Some nd"
    "inner_node nd p (map addr lts @ addr l # map addr rts) (lks @ rks)" and C: "rep_ctx (nodes t) p C a"
    and sub: "\<forall>c \<in> set lts \<union> set rts. rep (nodes t) (Some a) c" "rep (nodes t) (Some a) l"
    and pos: "child_pos_loop (children nd) (num_keys nd) (addr l) 0 = Some (length lts)"
    "num_keys nd = length lks + length rks"
    using climb_frame [OF ctx shape d] by metis
  have len: "length (lks @ rks) = 3" "length (map addr lts @ addr l # map addr rts) = 4" "length lts \<le> 3"
    "length lts = length lks"
    using shape full by auto
  have dts: "distinct (concat (map addrs ts))" using d ts by auto
  have alla: "b \<noteq> a" "b < ?n" if "b \<in> set (concat (map addrs ts))" for b
    using that d lt ts by auto
  have bs: "map addr ts = take (Suc (length lts)) (map addr lts @ addr l # map addr rts) @ addr r #
      drop (Suc (length lts)) (map addr lts @ addr l # map addr rts)"
    using ts by simp
  have ls: "ks = take (length lts) (lks @ rks) @ k # drop (length lts) (lks @ rks)" using ks len by simp
  have in_ts: "addr c \<in> set (concat (map addrs ts))" if "c \<in> set ts" for c
    using that by (auto intro: addr_in_addrs)
  have inj: "distinct (map addr ts)" using dts by (rule distinct_roots)
  have dist: "distinct (a # ?n # map addr ts)"
  proof -
    have "addr c \<noteq> a \<and> addr c < ?n" if "c \<in> set ts" for c using in_ts [OF that] alla by blast
    moreover have "a < ?n" using lt by simp
    ultimately show ?thesis using inj by fastforce
  qed
  have ex: "\<forall>c \<in> set ts. \<exists>q. rep (nodes t) q c" using sub r ts by auto
  then have alloc: "\<forall>b \<in> set (map addr ts). nodes t b \<noteq> None" using rep_allocated addr_in_addrs by fastforce
  obtain t' nd' rn where t': "bptree_split_internal t a (length lts) k (addr r) e = Some (Some (ks ! 2, ?n), t', e')"
    "brk t' = Suc ?n" "root t' = root t" "nodes t' a = Some nd'"
    "inner_node nd' p (take 3 (map addr ts)) (take 2 ks)" "nodes t' ?n = Some rn"
    "inner_node rn p (drop 3 (map addr ts)) (drop 3 ks)"
    "\<forall>b \<in> set (take 3 (map addr ts)). nodes t' b = map_option (parent_update (\<lambda>_. Some a)) (nodes t b)"
    "\<forall>b \<in> set (drop 3 (map addr ts)). nodes t' b = map_option (parent_update (\<lambda>_. Some ?n)) (nodes t b)"
    "\<forall>b. b \<notin> insert a (insert ?n (set (map addr ts))) \<longrightarrow> nodes t' b = nodes t b"
    using bptree_split_internal_ok [OF nd len(1,2,3) ls bs dist alloc e] by blast
  have inner: "\<forall>c \<in> set ts. \<forall>b \<in> set (addrs c). b \<notin> addr ` set ts \<longrightarrow> nodes t' b = nodes t b"
  proof (intro ballI impI)
    fix c b assume "c \<in> set ts" "b \<in> set (addrs c)" and b: "b \<notin> addr ` set ts"
    then have "b \<in> set (concat (map addrs ts))" by auto
    then show "nodes t' b = nodes t b" using t'(10) alla [of b] b by auto
  qed
  have "\<forall>c \<in> set (take 3 ts). rep (nodes t') (Some a) c"
    using inner t'(8) by (intro rep_children_reparent [OF ex dts set_take_subset]) (auto simp: take_map dest: in_set_takeD)
  then have L: "rep (nodes t') p (ANode a (take 3 ts) (take 2 ks))" using t' by (simp add: take_map)
  have "\<forall>c \<in> set (drop 3 ts). rep (nodes t') (Some ?n) c"
    using inner t'(9) by (intro rep_children_reparent [OF ex dts set_drop_subset]) (auto simp: drop_map dest: in_set_dropD)
  then have R: "rep (nodes t') p (ANode ?n (drop 3 ts) (drop 3 ks))" using t' by (simp add: drop_map)
  have "nodes t' b = nodes t b" if "b \<in> set (caddrs C)" for b
  proof -
    have "b \<notin> set (concat (map addrs ts))" "b \<noteq> a" "b < ?n" using that d lt ts by auto
    moreover from this in_ts have "b \<notin> addr ` set ts" by (metis imageE)
    ultimately show ?thesis using t'(10) by auto
  qed
  then have "rep_ctx (nodes t') p C a" using C rep_ctx_cong [of C "nodes t'" "nodes t" p a] by simp
  moreover have "leaves_kept ?n (nodes t) (nodes t')"
  proof (rule leaves_keptI)
    fix b assume "b < ?n"
    have "set (map addr ts) = set (take 3 (map addr ts)) \<union> set (drop 3 (map addr ts))"
      by (metis append_take_drop_id set_append)
    then consider "b = a" | "b \<in> set (take 3 (map addr ts))" | "b \<in> set (drop 3 (map addr ts))"
      | "b \<notin> insert a (insert ?n (set (map addr ts)))"
      using \<open>b < ?n\<close> by auto
    then show "nodes t' b = nodes t b \<or> (\<exists>q. nodes t' b = map_option (parent_update (\<lambda>_. q)) (nodes t b)) \<or>
        (\<exists>nd. nodes t b = Some nd \<and> \<not> is_leaf nd)"
    proof cases
      case 1
      then show ?thesis using nd by (simp add: inner_node_def)
    next
      case 2
      then show ?thesis using t'(8) by blast
    next
      case 3
      then show ?thesis using t'(9) by blast
    next
      case 4
      then show ?thesis using t'(10) by blast
    qed
  qed
  moreover have "bptree_insert_into_parent t (addr l) k (addr r) e = bptree_insert_into_parent t' a (ks ! 2) ?n e'"
    using ln nd pos t'(1) full
    by (subst bptree_insert_into_parent.simps) (simp add: BPTREE_MAX_KEYS_def BPTREE_ORDER_def)
  ultimately show ?thesis using t' L R by blast
qed

theorem bptree_insert_into_parent_ok:
  assumes "rep_ctx (nodes t) q C (addr l)" and "rep (nodes t) q l" and "rep (nodes t) q' r"
    and "cshape C" and "distinct (caddrs C @ addrs l @ addrs r)"
    and "\<forall>b \<in> set (caddrs C @ addrs l @ addrs r). b < brk t"
    and "root t = Some (addr (plug C l))" and "all_succeed e"
  shows "\<exists>t' e'. bptree_insert_into_parent t (addr l) k (addr r) e = Some (True, t', e') \<and>
    all_succeed e' \<and> climbs t (grow C l k r (brk t)) t'"
  using assms
proof (induction C arbitrary: t q q' l k r e)
  case Nil
  then show ?case
    using climb_new_root [of t l q' r e "tl e" k] by (auto simp: env_simps)
next
  case (Cons f C)
  obtain a lts lks rks rts where f: "f = Frame a lts lks rks rts" by (cases f)
  note prems = Cons.prems [unfolded f]
  show ?case
  proof (cases "length lks + length rks < 3")
    case True
    then show ?thesis using climb_insert [OF prems(1-5,7) True, of k e] prems(8) f by auto
  next
    case False
    define ts ks where "ts = lts @ l # r # rts" and "ks = lks @ k # rks"
    have e: "env_next e = (True, tl e)" "all_succeed (tl e)" using prems(8) by (simp_all add: env_simps)
    obtain t1 p where t1: "bptree_insert_into_parent t (addr l) k (addr r) e =
        bptree_insert_into_parent t1 a (ks ! 2) (brk t) (tl e)"
      "rep_ctx (nodes t1) p C a" "rep (nodes t1) p (ANode a (take 3 ts) (take 2 ks))"
      "rep (nodes t1) p (ANode (brk t) (drop 3 ts) (drop 3 ks))"
      "brk t1 = Suc (brk t)" "root t1 = root t" "leaves_kept (brk t) (nodes t) (nodes t1)"
      using climb_split [OF prems(1-6) False e(1) ts_def ks_def] by blast
    let ?L = "ANode a (take 3 ts) (take 2 ks)" and ?R = "ANode (brk t) (drop 3 ts) (drop 3 ks)"
    have ms: "mset (caddrs C @ addrs ?L @ addrs ?R) = mset (brk t # caddrs (f # C) @ addrs l @ addrs r)"
    proof -
      have "mset (concat (map addrs (take 3 ts))) + mset (concat (map addrs (drop 3 ts))) =
          mset (concat (map addrs lts)) + mset (addrs l) + mset (addrs r) + mset (concat (map addrs rts))"
        using arg_cong [of _ _ mset, OF concat_map_take_drop [of addrs 3 ts]] by (simp add: ts_def ac_simps)
      then show ?thesis by (simp add: f ac_simps)
    qed
    have "distinct (brk t # caddrs (f # C) @ addrs l @ addrs r)" using prems(5,6) f by auto
    then have d: "distinct (caddrs C @ addrs ?L @ addrs ?R)" using mset_eq_imp_distinct_iff [OF ms] by simp
    have lt: "\<forall>b \<in> set (caddrs C @ addrs ?L @ addrs ?R). b < brk t1"
      using prems(6) f t1(5) mset_eq_setD [OF ms] by (auto simp only: less_Suc_eq list.set(2) insert_iff)
    have root: "root t1 = Some (addr (plug C ?L))"
      using t1(6) prems(7) addr_plug_cong [of ?L "ANode a (lts @ l # rts) (lks @ rks)" C] by simp
    obtain t' e' where t': "bptree_insert_into_parent t1 (addr ?L) (ks ! 2) (addr ?R) (tl e) = Some (True, t', e')"
      "all_succeed e'" "climbs t1 (grow C ?L (ks ! 2) ?R (brk t1)) t'"
      using Cons.IH [of t1 p ?L p ?R "tl e" "ks ! 2"] t1(2-4) prems(4) d lt root e(2) by auto
    have "grow (f # C) l k r (brk t) = grow C ?L (ks ! 2) ?R (brk t1)"
      using False f t1(5) by (simp add: ts_def ks_def)
    moreover have "leaves_kept (brk t) (nodes t) (nodes t')"
      using leaves_kept_trans [OF t1(7), of "brk t1" "nodes t'"] t'(3) t1(5) by (simp add: climbs_def)
    ultimately show ?thesis using t' t1(1) by (simp add: climbs_def)
  qed
qed

end
