(* ===== verification/BPTree_Correct.thy ===== *)
theory BPTree_Correct
  imports BPTree_Climb
begin

text \<open>
  The public operations of \<^verbatim>\<open>bptree.c\<close> against the specification of an ordered map: search is
  lookup in the sorted list of entries, insert adds an entry at its place or reports a
  duplicate, and destroy frees every node. The operations return and do nothing undefined on
  every tree built by the module itself.
\<close>

section \<open>Entries and the flat view\<close>

lemma odd_key_mark [simp]: "odd (key_mark k)" and even_sep_mark [simp]: "even (sep_mark k)"
  by (simp_all add: key_mark_def sep_mark_def)

lemma key_mark_less [simp]: "key_mark j < key_mark k \<longleftrightarrow> j < k"
  by (auto simp: key_mark_def)

lemma key_mark_less_sep_mark: "key_mark j < sep_mark k \<longleftrightarrow> j < k"
  and sep_mark_less_key_mark: "sep_mark j < key_mark k \<longleftrightarrow> j \<le> k"
  by (auto simp: key_mark_def sep_mark_def)

lemma filter_odd_weave:
  "filter odd (weave xss (map sep_mark ks)) = concat (map (filter odd) xss)"
  by (induction xss "map sep_mark ks" arbitrary: ks rule: weave.induct)
     (auto simp: filter_concat split: list.splits)

lemma filter_odd_flat: "filter odd (flat T) = map (\<lambda>kv. key_mark (fst kv)) (entries T)"
proof (induction T)
  case (ANode a ts ks)
  then show ?case by (simp add: filter_odd_weave map_concat comp_def cong: map_cong)
qed simp

lemma filter_odd_lflat: "cshape C \<Longrightarrow> filter odd (lflat C) = map (\<lambda>kv. key_mark (fst kv)) (lview entries C)"
proof (induction C rule: lflat.induct)
  case (2 a lts lks rks rts C)
  have "filter odd (concat (map2 (\<lambda>t k. flat t @ [sep_mark k]) xs ks)) =
      map (\<lambda>kv. key_mark (fst kv)) (concat (map entries xs))"
    if "length xs = length ks" for xs :: "'a atree list" and ks
    using that by (induction xs ks rule: list_induct2) (simp_all add: filter_odd_flat)
  with 2 show ?case by simp
qed simp

lemma filter_odd_rflat: "cshape C \<Longrightarrow> filter odd (rflat C) = map (\<lambda>kv. key_mark (fst kv)) (rview entries C)"
proof (induction C rule: rflat.induct)
  case (2 a lts lks rks rts C)
  have "filter odd (concat (map2 (\<lambda>k t. sep_mark k # flat t) ks xs)) =
      map (\<lambda>kv. key_mark (fst kv)) (concat (map entries xs))"
    if "length xs = length ks" for xs :: "'a atree list" and ks
    using that by (induction xs ks rule: list_induct2) (simp_all add: filter_odd_flat)
  with 2 show ?case by simp
qed simp

lemma lents_less:
  assumes "cshape C" and "\<forall>x \<in> set (lflat C). x < key_mark key" and "kv \<in> set (lview entries C)"
  shows "fst kv < key"
proof -
  have "key_mark (fst kv) \<in> set (filter odd (lflat C))"
    unfolding filter_odd_lflat [OF assms(1)] using assms(3) by auto
  then show ?thesis using assms(2) by auto
qed

lemma rents_greater:
  assumes "cshape C" and "\<forall>x \<in> set (rflat C). key_mark key < x" and "kv \<in> set (rview entries C)"
  shows "key < fst kv"
proof -
  have "key_mark (fst kv) \<in> set (filter odd (rflat C))"
    unfolding filter_odd_rflat [OF assms(1)] using assms(3) by auto
  then show ?thesis using assms(2) by auto
qed

lemma entries_increasing:
  assumes "increasing (flat T)"
  shows "increasing (map fst (entries T))"
proof -
  have "increasing (map (\<lambda>kv. key_mark (fst kv)) (entries T))"
    using assms sorted_wrt_filter [of "(<)" "flat T" odd] by (simp add: filter_odd_flat)
  then show ?thesis by (simp add: sorted_wrt_map)
qed

section \<open>The descent to a leaf\<close>

lemma left_of_hole:
  "length lts = length lks \<Longrightarrow> increasing (concat (map2 (\<lambda>t k. flat t @ [sep_mark k]) lts lks)) \<Longrightarrow>
   \<forall>k \<in> set lks. k \<le> key \<Longrightarrow>
   \<forall>x \<in> set (concat (map2 (\<lambda>t k. flat t @ [sep_mark k]) lts lks)). x < key_mark key"
proof (induction lts lks rule: list_induct2)
  case (Cons t lts k lks)
  have "sep_mark k < key_mark key" using Cons.prems(2) by (simp add: sep_mark_def key_mark_def)
  moreover have "\<forall>x \<in> set (flat t). x < sep_mark k" using Cons.prems(1) by (simp add: sorted_wrt_append)
  ultimately show ?case using Cons by (auto simp: sorted_wrt_append)
qed simp

lemma right_of_hole:
  assumes "length rts = length rks" and "increasing (concat (map2 (\<lambda>k t. sep_mark k # flat t) rks rts))"
    and "rks = [] \<or> key < hd rks"
  shows "\<forall>x \<in> set (concat (map2 (\<lambda>k t. sep_mark k # flat t) rks rts)). key_mark key < x"
proof (cases rks)
  case (Cons k ks)
  then obtain t ts where "rts = t # ts" using assms(1) by (cases rts) auto
  moreover have "key_mark key < sep_mark k" using assms(3) Cons by (simp add: sep_mark_def key_mark_def)
  moreover define xs where "xs = flat t @ concat (map2 (\<lambda>k t. sep_mark k # flat t) ks ts)"
  ultimately have "increasing (sep_mark k # xs)"
    and eq: "concat (map2 (\<lambda>k t. sep_mark k # flat t) rks rts) = sep_mark k # xs"
    using assms(2) Cons by simp_all
  then have "\<forall>x \<in> set xs. sep_mark k < x" by simp
  then show ?thesis unfolding eq using \<open>key_mark key < sep_mark k\<close> by (auto intro: less_trans)
qed simp

lemma find_leaf_descent:
  assumes "rep (nodes t) q T" and "shape T" and "increasing (flat T)"
  shows "\<exists>C a kvs. T = plug C (ALeaf a kvs) \<and> cshape C \<and> find_leaf_loop t key (addr T) = Some a \<and>
    (\<forall>x \<in> set (lflat C). x < key_mark key) \<and> (\<forall>x \<in> set (rflat C). key_mark key < x)"
  using assms
proof (induction T arbitrary: q)
  case (ALeaf a kvs)
  then have "find_leaf_loop t key a = Some a"
    by (subst find_leaf_loop.simps) (auto simp: leaf_node_def)
  then show ?case by (intro exI [of _ "[]"]) simp
next
  case (ANode a ts ks)
  define i where "i = length (takeWhile (\<lambda>k. k \<le> key) ks)"
  have i: "i \<le> length ks" "i < length ts" using ANode.prems(2) by (auto simp: i_def length_takeWhile_le le_imp_less_Suc)
  let ?F = "Frame a (take i ts) (take i ks) (drop i ks) (drop (Suc i) ts)"
  have sh: "cshape [?F]" "shape (ts ! i)" using ANode.prems(2) i by (auto dest: in_set_takeD in_set_dropD)
  have T: "ANode a ts ks = plug [?F] (ts ! i)" using i by (simp add: id_take_nth_drop [symmetric])
  then have inc: "increasing (lflat [?F] @ flat (ts ! i) @ rflat [?F])"
    using ANode.prems(3) flat_plug [OF sh(1)] by metis
  have "\<forall>k \<in> set (take i ks). k \<le> key"
    unfolding i_def by (metis set_takeWhileD takeWhile_eq_take)
  then have l: "\<forall>x \<in> set (lflat [?F]). x < key_mark key"
    using left_of_hole [of "take i ts" "take i ks" key] inc sh i by (auto simp: sorted_wrt_append)
  have "drop i ks = dropWhile (\<lambda>k. k \<le> key) ks" by (simp add: i_def dropWhile_eq_drop)
  then have "drop i ks = [] \<or> key < hd (drop i ks)"
    using hd_dropWhile [of "\<lambda>k. k \<le> key" ks] by (metis not_le)
  then have r: "\<forall>x \<in> set (rflat [?F]). key_mark key < x"
    using right_of_hole [of "drop (Suc i) ts" "drop i ks" key] inc sh i by (auto simp: sorted_wrt_append)
  obtain nd where nd: "nodes t a = Some nd" "inner_node nd q (map addr ts) ks" using ANode.prems(1) by auto
  have "take (Suc (length ks)) (children nd) ! i = map Some (map addr ts) ! i" and "i < length (children nd)"
    using nd(2) i by (simp_all add: inner_node_def)
  then have "children nd ! i = Some (addr (ts ! i))" "i < length (children nd)" using i by simp_all
  then have step: "find_leaf_loop t key a = find_leaf_loop t key (addr (ts ! i))"
    using nd by (subst find_leaf_loop.simps) (simp add: inner_node_def child_index_loop_eq array_simps i_def)
  obtain C b kvs where C: "ts ! i = plug C (ALeaf b kvs)" "cshape C"
    "find_leaf_loop t key (addr (ts ! i)) = Some b" "\<forall>x \<in> set (lflat C). x < key_mark key"
    "\<forall>x \<in> set (rflat C). key_mark key < x"
    using ANode.IH [of "ts ! i" "Some a"] ANode.prems(1) sh(2) inc i by (auto simp: sorted_wrt_append)
  show ?case
  proof (intro exI conjI)
    show "ANode a ts ks = plug (C @ [?F]) (ALeaf b kvs)" using T C(1) by (simp add: plug_append)
  qed (use C sh(1) l r step in auto)
qed

section \<open>Search\<close>

text \<open>What a leaf reached by the descent decides about the whole tree.\<close>

lemma key_only_in_leaf:
  assumes "cshape C" and "\<forall>x \<in> set (lflat C). x < key_mark key" and "\<forall>x \<in> set (rflat C). key_mark key < x"
  shows "key \<in> fst ` set (entries (plug C (ALeaf a kvs))) \<longleftrightarrow> key \<in> fst ` set kvs"
    and "map_of (entries (plug C (ALeaf a kvs))) key = map_of kvs key"
proof -
  have l: "key \<notin> fst ` set (lview entries C)" using lents_less [OF assms(1,2)] by fastforce
  have r: "key \<notin> fst ` set (rview entries C)" using rents_greater [OF assms(1,3)] by fastforce
  show "key \<in> fst ` set (entries (plug C (ALeaf a kvs))) \<longleftrightarrow> key \<in> fst ` set kvs"
    using l r by (auto simp: entries_plug)
  have "map_of (lview entries C) key = None" "map_of (rview entries C) key = None"
    using l r by (simp_all only: map_of_eq_None_iff not_False_eq_True)
  then show "map_of (entries (plug C (ALeaf a kvs))) key = map_of kvs key"
    by (simp add: entries_plug map_add_def split: option.splits)
qed

lemma leaf_scan_leaf_node:
  assumes "leaf_node nd q kvs" and "distinct (map fst kvs)"
  shows "(key \<notin> fst ` set kvs \<and> leaf_scan_loop (keys nd) (num_keys nd) key 0 = Some None) \<or>
    (\<exists>j v. leaf_scan_loop (keys nd) (num_keys nd) key 0 = Some (Some j) \<and>
       j < length kvs \<and> kvs ! j = (key, v) \<and> map_of kvs key = Some v \<and> rd (vals nd) j = Some v)"
proof -
  let ?n = "length kvs"
  have nd: "num_keys nd = ?n" "length (keys nd) = 3" "length (vals nd) = 3" "?n \<le> 3"
    "take ?n (keys nd) = map fst kvs" "take ?n (vals nd) = map snd kvs"
    using assms(1) by (simp_all add: leaf_node_def)
  have ks: "keys nd ! j = fst (kvs ! j)" "vals nd ! j = snd (kvs ! j)" if "j < ?n" for j
    using that nd(5,6) by (metis nth_map nth_take)+
  from leaf_scan_loop_cases [of "num_keys nd" "keys nd" key 0] nd
  consider "leaf_scan_loop (keys nd) (num_keys nd) key 0 = Some None" "\<forall>j < ?n. keys nd ! j \<noteq> key"
    | j where "leaf_scan_loop (keys nd) (num_keys nd) key 0 = Some (Some j)" "j < ?n" "keys nd ! j = key"
    by auto
  then show ?thesis
  proof cases
    case 1
    have "fst kv \<noteq> key" if "kv \<in> set kvs" for kv
      using that 1(2) ks(1) by (metis in_set_conv_nth)
    then have "key \<notin> fst ` set kvs" by blast
    with 1 show ?thesis by simp
  next
    case 2
    then have "kvs ! j = (key, vals nd ! j)" using ks by (metis prod.collapse)
    moreover from this 2(2) assms(2) have "map_of kvs key = Some (vals nd ! j)"
      by (metis map_of_eq_Some_iff nth_mem)
    ultimately show ?thesis using 2 nd by (auto simp: array_simps)
  qed
qed

lemma increasing_distinct: "increasing xs \<Longrightarrow> distinct xs"
  by (induction xs) auto

text \<open>The position of a represented tree in which the descent ends.\<close>

lemma represents_find_leaf:
  assumes "represents t T" and "search_tree T"
  obtains C a kvs nd q where "T = plug C (ALeaf a kvs)" "cshape C"
    "bptree_find_leaf (Some t) key = Some (Some a)"
    "\<forall>x \<in> set (lflat C). x < key_mark key" "\<forall>x \<in> set (rflat C). key_mark key < x"
    "nodes t a = Some nd" "leaf_node nd q kvs" "rep_ctx (nodes t) q C a" "increasing (map fst kvs)"
proof -
  have T: "root t = Some (addr T)" "rep (nodes t) None T" "shape T" "increasing (flat T)"
    using assms by (simp_all add: represents_def search_tree_def)
  obtain C a kvs where C: "T = plug C (ALeaf a kvs)" "cshape C" "find_leaf_loop t key (addr T) = Some a"
    "\<forall>x \<in> set (lflat C). x < key_mark key" "\<forall>x \<in> set (rflat C). key_mark key < x"
    using find_leaf_descent [OF T(2,3,4)] by blast
  obtain q nd where "nodes t a = Some nd" "leaf_node nd q kvs" "rep_ctx (nodes t) q C a"
    using T(2) rep_plug [of "nodes t" C "ALeaf a kvs"] C(1) by auto
  moreover have "increasing (map fst kvs)"
    using entries_increasing [OF T(4)] C(1) by (simp add: entries_plug sorted_wrt_append)
  moreover have "bptree_find_leaf (Some t) key = Some (Some a)" using T(1) C(3) by (simp add: bptree_find_leaf_def)
  ultimately show thesis using that C by blast
qed

theorem bptree_search_correct:
  assumes "bptree_entries t es"
  shows "bptree_search (Some t) key = Some (case map_of es key of None \<Rightarrow> None | Some v \<Rightarrow> v)"
proof (cases "root t")
  case None
  then show ?thesis using assms by (simp add: bptree_entries_def bptree_search_def bptree_find_leaf_def)
next
  case (Some r)
  then obtain T where T: "represents t T" "search_tree T" "es = entries T"
    using assms by (auto simp: bptree_entries_def)
  obtain C a kvs nd q where C: "T = plug C (ALeaf a kvs)" "cshape C"
    "bptree_find_leaf (Some t) key = Some (Some a)"
    "\<forall>x \<in> set (lflat C). x < key_mark key" "\<forall>x \<in> set (rflat C). key_mark key < x"
    "nodes t a = Some nd" "leaf_node nd q kvs" "increasing (map fst kvs)"
    using represents_find_leaf [OF T(1,2)] by metis
  have m: "map_of es key = map_of kvs key" using key_only_in_leaf [OF C(2,4,5)] T(3) C(1) by simp
  from leaf_scan_leaf_node [OF C(7) increasing_distinct [OF C(8)], of key] show ?thesis
    using C(3,6) m by (auto simp: bptree_search_def map_of_eq_None_iff [THEN iffD2])
qed

section \<open>Placing a new entry\<close>

lemma ins_entry_middle:
  assumes "\<forall>kv \<in> set l. fst kv < key" and "\<forall>kv \<in> set r. key < fst kv"
  shows "ins_entry key v (l @ kvs @ r) = l @ ins_entry key v kvs @ r"
proof -
  let ?P = "\<lambda>kv. fst kv < key"
  have r: "takeWhile ?P r = []" using assms(2) by (cases r) auto
  have "takeWhile ?P (l @ kvs @ r) = l @ takeWhile ?P kvs"
    using assms(1) r by (cases "\<forall>kv \<in> set kvs. ?P kv") (auto simp: takeWhile_append takeWhile_eq_all_conv [THEN iffD2])
  then have "ins_pos key (l @ kvs @ r) = length l + ins_pos key kvs" by (simp add: ins_pos_def)
  then show ?thesis using ins_pos_le [of key kvs] by (simp add: ins_entry_def)
qed

lemma set_ins_entry: "set (ins_entry key v kvs) = insert (key, v) (set kvs)"
proof -
  have "set kvs = set (take (ins_pos key kvs) kvs) \<union> set (drop (ins_pos key kvs) kvs)"
    by (metis append_take_drop_id set_append)
  then show ?thesis by (auto simp: ins_entry_def)
qed

lemma increasing_ins_entry:
  assumes "increasing (map fst kvs)" and "key \<notin> fst ` set kvs"
  shows "increasing (map fst (ins_entry key v kvs))"
proof -
  let ?P = "\<lambda>k. k < key" and ?ks = "map fst kvs"
  have i: "ins_pos key kvs = length (takeWhile ?P ?ks)" by (simp add: ins_pos_keys)
  have "take (ins_pos key kvs) ?ks = takeWhile ?P ?ks" "drop (ins_pos key kvs) ?ks = dropWhile ?P ?ks"
    by (simp_all add: i takeWhile_eq_take [symmetric] dropWhile_eq_drop [symmetric])
  then have eq: "map fst (ins_entry key v kvs) = takeWhile ?P ?ks @ key # dropWhile ?P ?ks"
    by (simp add: map_fst_ins_entry)
  have ks: "increasing (takeWhile ?P ?ks @ dropWhile ?P ?ks)" using assms(1) by simp
  have gt: "\<forall>k \<in> set (dropWhile ?P ?ks). key < k"
  proof (cases "dropWhile ?P ?ks")
    case (Cons k rest)
    then have "\<not> k < key" using hd_dropWhile [of ?P ?ks] by simp
    moreover have "k \<in> fst ` set kvs" using Cons by (metis list.set_intros(1) list.set_map set_dropWhileD)
    ultimately have "key < k" using assms(2) by (metis linorder_neqE_linordered_idom)
    moreover have "increasing (k # rest)" using ks Cons by (metis sorted_wrt_append)
    ultimately show ?thesis using Cons by auto
  next
    case Nil
    then show ?thesis by (simp only: list.set ball_empty)
  qed
  have lt: "\<forall>k \<in> set (takeWhile ?P ?ks). k < key" by (auto dest: set_takeWhileD)
  from ks gt lt show ?thesis unfolding eq by (fastforce simp: sorted_wrt_append)
qed

abbreviation marks :: "(int \<times> 'v) list \<Rightarrow> int list" where
  "marks kvs \<equiv> map (\<lambda>kv. key_mark (fst kv)) kvs"

lemma marks_increasing [simp]: "increasing (marks kvs) \<longleftrightarrow> increasing (map fst kvs)"
  by (simp add: sorted_wrt_map)

lemma flat_ins_entry:
  assumes "increasing (l @ marks kvs @ r)" and "key \<notin> fst ` set kvs"
    and "\<forall>x \<in> set l. x < key_mark key" and "\<forall>x \<in> set r. key_mark key < x"
  shows "increasing (l @ marks (ins_entry key v kvs) @ r)"
proof -
  have "increasing (map fst (ins_entry key v kvs))"
    using assms(1,2) by (simp add: increasing_ins_entry sorted_wrt_append)
  then show ?thesis using assms by (auto simp: sorted_wrt_append set_ins_entry)
qed

lemma increasing_between:
  "increasing (xs @ p # x # ys) \<Longrightarrow> p < s \<Longrightarrow> s < x \<Longrightarrow> increasing (xs @ p # s # x # ys)"
  by (auto simp: sorted_wrt_append intro: less_trans)

text \<open>The separator of a split is the first key of the right half.\<close>

lemma flat_split_leaf:
  assumes "increasing (l @ marks es @ r)" and "0 < i" and "i < length es"
  shows "increasing (l @ (marks (take i es) @ sep_mark (fst (es ! i)) # marks (drop i es)) @ r)"
proof -
  obtain y where y: "y \<in> set (take i es)" "take i es = butlast (take i es) @ [y]"
    using assms(2,3) by (metis append_butlast_last_id last_in_set length_greater_0_conv length_take min_less_iff_conj order.strict_trans)
  have d: "drop i es = es ! i # drop (Suc i) es" using assms(3) by (simp add: Cons_nth_drop_Suc)
  have "increasing ((l @ marks (butlast (take i es)) @ [key_mark (fst y)]) @
      key_mark (fst (es ! i)) # marks (drop (Suc i) es) @ r)"
    using assms(1) y(2) d by (metis append_assoc append_Cons append_Nil append_take_drop_id list.simps(8,9) map_append)
  moreover from this have "key_mark (fst y) < sep_mark (fst (es ! i))" "sep_mark (fst (es ! i)) < key_mark (fst (es ! i))"
    by (simp_all add: sorted_wrt_append key_mark_less_sep_mark sep_mark_less_key_mark)
  ultimately have "increasing ((l @ marks (butlast (take i es)) @ [key_mark (fst y)]) @
      sep_mark (fst (es ! i)) # key_mark (fst (es ! i)) # marks (drop (Suc i) es) @ r)"
    using increasing_between [of "l @ marks (butlast (take i es))" "key_mark (fst y)"
        "key_mark (fst (es ! i))" "marks (drop (Suc i) es) @ r" "sep_mark (fst (es ! i))"] by simp
  moreover have "marks (take i es) = marks (butlast (take i es)) @ [key_mark (fst y)]" using y(2) by (metis list.simps(8,9) map_append)
  ultimately show ?thesis using d by simp
qed

section \<open>Insert\<close>

lemma leaf_chain_insert:
  assumes "leaf_chain h (as @ a # bs)" and "h a = Some nd"
    and "h' a = Some nd'" and "next_leaf nd' = Some n" and "h' n = Some rn" and "next_leaf rn = next_leaf nd"
    and "\<And>b. b \<in> set as \<union> set bs \<Longrightarrow> map_option next_leaf (h' b) = map_option next_leaf (h b)"
  shows "leaf_chain h' (as @ a # n # bs)"
  using assms(1,7)
proof (induction as)
  case Nil
  then have "leaf_chain h' bs" using leaf_chain_next [of h bs h'] by simp
  then show ?case using Nil assms(2-6) by simp
next
  case (Cons b as)
  have "map_option next_leaf (h' b) = map_option next_leaf (h b)" using Cons.prems(2) by simp
  moreover have "leaf_chain h' (as @ a # n # bs)" using Cons by simp
  ultimately show ?case using Cons.prems(1) by (cases as; cases "h' b") auto
qed

lemma search_tree_leaf_insert:
  assumes "search_tree (plug C (ALeaf a kvs))" and "cshape C" and "key \<notin> fst ` set kvs" and "length kvs < 3"
    and "\<forall>x \<in> set (lflat C). x < key_mark key" "\<forall>x \<in> set (rflat C). key_mark key < x"
  shows "search_tree (plug C (ALeaf a (ins_entry key v kvs)))"
  unfolding search_tree_def
proof (intro conjI)
  show "shape (plug C (ALeaf a (ins_entry key v kvs)))" using assms(2,4) by (simp add: shape_plug)
  show "increasing (flat (plug C (ALeaf a (ins_entry key v kvs))))"
    using assms flat_ins_entry [of "lflat C" kvs "rflat C" key v] by (simp add: search_tree_def flat_plug)
  show "root_fill (plug C (ALeaf a (ins_entry key v kvs)))"
    using assms(1) by (cases "C = []") (auto simp: search_tree_def root_fill_plug)
  show "\<exists>n. bal n (plug C (ALeaf a (ins_entry key v kvs)))" using assms(1) by (auto simp: search_tree_def bal_plug)
qed

lemma represents_leaf_insert:
  assumes "represents t (plug C (ALeaf a kvs))" and "nodes t a = Some nd" and "rep_ctx (nodes t) q C a"
    and "leaf_node nd' q kvs'" and "next_leaf nd' = next_leaf nd"
  shows "represents (put_node t a nd') (plug C (ALeaf a kvs'))"
proof -
  let ?t = "put_node t a nd'"
  have d: "distinct (caddrs C @ [a])" using assms(1) by (simp add: represents_def distinct_addrs_plug)
  then have "nodes ?t b = nodes t b" if "b \<in> set (caddrs C)" for b
    using that by (auto simp: put_node_def)
  then have "rep_ctx (nodes ?t) q C a"
    using assms(3) rep_ctx_cong [of C "nodes ?t" "nodes t" q a] by blast
  then have "rep (nodes ?t) None (plug C (ALeaf a kvs'))"
    using assms(4) unfolding rep_plug by (auto simp: put_node_def)
  moreover have "leaf_chain (nodes ?t) (leaf_addrs (plug C (ALeaf a kvs')))"
    using assms(1,2,5) by (auto simp: represents_def leaf_addrs_plug put_node_def intro: leaf_chain_next)
  moreover have "addr (plug C (ALeaf a kvs')) = addr (plug C (ALeaf a kvs))" by (rule addr_plug_cong) simp
  ultimately show ?thesis
    using assms(1) by (simp add: represents_def distinct_addrs_plug set_addrs_plug put_node_def)
qed


lemma increasing_flat_grow_leaf:
  assumes "cshape C" and "increasing (lflat C @ marks kvs @ rflat C)" and "key \<notin> fst ` set kvs"
    and "length kvs = 3"
    and "\<forall>x \<in> set (lflat C). x < key_mark key" "\<forall>x \<in> set (rflat C). key_mark key < x"
  shows "increasing (flat (fst (grow C (ALeaf a (take 2 (ins_entry key v kvs))) (fst (ins_entry key v kvs ! 2))
    (ALeaf b (drop 2 (ins_entry key v kvs))) n)))"
  using flat_split_leaf [OF flat_ins_entry [OF assms(2,3,5,6)], of 2 v] assms(1,4) by (simp add: flat_grow)

lemma search_tree_grow_leaf:
  assumes "search_tree (plug C (ALeaf a kvs))" and "cshape C" and "key \<notin> fst ` set kvs" and "length kvs = 3"
    and "\<forall>x \<in> set (lflat C). x < key_mark key" "\<forall>x \<in> set (rflat C). key_mark key < x"
  shows "search_tree (fst (grow C (ALeaf a (take 2 (ins_entry key v kvs))) (fst (ins_entry key v kvs ! 2))
    (ALeaf b (drop 2 (ins_entry key v kvs))) n))"
    (is "search_tree (fst (grow C ?l ?k ?r n))")
  unfolding search_tree_def
proof (intro conjI)
  have len: "length (ins_entry key v kvs) = 4" using assms(4) by simp
  show "shape (fst (grow C ?l ?k ?r n))" using assms(2) len by (intro shape_grow) simp_all
  show "increasing (flat (fst (grow C ?l ?k ?r n)))"
    using assms by (intro increasing_flat_grow_leaf) (simp_all add: search_tree_def flat_plug)
  have "cfill C" using assms(1) by (cases "C = []") (auto simp: search_tree_def root_fill_plug)
  then show "root_fill (fst (grow C ?l ?k ?r n))" using len by (intro root_fill_grow) simp_all
  obtain m where "cbal 0 m C" using assms(1) by (auto simp: search_tree_def bal_plug)
  then show "\<exists>n'. bal n' (fst (grow C ?l ?k ?r n))" using bal_grow [of 0 m C ?l ?r ?k n] by auto
qed

lemma addrs_grow_leaf:
  assumes "insert a (set (caddrs C)) = {..<n}" and "distinct (caddrs C @ [a])"
  shows "distinct (addrs (fst (grow C (ALeaf a xs) k (ALeaf n ys) (Suc n)))) \<and>
    set (addrs (fst (grow C (ALeaf a xs) k (ALeaf n ys) (Suc n)))) = {..<snd (grow C (ALeaf a xs) k (ALeaf n ys) (Suc n))}"
proof -
  define g where "g = grow C (ALeaf a xs) k (ALeaf n ys) (Suc n)"
  have ad: "mset (addrs (fst g)) = mset (caddrs C @ a # n # [Suc n..<snd g])"
    unfolding g_def by (simp add: mset_addrs_grow)
  have lt: "b < n" if "b \<in> insert a (set (caddrs C))" for b using that unfolding assms(1) by simp
  have "distinct (caddrs C @ a # n # [Suc n..<snd g])" using assms(2) lt by fastforce
  moreover have "Suc n \<le> snd g" unfolding g_def by (rule snd_grow_ge)
  then have "insert n {Suc n..<snd g} = {n..<snd g}" by auto
  then have "set (caddrs C @ a # n # [Suc n..<snd g]) = insert a (set (caddrs C)) \<union> {n..<snd g}" by auto
  then have "set (caddrs C @ a # n # [Suc n..<snd g]) = {..<snd g}"
    unfolding assms(1) using \<open>Suc n \<le> snd g\<close> by (simp add: ivl_disj_un)
  ultimately show ?thesis
    using mset_eq_imp_distinct_iff [OF ad] mset_eq_setD [OF ad] unfolding g_def by simp
qed

text \<open>The chain of leaves after a split, once the climb is done.\<close>

lemma leaf_chain_climb:
  assumes "leaf_chain (nodes t1) as" and "climbs t1 g t2"
    and "\<And>b. b \<in> set as \<Longrightarrow> b < brk t1 \<and> (\<exists>bn. nodes t1 b = Some bn \<and> is_leaf bn)"
  shows "leaf_chain (nodes t2) as"
  using assms(1)
proof (rule leaf_chain_next)
  fix b assume "b \<in> set as"
  with assms(3) obtain bn where "b < brk t1" "nodes t1 b = Some bn" "is_leaf bn" by blast
  then show "map_option next_leaf (nodes t2 b) = map_option next_leaf (nodes t1 b)"
    using leaves_keptD [of "brk t1" "nodes t1" "nodes t2" b bn] assms(2) by (auto simp: climbs_def)
qed

lemma represents_leaf_split:
  assumes t: "represents t (plug C (ALeaf a kvs))" and C: "cshape C" "rep_ctx (nodes t) q C a"
    and nd: "nodes t a = Some nd" "leaf_node nd q kvs" "length kvs = 3" and e: "all_succeed e"
  shows "\<exists>t' e'. bptree_split_leaf_and_insert t a key v e = Some (True, t', e') \<and> all_succeed e' \<and>
    represents t' (fst (grow C (ALeaf a (take 2 (ins_entry key v kvs))) (fst (ins_entry key v kvs ! 2))
      (ALeaf (brk t) (drop 2 (ins_entry key v kvs))) (Suc (brk t))))"
proof -
  let ?es = "ins_entry key v kvs" and ?n = "brk t"
  let ?l = "ALeaf a (take 2 ?es)" and ?r = "ALeaf ?n (drop 2 ?es)" and ?k = "fst (?es ! 2)"
  let ?g = "grow C ?l ?k ?r (Suc ?n)"
  have d: "distinct (caddrs C @ [a])" and all: "insert a (set (caddrs C)) = {..<?n}"
    using t by (simp_all add: represents_def distinct_addrs_plug set_addrs_plug)
  then have dlt: "\<forall>b \<in> set (caddrs C). b < ?n" "a < ?n" by (blast, blast)
  obtain t1 nd' rn where s: "bptree_split_leaf t a key v e = Some (Some (?k, ?n), t1, tl e)"
    and t1: "root t1 = root t" "brk t1 = Suc ?n" and nd': "nodes t1 a = Some nd'" "leaf_node nd' q (take 2 ?es)"
    "next_leaf nd' = Some ?n" and rn: "nodes t1 ?n = Some rn" "leaf_node rn q (drop 2 ?es)" "next_leaf rn = next_leaf nd"
    and same: "\<forall>b. b \<noteq> a \<longrightarrow> b \<noteq> ?n \<longrightarrow> nodes t1 b = nodes t b"
    using bptree_split_leaf_ok [OF nd, of e "tl e" key v] e dlt by (auto simp: env_simps)
  have n: "?n \<notin> set (caddrs C)" "?n \<noteq> a" and lt: "\<forall>b \<in> set (caddrs C). b < Suc ?n" "a < Suc ?n"
    using dlt by (auto intro: less_SucI)
  have ctx: "rep_ctx (nodes t1) q C a"
  proof -
    have "nodes t1 b = nodes t b" if "b \<in> set (caddrs C)" for b
      using that n(1) d same by auto
    then show ?thesis using C(2) rep_ctx_cong [of C "nodes t1" "nodes t" q a] by blast
  qed
  have root: "root t1 = Some (addr (plug C ?l))"
    using t t1(1) addr_plug_cong [of "ALeaf a kvs" ?l C] by (simp add: represents_def)
  obtain t2 e' where ip: "bptree_insert_into_parent t1 a ?k ?n (tl e) = Some (True, t2, e')" "all_succeed e'"
    "climbs t1 ?g t2"
    using bptree_insert_into_parent_ok [of t1 q C ?l q ?r "tl e" ?k] ctx nd' rn C(1) d lt n root t1(2) e
    by (auto simp: env_simps)
  have la: "leaf_addrs (plug C (ALeaf a kvs)) = lview leaf_addrs C @ a # rview leaf_addrs C"
    by (simp add: leaf_addrs_plug)
  have "leaf_chain (nodes t1) (lview leaf_addrs C @ a # ?n # rview leaf_addrs C)"
  proof (rule leaf_chain_insert [where h = "nodes t", OF _ nd(1) nd'(1,3) rn(1,3)])
    show "leaf_chain (nodes t) (lview leaf_addrs C @ a # rview leaf_addrs C)"
      using t la by (simp add: represents_def)
  next
    fix b assume b: "b \<in> set (lview leaf_addrs C) \<union> set (rview leaf_addrs C)"
    have "distinct (lview leaf_addrs C @ a # rview leaf_addrs C)"
      using distinct_leaf_addrs [of "plug C (ALeaf a kvs)"] t la by (simp add: represents_def)
    then have "b \<noteq> a" using b by auto
    moreover have "b < ?n" using t la b leaf_addrs_subset [of "plug C (ALeaf a kvs)"] by (auto simp: represents_def)
    ultimately show "map_option next_leaf (nodes t1 b) = map_option next_leaf (nodes t b)" using same by simp
  qed
  then have chain: "leaf_chain (nodes t2) (leaf_addrs (fst ?g))"
    unfolding leaf_addrs_grow
  proof (intro leaf_chain_climb [OF _ ip(3)], goal_cases)
    case (2 b)
    have "rep (nodes t1) None (plug C ?l)" unfolding rep_plug using ctx nd' by auto
    then have "\<exists>bn. nodes t1 b = Some bn \<and> is_leaf bn"
      using rep_leaf [of "nodes t1" None "plug C ?l" b] 2 rn(1,2) by (auto simp: leaf_addrs_plug leaf_node_def)
    moreover have "b < brk t1"
      using 2 la lt leaf_addrs_subset [of "plug C (ALeaf a kvs)"] t1(2) by (auto simp: set_addrs_plug)
    ultimately show ?case by blast
  qed simp
  have "distinct (addrs (fst ?g))" "set (addrs (fst ?g)) = {..<snd ?g}" using addrs_grow_leaf [OF all d] by blast+
  then have "represents t2 (fst ?g)" using chain ip(3) by (simp add: represents_def climbs_def)
  then show ?thesis using s ip by (simp add: bptree_split_leaf_and_insert_def)
qed

lemma represents_insert_new:
  assumes t: "represents t T" "search_tree T" and key: "key \<notin> fst ` set (entries T)" and e: "all_succeed e"
  shows "\<exists>t' T' e'. bptree_insert (Some t) key v e = Some (True, Some t', e') \<and> all_succeed e' \<and>
    represents t' T' \<and> search_tree T' \<and> entries T' = ins_entry key v (entries T)"
proof -
  obtain C a kvs nd q where T: "T = plug C (ALeaf a kvs)" and C: "cshape C"
    "\<forall>x \<in> set (lflat C). x < key_mark key" "\<forall>x \<in> set (rflat C). key_mark key < x" "rep_ctx (nodes t) q C a"
    and find: "bptree_find_leaf (Some t) key = Some (Some a)"
    and nd: "nodes t a = Some nd" "leaf_node nd q kvs" and inc: "increasing (map fst kvs)"
    using represents_find_leaf [OF t] by metis
  obtain r where r: "root t = Some r" using t(1) by (auto simp: represents_def)
  have k: "key \<notin> fst ` set kvs" using key key_only_in_leaf(1) [OF C(1-3)] T by blast
  then have scan: "leaf_scan_loop (keys nd) (num_keys nd) key 0 = Some None"
    using leaf_scan_leaf_node [OF nd(2) increasing_distinct [OF inc], of key] by (auto dest: nth_mem intro: rev_image_eqI)
  have nk: "num_keys nd = length kvs" "length kvs \<le> 3" using nd(2) by (simp_all add: leaf_node_def)
  have es: "ins_entry key v (entries T) = lview entries C @ ins_entry key v kvs @ rview entries C"
    unfolding T entries_plug entries.simps
    using lents_less [OF C(1,2)] rents_greater [OF C(1,3)] by (intro ins_entry_middle) blast+
  show ?thesis
  proof (cases "length kvs < 3")
    case True
    obtain nd' where nd': "bptree_insert_into_leaf t a key v = Some (put_node t a nd')"
      "leaf_node nd' q (ins_entry key v kvs)" "next_leaf nd' = next_leaf nd"
      using bptree_insert_into_leaf_ok [OF nd True] by blast
    have "bptree_insert (Some t) key v e = Some (True, Some (put_node t a nd'), e)"
      using r find nd(1) scan nk True nd'(1)
      by (simp add: bptree_insert_def BPTREE_MAX_KEYS_def BPTREE_ORDER_def)
    moreover have "represents (put_node t a nd') (plug C (ALeaf a (ins_entry key v kvs)))"
      using represents_leaf_insert [OF t(1) [unfolded T] nd(1) C(4) nd'(2,3)] .
    moreover have "search_tree (plug C (ALeaf a (ins_entry key v kvs)))"
      using search_tree_leaf_insert [OF t(2) [unfolded T] C(1) k True C(2,3)] .
    ultimately show ?thesis using e es by (auto simp: entries_plug)
  next
    case False
    then have len: "length kvs = 3" using nk by simp
    obtain t' e' where s: "bptree_split_leaf_and_insert t a key v e = Some (True, t', e')" "all_succeed e'"
      and rt: "represents t' (fst (grow C (ALeaf a (take 2 (ins_entry key v kvs))) (fst (ins_entry key v kvs ! 2))
        (ALeaf (brk t) (drop 2 (ins_entry key v kvs))) (Suc (brk t))))"
      using represents_leaf_split [OF t(1) [unfolded T] C(1,4) nd len e] by blast
    have "bptree_insert (Some t) key v e = Some (True, Some t', e')"
      using r find nd(1) scan nk len s(1)
      by (simp add: bptree_insert_def BPTREE_MAX_KEYS_def BPTREE_ORDER_def)
    then show ?thesis
      using s(2) rt es search_tree_grow_leaf [OF t(2) [unfolded T] C(1) k len C(2,3)]
      by (auto simp: entries_grow)
  qed
qed

end
