(* ===== verification/BPTree_Destroy.thy ===== *)
theory BPTree_Destroy
  imports BPTree_Climb
begin

text \<open>
  Memory discipline of \<^verbatim>\<open>bptree.c\<close>. Every operation keeps the set of allocated nodes equal to the
  addresses handed out so far, whatever allocations fail; and \<open>bptree_destroy\<close> frees each node
  of a represented tree exactly once, touching no freed node.
\<close>

section \<open>Allocation\<close>

named_theorems heap_ok_intros \<open>operations that keep the allocation invariant\<close>

lemma heap_ok_alloc: "heap_ok t \<Longrightarrow> nodes t a = Some nd \<Longrightarrow> a < brk t"
  by (metis heap_ok_def not_le option.distinct(1))

lemma heap_ok_put [heap_ok_intros]: "heap_ok t \<Longrightarrow> nodes t a = Some nd \<Longrightarrow> heap_ok (put_node t a nd')"
  using heap_ok_alloc [of t a nd] by (auto simp: heap_ok_def put_node_def)

lemma heap_ok_upd [heap_ok_intros]: "upd_node t a f = Some t' \<Longrightarrow> heap_ok t \<Longrightarrow> heap_ok t'"
  by (auto simp: upd_node_def heap_ok_put bind_eq_Some_conv)

lemma nodes_put [simp]: "nodes (put_node t a nd) = (nodes t)(a \<mapsto> nd)"
  and brk_put [simp]: "brk (put_node t a nd) = brk t"
  by (simp_all add: put_node_def)

lemma heap_ok_create [heap_ok_intros]: "bptree_create_node t leaf e = (r, t', e') \<Longrightarrow> heap_ok t \<Longrightarrow> heap_ok t'"
  by (auto simp: bptree_create_node_def heap_ok_def put_node_def not_less_eq_eq split: prod.splits if_splits)

lemma create_node_keeps: "bptree_create_node t leaf e = (r, t', e') \<Longrightarrow> nodes t a = Some nd \<Longrightarrow> heap_ok t \<Longrightarrow> nodes t' a = Some nd"
  using heap_ok_alloc [of t a nd] by (auto simp: bptree_create_node_def put_node_def split: prod.splits if_splits)

lemma heap_ok_root [simp]: "heap_ok (t\<lparr>root := r\<rparr>) = heap_ok t"
  by (simp add: heap_ok_def)

lemma heap_ok_insert_into_leaf [heap_ok_intros]:
  "bptree_insert_into_leaf t a key v = Some t' \<Longrightarrow> heap_ok t \<Longrightarrow> heap_ok t'"
  by (auto simp: bptree_insert_into_leaf_def heap_ok_put bind_eq_Some_conv)

lemma heap_ok_create_new_root [heap_ok_intros]:
  "bptree_create_new_root t l k r e = Some (ok, t', e') \<Longrightarrow> heap_ok t \<Longrightarrow> heap_ok t'"
  by (auto simp: bptree_create_new_root_def bind_eq_Some_conv Let_def
      dest!: heap_ok_create heap_ok_upd intro: heap_ok_put split: prod.splits option.splits)

lemma heap_ok_insert_into_internal [heap_ok_intros]:
  "bptree_insert_into_internal t p i k r = Some t' \<Longrightarrow> heap_ok t \<Longrightarrow> heap_ok t'"
  by (auto simp: bptree_insert_into_internal_def bind_eq_Some_conv intro: heap_ok_put dest!: heap_ok_upd)

lemma heap_ok_set_child_parent [heap_ok_intros]:
  "set_child_parent t c p = Some t' \<Longrightarrow> heap_ok t \<Longrightarrow> heap_ok t'"
  by (auto simp: set_child_parent_def intro: heap_ok_upd split: option.splits)

lemma heap_ok_set_last_child [heap_ok_intros]:
  "set_last_child t p i c = Some t' \<Longrightarrow> heap_ok t \<Longrightarrow> heap_ok t'"
  by (auto simp: set_last_child_def bind_eq_Some_conv intro: heap_ok_put heap_ok_set_child_parent)

lemma heap_ok_split_left_loop [heap_ok_intros]:
  "split_left_loop t p tk tc i m = Some t' \<Longrightarrow> heap_ok t \<Longrightarrow> heap_ok t'"
proof (induction t p tk tc i m rule: split_left_loop.induct)
  case (1 t p tk tc i m)
  show ?case
  proof (cases "i < m")
    case True
    then obtain k c nd ks cs t1 t2 where s: "rd_init tk i = Some k" "rd_init tc i = Some c" "nodes t p = Some nd"
      "wr (keys nd) i k = Some ks" "wr (children nd) i c = Some cs"
      "set_child_parent (put_node t p (nd\<lparr>keys := ks, children := cs\<rparr>)) c p = Some t1"
      "upd_node t1 p (num_keys_update Suc) = Some t2" "split_left_loop t2 p tk tc (i + 1) m = Some t'"
      using "1.prems"(1) by (subst (asm) split_left_loop.simps) (auto simp: bind_eq_Some_conv)
    have "heap_ok t2" using s "1.prems"(2) by (auto intro!: heap_ok_upd [OF s(7)] heap_ok_set_child_parent [OF s(6)] heap_ok_put)
    then show ?thesis using "1.IH" [OF True s(1-3,4,5,6,7,8)] by simp
  next
    case False
    then show ?thesis using "1.prems" by (subst (asm) split_left_loop.simps) simp
  qed
qed

lemma heap_ok_split_right_loop [heap_ok_intros]:
  "split_right_loop t p tk tc i = Some t' \<Longrightarrow> heap_ok t \<Longrightarrow> heap_ok t'"
proof (induction t p tk tc i rule: split_right_loop.induct)
  case (1 t p tk tc i)
  show ?case
  proof (cases "i < BPTREE_ORDER")
    case True
    then obtain k c nd ks cs t1 t2 where s: "rd_init tk i = Some k" "rd_init tc i = Some c" "nodes t p = Some nd"
      "wr (keys nd) (num_keys nd) k = Some ks" "wr (children nd) (num_keys nd) c = Some cs"
      "set_child_parent (put_node t p (nd\<lparr>keys := ks, children := cs\<rparr>)) c p = Some t1"
      "upd_node t1 p (num_keys_update Suc) = Some t2" "split_right_loop t2 p tk tc (i + 1) = Some t'"
      using "1.prems"(1) by (subst (asm) split_right_loop.simps) (auto simp: bind_eq_Some_conv)
    have "heap_ok t2" using s "1.prems"(2) by (auto intro!: heap_ok_upd [OF s(7)] heap_ok_set_child_parent [OF s(6)] heap_ok_put)
    then show ?thesis using "1.IH" [OF True s(1-3,4,5,6,7,8)] by simp
  next
    case False
    then show ?thesis using "1.prems" by (subst (asm) split_right_loop.simps) simp
  qed
qed

lemma heap_ok_split_leaf [heap_ok_intros]:
  assumes "bptree_split_leaf t a key v e = Some (r, t', e')" and "heap_ok t"
  shows "heap_ok t'"
proof -
  obtain nd i where nd: "nodes t a = Some nd" "bptree_find_insert_index (keys nd) (num_keys nd) key = Some i"
    using assms(1) by (auto simp: bptree_split_leaf_def bind_eq_Some_conv)
  obtain n t1 e1 where c: "bptree_create_node t True e = (n, t1, e1)" by (cases "bptree_create_node t True e")
  have t1: "heap_ok t1" "nodes t1 a = Some nd" using c assms(2) nd heap_ok_create create_node_keeps by blast+
  show ?thesis
  proof (cases n)
    case None
    then show ?thesis using assms(1) nd c t1 by (simp add: bptree_split_leaf_def)
  next
    case (Some b)
    then have "\<exists>x y bn. t' = put_node (put_node t1 a x) b y \<and> nodes t1 b = Some bn"
      using assms(1) nd c by (auto simp: bptree_split_leaf_def bind_eq_Some_conv Let_def split: prod.splits)
    then obtain x y bn where t': "t' = put_node (put_node t1 a x) b y" "nodes t1 b = Some bn" by blast
    then have "\<exists>bn. nodes (put_node t1 a x) b = Some bn" by simp
    then show ?thesis using t1 t' by (auto intro: heap_ok_put)
  qed
qed

lemma heap_ok_split_internal [heap_ok_intros]:
  assumes "bptree_split_internal t p i k c e = Some (r, t', e')" and "heap_ok t"
  shows "heap_ok t'"
proof -
  obtain n t1 e1 where cr: "bptree_create_node t False e = (n, t1, e1)" by (cases "bptree_create_node t False e")
  then have t1: "heap_ok t1" using assms(2) heap_ok_create by blast
  show ?thesis
  proof (cases n)
    case None
    then show ?thesis using assms(1) cr t1 by (simp add: bptree_split_internal_def)
  next
    case (Some b)
    then obtain nd m tk tc t2 t3 t4 t5 c1 c2 pn rn j f where s: "nodes t1 p = Some nd"
      "split_left_loop (put_node t1 p (nd\<lparr>num_keys := 0\<rparr>)) p tk tc 0 m = Some t2"
      "set_last_child t2 p m c1 = Some t3" "upd_node t3 b f = Some t4"
      "split_right_loop t4 b tk tc (m + 1) = Some t5" "set_last_child t5 b j c2 = Some t'"
      using assms(1) cr by (auto simp: bptree_split_internal_def bind_eq_Some_conv Let_def)
    have "heap_ok t3"
      using heap_ok_set_last_child [OF s(3)] heap_ok_split_left_loop [OF s(2)] heap_ok_put [OF t1 s(1)] by blast
    then show ?thesis
      using heap_ok_set_last_child [OF s(6)] heap_ok_split_right_loop [OF s(5)] heap_ok_upd [OF s(4)] by blast
  qed
qed

lemma heap_ok_insert_into_parent [heap_ok_intros]:
  assumes "bptree_insert_into_parent t l k r e = Some (ok, t', e')" and "heap_ok t"
  shows "heap_ok t'"
proof -
  have "heap_ok t \<longrightarrow> heap_ok (fst (snd (ok, t', e')))"
  proof (rule bptree_insert_into_parent.raw_induct
      [where P = "\<lambda>t l k r e x. heap_ok t \<longrightarrow> heap_ok (fst (snd x))", OF _ assms(1)])
    fix f t l k r e x
    assume IH: "\<And>t l k r e x. f t l k r e = Some x \<Longrightarrow> heap_ok t \<longrightarrow> heap_ok (fst (snd x))"
      and step: "do { ln \<leftarrow> nodes t l;
        (case parent ln of None \<Rightarrow> bptree_create_new_root t l k r e
         | Some p \<Rightarrow> do { pn \<leftarrow> nodes t p;
             insert_index \<leftarrow> child_pos_loop (children pn) (num_keys pn) l 0;
             if num_keys pn < BPTREE_MAX_KEYS
             then do { t' \<leftarrow> bptree_insert_into_internal t p insert_index k r; Some (True, t', e) }
             else do { (q, t', e') \<leftarrow> bptree_split_internal t p insert_index k r e;
                       (case q of None \<Rightarrow> Some (False, t', e')
                        | Some (promote_key, right_parent) \<Rightarrow> f t' p promote_key right_parent e') } }) } = Some x"
    obtain ok1 t1 e1 where x: "x = (ok1, t1, e1)" by (cases x)
    from step show "heap_ok t \<longrightarrow> heap_ok (fst (snd x))"
      unfolding x
      by (auto simp: bind_eq_Some_conv intro: heap_ok_create_new_root
          dest!: IH heap_ok_split_internal heap_ok_insert_into_internal split: option.splits if_splits)
  qed
  then show ?thesis using assms(2) by simp
qed

lemma heap_ok_insert:
  assumes "bptree_insert (Some t) key v e = Some (ok, t', e')" and "heap_ok t"
  shows "\<exists>t1. t' = Some t1 \<and> heap_ok t1"
proof (cases "root t")
  case None
  obtain n t1 e1 where c: "bptree_create_node t True e = (n, t1, e1)" by (cases "bptree_create_node t True e")
  then have "heap_ok t1" using assms(2) heap_ok_create by blast
  then show ?thesis using assms(1) None c
    by (cases n) (auto simp: bptree_insert_def bind_eq_Some_conv intro: heap_ok_put)
next
  case (Some r)
  then show ?thesis
    using assms
    by (auto simp: bptree_insert_def bptree_split_leaf_and_insert_def bind_eq_Some_conv split: option.splits if_splits
        intro: heap_ok_insert_into_leaf dest!: heap_ok_split_leaf heap_ok_insert_into_parent)
qed

section \<open>Freeing a represented tree\<close>

text \<open>The heap without some addresses.\<close>

definition forget :: "'v BPTree \<Rightarrow> nat set \<Rightarrow> 'v BPTree" where
  "forget t A = t\<lparr>nodes := nodes t |` (- A)\<rparr>"

lemma nodes_forget [simp]: "nodes (forget t A) b = (if b \<in> A then None else nodes t b)"
  by (simp add: forget_def restrict_map_def)

lemma forget_twice [simp]: "forget (forget t A) B = forget t (B \<union> A)"
  by (simp add: forget_def Int_commute)

lemma forget_none [simp]: "forget t {} = t"
  by (simp add: forget_def restrict_map_def)

lemma free_node_forget: "nodes t a = Some nd \<Longrightarrow> free_node t a = Some (forget t {a})"
  by (simp add: free_node_def forget_def restrict_complement_singleton_eq)

lemma destroy_children:
  assumes "nodes t a = Some nd" and "inner_node nd q (map addr ts) ks" and "length ts = Suc (length ks)"
    and "distinct (a # concat (map addrs ts))" and "\<forall>c \<in> set ts. rep (nodes t) (Some a) c"
    and IH: "\<And>c s. c \<in> set ts \<Longrightarrow> rep (nodes s) (Some a) c \<Longrightarrow> distinct (addrs c) \<Longrightarrow>
      destroy_node_from s (addr c) 0 = Some (forget s (set (addrs c)))"
    and "i \<le> length ts"
  shows "destroy_node_from (forget t (set (concat (map addrs (take i ts))))) a i =
    Some (forget t (insert a (set (concat (map addrs ts)))))"
  using assms(7)
proof (induction "length ts - i" arbitrary: i)
  case 0
  then have i: "i = length ts" by simp
  let ?t = "forget t (set (concat (map addrs ts)))"
  have a: "nodes ?t a = Some nd" using assms(1,4) by simp
  then have "destroy_node_from ?t a i = free_node ?t a"
    using assms(2,3) i by (subst destroy_node_from.simps) (auto simp: inner_node_def)
  then show ?case using i free_node_forget [OF a] by simp
next
  case (Suc d)
  then have i: "i < length ts" by simp
  let ?done = "set (concat (map addrs (take i ts)))" and ?c = "ts ! i"
  let ?t = "forget t ?done"
  have "concat (map addrs ts) = concat (map addrs (take i ts)) @ addrs ?c @ concat (map addrs (drop (Suc i) ts))"
    using arg_cong [OF id_take_nth_drop [OF i], of "\<lambda>xs. concat (map addrs xs)"] by simp
  then have d: "distinct (concat (map addrs (take i ts)) @ addrs ?c)" "a \<notin> ?done"
    using assms(4) by (simp_all add: Int_Un_distrib del: set_concat)
  have c: "?c \<in> set ts" using i by simp
  have a: "nodes ?t a = Some nd" using assms(1) d(2) by simp
  have "take (Suc (length ks)) (children nd) ! i = map Some (map addr ts) ! i" "i < length (children nd)"
    using assms(2,3) i by (simp_all add: inner_node_def)
  then have ch: "rd (children nd) i = Some (Some (addr ?c))" using i assms(3) by (simp add: array_simps)
  have "nodes ?t b = nodes t b" if "b \<in> set (addrs ?c)" for b
    using that d(1) by (auto simp del: set_concat)
  then have "rep (nodes ?t) (Some a) ?c"
    using assms(5) c rep_cong [of ?c "nodes ?t" "nodes t" "Some a"] by blast
  then have "destroy_node_from ?t (addr ?c) 0 = Some (forget ?t (set (addrs ?c)))"
    using IH [OF c, of ?t] d(1) by simp
  then have "destroy_node_from ?t a i = destroy_node_from (forget ?t (set (addrs ?c))) a (Suc i)"
    using a ch assms(2,3) i by (subst destroy_node_from.simps) (simp add: inner_node_def)
  also have "forget ?t (set (addrs ?c)) = forget t (set (concat (map addrs (take (Suc i) ts))))"
    using i by (simp add: take_Suc_conv_app_nth Un_commute)
  finally show ?case using Suc.hyps(1) [of "Suc i"] Suc.hyps(2) i by simp
qed

lemma destroy_node_from_rep:
  "rep (nodes t) q T \<Longrightarrow> distinct (addrs T) \<Longrightarrow> shape T \<Longrightarrow>
   destroy_node_from t (addr T) 0 = Some (forget t (set (addrs T)))"
proof (induction T arbitrary: t q)
  case (ALeaf a kvs)
  then obtain nd where nd: "nodes t a = Some nd" "is_leaf nd" by (auto simp: leaf_node_def)
  then show ?case using free_node_forget [OF nd(1)] by (subst destroy_node_from.simps) simp
next
  case (ANode a ts ks)
  obtain nd where nd: "nodes t a = Some nd" "inner_node nd q (map addr ts) ks" using ANode.prems(1) by auto
  have "destroy_node_from s (addr c) 0 = Some (forget s (set (addrs c)))"
    if "c \<in> set ts" "rep (nodes s) (Some a) c" "distinct (addrs c)" for c s
    using ANode.IH [OF that] ANode.prems(3) that(1) by simp
  from destroy_children [OF nd _ _ _ this, of 0] ANode.prems show ?case by simp
qed

lemma bptree_destroy_represents:
  assumes "represents t T" and "shape T" and "heap_ok t"
  shows "bptree_destroy (Some t) = Some Map.empty"
proof -
  have "destroy_node_from t (addr T) 0 = Some (forget t (set (addrs T)))"
    using assms by (intro destroy_node_from_rep [of t None T]) (simp_all add: represents_def)
  moreover have "nodes (forget t {..<brk t}) = Map.empty"
    using assms(3) by (intro ext) (simp add: heap_ok_def)
  ultimately show ?thesis using assms(1) by (simp add: bptree_destroy_def bptree_destroy_node_def represents_def)
qed

end
