(* ===== verification/BPTree_Index.thy ===== *)
theory BPTree_Index
  imports BPTree_Correct BPTree_Destroy
begin

text \<open>
  The interface of \<^verbatim>\<open>bptree.h\<close>: what a client may rely on, as a locale over insert, search and
  destroy, and its interpretation on the heap model. The properties of the module follow.
\<close>

section \<open>The public operations on the invariant\<close>

lemma bptree_entries_rootE:
  assumes "bptree_entries t es" and "root t = Some r"
  obtains T where "represents t T" "search_tree T" "es = entries T" "heap_ok t"
  using assms by (auto simp: bptree_entries_def)

lemma bptree_create_entries:
  "bptree_create e = (Some t, e') \<Longrightarrow> bptree_entries t []"
  by (auto simp: bptree_create_def bptree_entries_def heap_ok_def split: prod.splits if_splits)

lemma bptree_insert_first:
  assumes "bptree_entries t es" and "root t = None" and "env_next e = (True, e')"
  shows "\<exists>t'. bptree_insert (Some t) key v e = Some (True, Some t', e') \<and> bptree_entries t' (ins_entry key v es)"
proof -
  let ?nd = "\<lparr>is_leaf = True, num_keys = 1, keys = [key, 0, 0], vals = [v, None, None],
    children = [None, None, None, None], parent = None, next_leaf = None\<rparr>"
  let ?t = "(put_node t 0 ?nd)\<lparr>brk := 1, root := Some 0\<rparr>"
  have t: "brk t = 0" "es = []" "heap_ok t" using assms(1,2) by (simp_all add: bptree_entries_def)
  have "bptree_insert (Some t) key v e = Some (True, Some ?t, e')"
    using assms(2,3) t by (simp add: bptree_insert_def bptree_create_node_ok array_simps put_node_def)
  moreover have "represents ?t (ALeaf 0 [(key, v)])"
    by (auto simp: represents_def leaf_node_def)
  moreover have "search_tree (ALeaf 0 [(key, v)])" by (simp add: search_tree_def)
  moreover have "heap_ok ?t" using t by (auto simp: heap_ok_def)
  ultimately show ?thesis using t by (force simp: bptree_entries_def ins_entry_def ins_pos_def)
qed

lemma bptree_insert_new:
  assumes "bptree_entries t es" and "key \<notin> fst ` set es" and "all_succeed e"
  shows "\<exists>t' e'. bptree_insert (Some t) key v e = Some (True, Some t', e') \<and>
    bptree_entries t' (ins_entry key v es) \<and> all_succeed e'"
proof (cases "root t")
  case None
  then show ?thesis using bptree_insert_first [OF assms(1), of e "tl e" key v] assms(3) by (auto simp: env_simps)
next
  case (Some r)
  then obtain T where T: "represents t T" "search_tree T" "es = entries T" "heap_ok t"
    using bptree_entries_rootE [OF assms(1)] by blast
  obtain t' T' e' where t': "bptree_insert (Some t) key v e = Some (True, Some t', e')" "all_succeed e'"
    "represents t' T'" "search_tree T'" "entries T' = ins_entry key v (entries T)"
    using represents_insert_new [OF T(1,2) _ assms(3)] assms(2) T(3) by blast
  have "heap_ok t'" using heap_ok_insert [OF t'(1) T(4)] by simp
  then have "bptree_entries t' (ins_entry key v es)"
    using t' T(3) by (auto simp: bptree_entries_def represents_def)
  then show ?thesis using t' by blast
qed

lemma bptree_insert_duplicate:
  assumes "bptree_entries t es" and "key \<in> fst ` set es"
  shows "bptree_insert (Some t) key v e = Some (False, Some t, e)"
proof (cases "root t")
  case None
  then show ?thesis using assms by (simp add: bptree_entries_def)
next
  case (Some r)
  then obtain T where T: "represents t T" "search_tree T" "es = entries T"
    using bptree_entries_rootE [OF assms(1)] by blast
  obtain C a kvs nd q where C: "T = plug C (ALeaf a kvs)" "cshape C"
    "\<forall>x \<in> set (lflat C). x < key_mark key" "\<forall>x \<in> set (rflat C). key_mark key < x"
    and find: "bptree_find_leaf (Some t) key = Some (Some a)"
    and nd: "nodes t a = Some nd" "leaf_node nd q kvs" and inc: "increasing (map fst kvs)"
    using represents_find_leaf [OF T(1,2)] by metis
  have "key \<in> fst ` set kvs" using assms(2) T(3) C(1) key_only_in_leaf(1) [OF C(2-4)] by blast
  then obtain j where "leaf_scan_loop (keys nd) (num_keys nd) key 0 = Some (Some j)"
    using leaf_scan_leaf_node [OF nd(2) increasing_distinct [OF inc], of key] by blast
  then show ?thesis using Some find nd(1) by (simp add: bptree_insert_def)
qed

text \<open>A failure of the first allocation leaves the tree as it was.\<close>

lemma bptree_insert_first_failure:
  assumes "bptree_entries t es" and "key \<notin> fst ` set es"
  shows "bptree_insert (Some t) key v (False # e) = Some (False, Some t, e) \<or>
    (\<exists>t'. bptree_insert (Some t) key v (False # e) = Some (True, Some t', False # e) \<and>
       bptree_insert (Some t) key v [] = Some (True, Some t', []))"
proof (cases "root t")
  case None
  then show ?thesis by (simp add: bptree_insert_def bptree_create_node_def)
next
  case (Some r)
  then obtain T where T: "represents t T" "search_tree T" "es = entries T"
    using bptree_entries_rootE [OF assms(1)] by blast
  obtain C a kvs nd q where C: "T = plug C (ALeaf a kvs)" "cshape C"
    "\<forall>x \<in> set (lflat C). x < key_mark key" "\<forall>x \<in> set (rflat C). key_mark key < x"
    and find: "bptree_find_leaf (Some t) key = Some (Some a)"
    and nd: "nodes t a = Some nd" "leaf_node nd q kvs" and inc: "increasing (map fst kvs)"
    using represents_find_leaf [OF T(1,2)] by metis
  have "key \<notin> fst ` set kvs" using assms(2) T(3) C(1) key_only_in_leaf(1) [OF C(2-4)] by blast
  then have scan: "leaf_scan_loop (keys nd) (num_keys nd) key 0 = Some None"
    using leaf_scan_leaf_node [OF nd(2) increasing_distinct [OF inc], of key] by (auto dest: nth_mem intro: rev_image_eqI)
  have len: "num_keys nd = length kvs" "length kvs \<le> 3" "length (keys nd) = 3" using nd(2) by (simp_all add: leaf_node_def)
  show ?thesis
  proof (cases "length kvs < 3")
    case True
    then obtain nd' where "bptree_insert_into_leaf t a key v = Some (put_node t a nd')"
      using bptree_insert_into_leaf_ok [OF nd] by blast
    then show ?thesis using Some find nd(1) scan len True
      by (simp add: bptree_insert_def BPTREE_MAX_KEYS_def BPTREE_ORDER_def)
  next
    case False
    then show ?thesis using Some find nd(1) scan len
      by (simp add: bptree_insert_def BPTREE_MAX_KEYS_def BPTREE_ORDER_def bptree_split_leaf_and_insert_def
          bptree_split_leaf_def bptree_create_node_def find_insert_index_eq)
  qed
qed

lemma bptree_destroy_entries:
  assumes "bptree_entries t es"
  shows "bptree_destroy (Some t) = Some Map.empty"
proof (cases "root t")
  case None
  then have "nodes t = Map.empty" using assms by (intro ext) (simp add: bptree_entries_def heap_ok_def)
  then show ?thesis using None by (simp add: bptree_destroy_def bptree_destroy_node_def)
next
  case (Some r)
  then obtain T where "represents t T" "search_tree T" "heap_ok t"
    using bptree_entries_rootE [OF assms] by blast
  then show ?thesis using bptree_destroy_represents by (auto simp: search_tree_def)
qed

section \<open>The interface\<close>

lemma map_of_ins_entry: "k \<notin> fst ` set es \<Longrightarrow> map_of (ins_entry k v es) = (map_of es)(k \<mapsto> v)"
proof -
  assume k: "k \<notin> fst ` set es"
  let ?l = "take (ins_pos k es) es" and ?r = "drop (ins_pos k es) es"
  have "k \<notin> fst ` set ?l" using k by (auto dest: in_set_takeD)
  then have "map_of ?l k = None" by (simp only: map_of_eq_None_iff not_False_eq_True)
  then have "map_of (ins_entry k v es) = (map_of (?l @ ?r))(k \<mapsto> v)"
    unfolding ins_entry_def map_of_append by (auto simp: map_add_def fun_eq_iff split: option.splits)
  then show ?thesis by simp
qed

text \<open>A client that inserts a list of entries and gives up at the first refusal.\<close>

fun insert_all :: "('t option \<Rightarrow> int \<Rightarrow> 'v option \<Rightarrow> env \<Rightarrow> (bool \<times> 't option \<times> env) option)
    \<Rightarrow> 't option \<Rightarrow> (int \<times> 'v option) list \<Rightarrow> env \<Rightarrow> ('t option \<times> env) option" where
  "insert_all ins t [] e = Some (t, e)"
| "insert_all ins t ((k, v) # kvs) e =
     do { (ok, t', e') \<leftarrow> ins t k v e; if ok then insert_all ins t' kvs e' else None }"

lemma set_fold_ins_entry: "set (fold (\<lambda>(k, v). ins_entry k v) kvs es) = set kvs \<union> set es"
  by (induction kvs arbitrary: es) (auto simp: set_ins_entry)

text \<open>
  An index of int keys: \<open>ix_model t es\<close> says that the index \<open>t\<close> is intact and holds the entries
  \<open>es\<close> in key order.
\<close>

locale ordered_index =
  fixes ix_insert :: "'t option \<Rightarrow> int \<Rightarrow> 'v option \<Rightarrow> env \<Rightarrow> (bool \<times> 't option \<times> env) option"
    and ix_search :: "'t option \<Rightarrow> int \<Rightarrow> 'v option option"
    and ix_model :: "'t \<Rightarrow> (int \<times> 'v option) list \<Rightarrow> bool"
  assumes ix_increasing: "ix_model t es \<Longrightarrow> increasing (map fst es)"
    and ix_search_model: "ix_model t es \<Longrightarrow> ix_search (Some t) k = Some (case map_of es k of None \<Rightarrow> None | Some v \<Rightarrow> v)"
    and ix_insert_new: "ix_model t es \<Longrightarrow> k \<notin> fst ` set es \<Longrightarrow> all_succeed e \<Longrightarrow>
      \<exists>t' e'. ix_insert (Some t) k v e = Some (True, Some t', e') \<and> ix_model t' (ins_entry k v es) \<and> all_succeed e'"
    and ix_insert_old: "ix_model t es \<Longrightarrow> k \<in> fst ` set es \<Longrightarrow> ix_insert (Some t) k v e = Some (False, Some t, e)"
begin

lemma insert_then_search:
  assumes "ix_model t es" and "k \<notin> fst ` set es" and "all_succeed e"
  shows "\<exists>t' e'. ix_insert (Some t) k v e = Some (True, Some t', e') \<and> all_succeed e' \<and>
    ix_model t' (ins_entry k v es) \<and>
    (\<forall>k'. ix_search (Some t') k' = (if k' = k then Some v else ix_search (Some t) k'))"
proof -
  obtain t' e' where t': "ix_insert (Some t) k v e = Some (True, Some t', e')"
    "ix_model t' (ins_entry k v es)" "all_succeed e'" using ix_insert_new [OF assms] by blast
  then show ?thesis
    using ix_search_model [OF assms(1)] ix_search_model [OF t'(2)] by (auto simp: map_of_ins_entry [OF assms(2)])
qed

text \<open>Any sequence of insertions of new keys succeeds.\<close>

lemma insert_all_model:
  "ix_model t es \<Longrightarrow> distinct (map fst (es @ kvs)) \<Longrightarrow> all_succeed e \<Longrightarrow>
   \<exists>t' e'. insert_all ix_insert (Some t) kvs e = Some (Some t', e') \<and> all_succeed e' \<and>
     ix_model t' (fold (\<lambda>(k, v). ins_entry k v) kvs es)"
proof (induction kvs arbitrary: t es e)
  case (Cons kv kvs)
  obtain k v where kv: "kv = (k, v)" by (cases kv)
  then have k: "k \<notin> fst ` set es" using Cons.prems(2) by auto
  obtain t' e' where t': "ix_insert (Some t) k v e = Some (True, Some t', e')"
    "ix_model t' (ins_entry k v es)" "all_succeed e'" using ix_insert_new [OF Cons.prems(1) k Cons.prems(3)] by blast
  have "distinct (map fst (ins_entry k v es @ kvs))"
    using Cons.prems(2) kv increasing_distinct [OF ix_increasing [OF t'(2)]] by (auto simp: set_ins_entry)
  then show ?case using Cons.IH [OF t'(2) _ t'(3)] t'(1) kv by simp
qed simp

end

interpretation bp: ordered_index bptree_insert bptree_search bptree_entries
proof
  fix t :: "'a BPTree" and es k v e
  assume t: "bptree_entries t es"
  show "increasing (map fst es)"
    using t by (auto simp: bptree_entries_def search_tree_def intro: entries_increasing split: option.splits)
  show "bptree_search (Some t) k = Some (case map_of es k of None \<Rightarrow> None | Some v \<Rightarrow> v)"
    using t by (rule bptree_search_correct)
  show "\<exists>t' e'. bptree_insert (Some t) k v e = Some (True, Some t', e') \<and>
      bptree_entries t' (ins_entry k v es) \<and> all_succeed e'" if "k \<notin> fst ` set es" "all_succeed e"
    using t that by (rule bptree_insert_new)
  show "bptree_insert (Some t) k v e = Some (False, Some t, e)" if "k \<in> fst ` set es"
    using t that by (rule bptree_insert_duplicate)
qed

section \<open>Properties\<close>

text \<open>C8: Inserting a new key into an intact B+ tree with no failing allocation returns 1, keeps the
  whole representation invariant (sizes, order, balance, parent pointers, leaf chain, no stray
  node), adds exactly that entry in key order, and afterwards a search finds the new value under
  the new key and what it found before under every other key.\<close>

theorem bptree_insert_search:
  assumes "bptree_entries t es" and "key \<notin> fst ` set es" and "all_succeed e"
  shows "\<exists>t' e'. bptree_insert (Some t) key v e = Some (True, Some t', e') \<and>
    bptree_entries t' (ins_entry key v es) \<and>
    (\<forall>k. bptree_search (Some t') k = (if k = key then Some v else bptree_search (Some t) k))"
  using bp.insert_then_search [OF assms] by blast

text \<open>A tree built by the module itself, with nodes at two levels.\<close>

definition sample_entries :: "(int \<times> nat option) list" where
  "sample_entries = [(5, Some 50), (1, Some 10), (9, Some 90), (3, Some 30), (7, Some 70)]"

lemma sample_tree:
  "\<exists>t. bptree_entries t [(1, Some 10), (3, Some 30), (5, Some 50), (7, Some 70), (9, Some (90::nat))] \<and> root t \<noteq> None"
proof -
  have "bptree_entries \<lparr>root = None, nodes = Map.empty, brk = 0\<rparr> []"
    by (rule bptree_create_entries [of "[]" _ "[]"]) (simp add: bptree_create_def)
  from bp.insert_all_model [OF this, of sample_entries "[]"] obtain t where
    "bptree_entries t (fold (\<lambda>(k, v). ins_entry k v) sample_entries [])" by (auto simp: sample_entries_def)
  then have "bptree_entries t [(1, Some 10), (3, Some 30), (5, Some 50), (7, Some 70), (9, Some (90::nat))]"
    by (simp add: sample_entries_def ins_entry_def ins_pos_def)
  moreover from this have "root t \<noteq> None" by (cases "root t") (simp_all add: bptree_entries_def)
  ultimately show ?thesis by blast
qed

theorem bptree_insert_search_witness:
  "\<exists>t t' :: nat BPTree. \<exists>e'. bptree_insert (Some t) 4 (Some 40) [] = Some (True, Some t', e') \<and>
     bptree_search (Some t') 4 = Some (Some 40) \<and>
     bptree_search (Some t') 7 = bptree_search (Some t) 7"
proof -
  obtain t where t: "bptree_entries t [(1, Some 10), (3, Some 30), (5, Some 50), (7, Some 70), (9, Some (90::nat))]"
    using sample_tree by blast
  from bptree_insert_search [OF this, of 4 "[]" "Some 40"] show ?thesis by force
qed

text \<open>Inserting a key that is present returns 0 and changes nothing: no node is touched and
  no allocation is attempted.\<close>

theorem bptree_insert_rejects_duplicate:
  assumes "bptree_entries t es" and "key \<in> fst ` set es"
  shows "bptree_insert (Some t) key v e = Some (False, Some t, e)"
  using assms by (rule bp.ix_insert_old)

theorem bptree_insert_rejects_duplicate_witness:
  "\<exists>t :: nat BPTree. root t \<noteq> None \<and> bptree_insert (Some t) 7 (Some 1) [] = Some (False, Some t, [])"
  using sample_tree bptree_insert_rejects_duplicate [of _ _ 7 "Some 1" "[]"] by fastforce

text \<open>C21: A search returns (the descent terminates and reads no invalid memory) and its result is
  lookup in the ordered list of entries; \<open>NULL\<close> when the key is absent.\<close>

theorem bptree_search_lookup:
  assumes "bptree_entries t es"
  shows "bptree_search (Some t) key = Some (case map_of es key of None \<Rightarrow> None | Some v \<Rightarrow> v)"
  using assms by (rule bp.ix_search_model)

theorem bptree_search_lookup_witness:
  "\<exists>t :: nat BPTree. bptree_search (Some t) 7 = Some (Some 70) \<and> bptree_search (Some t) 8 = Some None"
proof -
  obtain t where "bptree_entries t [(1, Some 10), (3, Some 30), (5, Some 50), (7, Some 70), (9, Some (90::nat))]"
    using sample_tree by blast
  from bptree_search_lookup [OF this] show ?thesis by (intro exI [of _ t]) simp
qed

text \<open>Building an index from nothing: whatever the order in which distinct keys arrive, every
  insertion succeeds and the tree then holds exactly these entries in increasing key order.\<close>

theorem bptree_build_sorted:
  assumes "distinct (map fst kvs)" and "all_succeed e" and "bptree_create e0 = (Some t, e1)"
  shows "\<exists>t' es e'. insert_all bptree_insert (Some t) kvs e = Some (Some t', e') \<and> bptree_entries t' es \<and>
    set es = set kvs \<and> increasing (map fst es)"
proof -
  obtain t' e' where t': "insert_all bptree_insert (Some t) kvs e = Some (Some t', e')"
    "bptree_entries t' (fold (\<lambda>(k, v). ins_entry k v) kvs [])"
    using bp.insert_all_model [OF bptree_create_entries [OF assms(3)], of kvs e] assms(1,2) by auto
  then show ?thesis using bp.ix_increasing [OF t'(2)] by (auto simp: set_fold_ins_entry)
qed

theorem bptree_build_sorted_witness:
  "\<exists>t' es e'. insert_all bptree_insert (fst (bptree_create [])) sample_entries [] = Some (Some t', e') \<and>
     bptree_entries t' es \<and> set es = set sample_entries \<and> increasing (map fst es)"
  using bptree_build_sorted [of sample_entries "[]" "[]" "\<lparr>root = None, nodes = Map.empty, brk = 0\<rparr>" "[]"]
  by (simp add: bptree_create_def sample_entries_def)

text \<open>When the first allocation an insertion needs fails, the insertion returns 0 and the tree is
  untouched; when it needs no allocation it succeeds as usual.\<close>

theorem bptree_insert_allocation_failure:
  assumes "bptree_entries t es" and "key \<notin> fst ` set es"
  shows "bptree_insert (Some t) key v (False # e) = Some (False, Some t, e) \<or>
    (\<exists>t'. bptree_insert (Some t) key v (False # e) = Some (True, Some t', False # e) \<and>
       bptree_entries t' (ins_entry key v es))"
proof -
  obtain t1 e1 where "bptree_insert (Some t) key v [] = Some (True, Some t1, e1)" "bptree_entries t1 (ins_entry key v es)"
    using bp.ix_insert_new [OF assms, of "[]" v] by auto
  then show ?thesis using bptree_insert_first_failure [OF assms, of v e] by auto
qed

theorem bptree_insert_allocation_failure_witness:
  "\<exists>t :: nat BPTree. root t \<noteq> None \<and>
     (bptree_insert (Some t) 4 (Some 1) [False] = Some (False, Some t, []) \<or>
      (\<exists>t'. bptree_insert (Some t) 4 (Some 1) [False] = Some (True, Some t', [False]) \<and>
        bptree_entries t' [(1, Some 10), (3, Some 30), (4, Some 1), (5, Some 50), (7, Some 70), (9, Some 90)]))"
  using sample_tree bptree_insert_allocation_failure
    [of _ "[(1, Some 10), (3, Some 30), (5, Some 50), (7, Some 70), (9, Some 90)]" 4 "Some 1" "[]"]
  by (fastforce simp: ins_entry_def ins_pos_def)

text \<open>C31: Destroying an intact tree frees every node exactly once: the run accesses no freed
  node, frees none twice and leaves none allocated.\<close>

theorem bptree_destroy_frees_all:
  assumes "bptree_entries t es"
  shows "bptree_destroy (Some t) = Some Map.empty"
  using assms by (rule bptree_destroy_entries)

theorem bptree_destroy_frees_all_witness:
  "\<exists>t :: nat BPTree. root t \<noteq> None \<and> bptree_destroy (Some t) = Some Map.empty"
  using sample_tree bptree_destroy_frees_all by blast

end
