(* ===== verification/BPTree_Descent.thy ===== *)
theory BPTree_Descent
  imports BPTree_Index
begin

text \<open>
  The descent of the B+ tree round by round: how many nodes a lookup visits, and which entries a
  descent can still find behind an insertion that was refused in the middle of a split.
\<close>

section \<open>The rounds of a descent\<close>

text \<open>The leaf that the loop of \<open>bptree_find_leaf\<close> reaches from a node in exactly \<open>n\<close> rounds.\<close>

fun descend :: "'v BPTree \<Rightarrow> int \<Rightarrow> nat \<Rightarrow> nat \<Rightarrow> nat option" where
  "descend t key 0 a = do { nd \<leftarrow> nodes t a; if is_leaf nd then Some a else None }"
| "descend t key (Suc n) a =
     do { nd \<leftarrow> nodes t a;
          if is_leaf nd then None
          else do { i \<leftarrow> child_index_loop (keys nd) (num_keys nd) key 0;
                    c \<leftarrow> rd_init (children nd) i;
                    descend t key n c } }"

lemma descend_find: "descend t key n a = Some b \<Longrightarrow> find_leaf_loop t key a = Some b"
proof (induction n arbitrary: a)
  case 0
  then show ?case by (subst find_leaf_loop.simps) (auto split: bind_splits if_splits)
next
  case (Suc n)
  then show ?case by (subst find_leaf_loop.simps) (auto split: bind_splits if_splits)
qed

lemma descend_balanced:
  assumes "rep (nodes t) q T" and "shape T" and "bal n T"
  shows "\<exists>b. descend t key n (addr T) = Some b"
  using assms
proof (induction n arbitrary: q T)
  case 0
  then show ?case by (cases T) (auto simp: leaf_node_def)
next
  case (Suc n)
  then obtain a ts ks where T: "T = ANode a ts ks" by (cases T) auto
  define i where "i = length (takeWhile (\<lambda>k. k \<le> key) ks)"
  have i: "i \<le> length ks" "i < length ts" using Suc.prems(2) T by (auto simp: i_def length_takeWhile_le le_imp_less_Suc)
  then have c: "rep (nodes t) (Some a) (ts ! i)" "shape (ts ! i)" "bal n (ts ! i)" using Suc.prems T by auto
  obtain nd where nd: "nodes t a = Some nd" "inner_node nd q (map addr ts) ks" using Suc.prems(1) T by auto
  have "take (Suc (length ks)) (children nd) ! i = map Some (map addr ts) ! i" and "i < length (children nd)"
    using nd(2) i by (simp_all add: inner_node_def)
  then have "children nd ! i = Some (addr (ts ! i))" "i < length (children nd)" using i by simp_all
  then have "descend t key (Suc n) (addr T) = descend t key n (addr (ts ! i))"
    using nd T by (simp add: inner_node_def child_index_loop_eq array_simps i_def)
  then show ?case using Suc.IH [OF c] by simp
qed

lemma represents_descend:
  assumes "represents t T" and "search_tree T" and "root t = Some r"
  obtains n where "2 ^ n \<le> length (entries T)" "\<And>key. \<exists>a. descend t key n r = Some a \<and> bptree_find_leaf (Some t) key = Some (Some a)"
proof -
  obtain n where n: "bal n T" "shape T" "root_fill T" using assms(2) by (auto simp: search_tree_def)
  have T: "rep (nodes t) None T" "r = addr T" using assms(1,3) by (simp_all add: represents_def)
  have "\<exists>a. descend t key n r = Some a \<and> bptree_find_leaf (Some t) key = Some (Some a)" for key
  proof -
    obtain a where a: "descend t key n r = Some a" using descend_balanced [OF T(1) n(2,1)] T(2) by blast
    then show ?thesis using descend_find [OF a] assms(3) by (simp add: bptree_find_leaf_def)
  qed
  then show thesis using that [of n] entries_root_lower [OF n(2,3,1)] by blast
qed


section \<open>Which leaf an entry is in\<close>




lemma length_fold_ins_entry: "length (fold (\<lambda>(k, v). ins_entry k v) kvs es) = length kvs + length es"
  by (induction kvs arbitrary: es) auto




section \<open>A refused split\<close>





section \<open>Properties\<close>

text \<open>C29: Lookups take logarithmic time, whatever keys were inserted and in whatever order: behind the
  successful insertion of \<open>N\<close> distinct keys into an empty tree there is one \<open>n\<close> with \<open>2 ^ n \<le> N\<close> such
  that the descent to the leaf of any key, present or not, takes exactly \<open>n\<close> rounds.\<close>

theorem bptree_lookup_logarithmic:
  assumes "distinct (map fst kvs)" and "kvs \<noteq> []" and "all_succeed e" and "bptree_create e0 = (Some t, e1)"
  shows "\<exists>t' e' r n. insert_all bptree_insert (Some t) kvs e = Some (Some t', e') \<and> root t' = Some r \<and> 2 ^ n \<le> length kvs \<and>
    (\<forall>key. \<exists>a. descend t' key n r = Some a \<and> bptree_find_leaf (Some t') key = Some (Some a))"
proof -
  obtain t' e' where t': "insert_all bptree_insert (Some t) kvs e = Some (Some t', e')"
    "bptree_entries t' (fold (\<lambda>(k, v). ins_entry k v) kvs [])"
    using bp.insert_all_model [OF bptree_create_entries [OF assms(4)], of kvs e] assms(1,3) by auto
  have len: "length (fold (\<lambda>(k, v). ins_entry k v) kvs []) = length kvs" using length_fold_ins_entry [of kvs "[]"] by simp
  then obtain r where r: "root t' = Some r" using t'(2) assms(2) by (cases "root t'") (auto simp: bptree_entries_def)
  obtain T where "represents t' T" "search_tree T" "fold (\<lambda>(k, v). ins_entry k v) kvs [] = entries T"
    using bptree_entries_rootE [OF t'(2) r] by blast
  then show ?thesis using represents_descend [OF _ _ r] t'(1) r len by metis
qed

theorem bptree_lookup_logarithmic_witness:
  "\<exists>t' e' r n. insert_all bptree_insert (fst (bptree_create [])) sample_entries [] = Some (Some t', e') \<and> 2 ^ n \<le> (5 :: nat) \<and>
     (\<forall>key. \<exists>a. descend t' key n r = Some a \<and> bptree_find_leaf (Some t') key = Some (Some a))"
proof -
  have c: "bptree_create [] = (Some \<lparr>root = None, nodes = Map.empty, brk = 0\<rparr>, [])" by (simp add: bptree_create_def)
  have s: "distinct (map fst sample_entries)" "sample_entries \<noteq> []" "length sample_entries = 5" by (simp_all add: sample_entries_def)
  from bptree_lookup_logarithmic [OF s(1,2) all_succeed_Nil c] show ?thesis unfolding c fst_conv s(3) by blast
qed



end
