(* ===== verification/C_Strings.thy ===== *)
theory C_Strings
  imports Prelude
begin

text \<open>
  The part of the C library that the program uses on text: character classes of the C locale,
  case-insensitive comparison, decimal output of \<^verbatim>\<open>%d\<close>, \<^verbatim>\<open>strtol\<close> and bounded copies. A C string is
  the list of its characters before the terminating zero; reading the character at the end
  gives the zero.
\<close>

section \<open>Characters\<close>

abbreviation code :: "char \<Rightarrow> nat" where
  "code \<equiv> of_char"

abbreviation NUL :: char where
  "NUL \<equiv> CHR 0x00"

fun peek :: "string \<Rightarrow> char" where
  "peek [] = NUL"
| "peek (c # cs) = c"

definition isdigit :: "char \<Rightarrow> bool" where
  "isdigit c \<longleftrightarrow> 48 \<le> code c \<and> code c \<le> 57"

definition isupper :: "char \<Rightarrow> bool" where
  "isupper c \<longleftrightarrow> 65 \<le> code c \<and> code c \<le> 90"

definition isalpha :: "char \<Rightarrow> bool" where
  "isalpha c \<longleftrightarrow> isupper c \<or> 97 \<le> code c \<and> code c \<le> 122"

definition isalnum :: "char \<Rightarrow> bool" where
  "isalnum c \<longleftrightarrow> isalpha c \<or> isdigit c"

definition isspace :: "char \<Rightarrow> bool" where
  "isspace c \<longleftrightarrow> code c = 32 \<or> 9 \<le> code c \<and> code c \<le> 13"

definition tolower :: "char \<Rightarrow> char" where
  "tolower c = (if isupper c then char_of (code c + 32) else c)"

text \<open>\<open>strcasecmp(a, b) == 0\<close>\<close>

definition strcaseeq :: "string \<Rightarrow> string \<Rightarrow> bool" where
  "strcaseeq a b \<longleftrightarrow> map tolower a = map tolower b"

text \<open>\<open>snprintf(buffer, n, "%s", s)\<close> and \<open>strncpy\<close> with a terminator behind it.\<close>

definition bounded :: "nat \<Rightarrow> string \<Rightarrow> string" where
  "bounded n s = take (n - 1) s"

lemma bounded_id: "length s < n \<Longrightarrow> bounded n s = s"
  by (simp add: bounded_def)

lemma length_bounded: "length (bounded n s) \<le> n - 1"
  by (simp add: bounded_def)

section \<open>Decimal output\<close>

definition digit :: "nat \<Rightarrow> char" where
  "digit d = char_of (48 + d)"

fun show_nat :: "nat \<Rightarrow> string" where
  "show_nat n = (if n < 10 then [digit n] else show_nat (n div 10) @ [digit (n mod 10)])"

definition show_int :: "int \<Rightarrow> string" where
  "show_int i = (if i < 0 then CHR ''-'' # show_nat (nat (- i)) else show_nat (nat i))"

declare show_nat.simps [simp del]

section \<open>Decimal input\<close>

definition digit_value :: "char \<Rightarrow> int" where
  "digit_value c = int (code c) - 48"

definition digits_value :: "string \<Rightarrow> int" where
  "digits_value ds = foldl (\<lambda>n c. 10 * n + digit_value c) 0 ds"

definition LONG_MAX :: int where "LONG_MAX = 9223372036854775807"
definition LONG_MIN :: int where "LONG_MIN = - 9223372036854775808"
definition INT_MAX :: int where "INT_MAX = 2147483647"
definition INT_MIN :: int where "INT_MIN = - 2147483648"

text \<open>\<open>strtol(s, &end, 10)\<close>: the saturated value and the rest of the string behind the number;
  without a digit the value is 0 and the rest is the whole string.\<close>

definition strtol :: "string \<Rightarrow> int \<times> string" where
  "strtol s =
     (let s1 = dropWhile isspace s;
          neg = (peek s1 = CHR ''-'');
          s2 = (if neg \<or> peek s1 = CHR ''+'' then tl s1 else s1);
          ds = takeWhile isdigit s2;
          v = digits_value ds
      in if ds = [] then (0, s)
         else (max LONG_MIN (min LONG_MAX (if neg then - v else v)), dropWhile isdigit s2))"

text \<open>\<open>strtoul(s, &end, 10)\<close>: a minus sign negates the value modulo the range; a number out of range
  gives the largest value.\<close>

definition ULONG_MAX :: int where "ULONG_MAX = 18446744073709551615"

definition strtoul :: "string \<Rightarrow> int \<times> string" where
  "strtoul s =
     (let s1 = dropWhile isspace s;
          neg = (peek s1 = CHR ''-'');
          s2 = (if neg \<or> peek s1 = CHR ''+'' then tl s1 else s1);
          ds = takeWhile isdigit s2;
          v = digits_value ds
      in if ds = [] then (0, s)
         else (if v > ULONG_MAX then ULONG_MAX else if neg then (- v) mod (ULONG_MAX + 1) else v, dropWhile isdigit s2))"

text \<open>The conversion of a long to an int keeps the low 32 bits.\<close>

definition to_int :: "int \<Rightarrow> int" where
  "to_int v = (v + 2147483648) mod 4294967296 - 2147483648"

lemma to_int_range: "INT_MIN \<le> to_int v \<and> to_int v \<le> INT_MAX"
proof -
  have "0 \<le> (v + 2147483648) mod 4294967296" "(v + 2147483648) mod 4294967296 < 4294967296" by simp_all
  then show ?thesis unfolding to_int_def INT_MIN_def INT_MAX_def by linarith
qed

lemma to_int_id: "INT_MIN \<le> v \<Longrightarrow> v \<le> INT_MAX \<Longrightarrow> to_int v = v"
  by (simp add: to_int_def INT_MIN_def INT_MAX_def)

section \<open>Numbers survive output and input\<close>

lemma digit_code: "d < 10 \<Longrightarrow> code (digit d) = 48 + d"
  by (simp add: digit_def)

lemma digit_chars:
  "digit 0 = CHR ''0''" "digit 1 = CHR ''1''" "digit 2 = CHR ''2''" "digit 3 = CHR ''3''" "digit 4 = CHR ''4''"
  "digit 5 = CHR ''5''" "digit 6 = CHR ''6''" "digit 7 = CHR ''7''" "digit 8 = CHR ''8''" "digit 9 = CHR ''9''"
  "digit (Suc 0) = CHR ''1''"
  by code_simp+

lemma isdigit_digit [simp]: "d < 10 \<Longrightarrow> isdigit (digit d)"
  by (simp add: isdigit_def digit_code)

lemma digit_value_digit [simp]: "d < 10 \<Longrightarrow> digit_value (digit d) = int d"
  by (simp add: digit_value_def digit_code)

lemma digits_value_snoc: "digits_value (ds @ [c]) = 10 * digits_value ds + digit_value c"
  by (simp add: digits_value_def)

lemma digits_value_nonneg: "\<forall>c \<in> set ds. isdigit c \<Longrightarrow> 0 \<le> digits_value ds"
  by (induction ds rule: rev_induct) (simp_all add: digits_value_def digit_value_def isdigit_def)

lemma strtoul_range: "0 \<le> fst (strtoul s) \<and> fst (strtoul s) \<le> ULONG_MAX"
proof -
  have v: "0 \<le> digits_value (takeWhile isdigit t)" for t
    by (rule digits_value_nonneg) (blast dest: set_takeWhileD)
  have m: "0 \<le> k mod (ULONG_MAX + 1)" "k mod (ULONG_MAX + 1) \<le> ULONG_MAX" for k
    using pos_mod_bound [of "ULONG_MAX + 1" k] by (simp_all add: ULONG_MAX_def)
  have p: "0 \<le> ULONG_MAX" by (simp add: ULONG_MAX_def)
  show ?thesis unfolding strtoul_def Let_def by (simp only: fst_conv v m p not_less split: if_split) simp
qed

lemma show_nat_digits: "set (show_nat n) \<subseteq> {c. isdigit c}"
proof (induction n rule: show_nat.induct)
  case (1 n)
  then show ?case by (subst show_nat.simps) auto
qed

lemma show_nat_nonempty [simp]: "show_nat n \<noteq> []"
  by (subst show_nat.simps) simp

lemma digits_value_show_nat [simp]: "digits_value (show_nat n) = int n"
proof (induction n rule: show_nat.induct)
  case (1 n)
  show ?case
  proof (cases "n < 10")
    case True
    then show ?thesis by (subst show_nat.simps) (simp add: digits_value_def)
  next
    case False
    then show ?thesis using 1 by (subst show_nat.simps) (simp add: digits_value_snoc zdiv_int zmod_int)
  qed
qed

lemma show_nat_length: "n < 10 ^ Suc k \<Longrightarrow> length (show_nat n) \<le> Suc k"
proof (induction k arbitrary: n)
  case 0
  then show ?case by (subst show_nat.simps) simp
next
  case (Suc k)
  then have "n div 10 < 10 ^ Suc k" by (simp add: less_mult_imp_div_less mult.commute)
  then show ?case using Suc.IH [of "n div 10"] by (subst show_nat.simps) simp
qed

lemma takeWhile_show_nat:
  assumes "rest = [] \<or> \<not> isdigit (hd rest)"
  shows "takeWhile isdigit (show_nat n @ rest) = show_nat n" and "dropWhile isdigit (show_nat n @ rest) = rest"
proof -
  have all: "\<And>c. c \<in> set (show_nat n) \<Longrightarrow> isdigit c" using show_nat_digits by blast
  have "takeWhile isdigit rest = []" "dropWhile isdigit rest = rest" using assms by (cases rest; simp)+
  then show "takeWhile isdigit (show_nat n @ rest) = show_nat n" "dropWhile isdigit (show_nat n @ rest) = rest"
    using all by simp_all
qed

lemma not_space_digit: "isdigit c \<Longrightarrow> \<not> isspace c" and not_sign_digit: "isdigit c \<Longrightarrow> c \<noteq> CHR ''-'' \<and> c \<noteq> CHR ''+''"
  by (auto simp: isdigit_def isspace_def)

lemma strtol_show_int:
  assumes "rest = [] \<or> \<not> isdigit (hd rest)" and "LONG_MIN \<le> i" and "i \<le> LONG_MAX"
  shows "strtol (show_int i @ rest) = (i, rest)"
proof (cases "i < 0")
  case True
  then show ?thesis
    using assms by (simp add: strtol_def show_int_def takeWhile_show_nat isspace_def)
next
  case False
  obtain c cs where c: "show_nat (nat i) = c # cs" by (cases "show_nat (nat i)") auto
  then have "isdigit c" using show_nat_digits [of "nat i"] by simp
  then have "dropWhile isspace (show_nat (nat i) @ rest) = show_nat (nat i) @ rest"
    "peek (show_nat (nat i) @ rest) \<noteq> CHR ''-''" "peek (show_nat (nat i) @ rest) \<noteq> CHR ''+''"
    using c not_space_digit not_sign_digit by auto
  then show ?thesis using False assms by (simp add: strtol_def show_int_def takeWhile_show_nat)
qed

lemma show_int_start: "\<exists>c cs. show_int i = c # cs \<and> (isdigit c \<or> c = CHR ''-'')"
proof -
  obtain c cs where "show_nat (nat i) = c # cs" by (cases "show_nat (nat i)") auto
  then show ?thesis using show_nat_digits [of "nat i"] by (auto simp: show_int_def)
qed

end
