(* ===== verification/Table_Store.thy ===== *)
theory Table_Store
  imports BPTree_Index C_Strings "HOL-Library.Signed_Division"
begin

text \<open>
  \<^verbatim>\<open>sql_processor/table.c\<close>: the users table, sixteen buckets of record pointers, each with its own
  B+ tree and read-write lock. A record pointer is an address in \<open>rec_heap\<close>, so that a pointer
  to a freed record is a different thing from a record; \<open>rec_brk\<close> is the next address that
  calloc hands out. Locks are part of the state: locking what the thread already holds for
  writing, unlocking what is not locked and using a lock that is not initialised are
  undefined.
\<close>

section \<open>Data\<close>

definition RECORD_NAME_SIZE :: nat where "RECORD_NAME_SIZE = 64"
definition TABLE_BUCKET_COUNT :: nat where "TABLE_BUCKET_COUNT = 16"

record Record =
  rec_id :: int
  rec_name :: string
  rec_age :: int

datatype TableComparison =
    TABLE_COMPARISON_EQ
  | TABLE_COMPARISON_LT
  | TABLE_COMPARISON_LE
  | TABLE_COMPARISON_GT
  | TABLE_COMPARISON_GE

datatype rwlock = NoLock | Unlocked | ReadLocked nat | WriteLocked

datatype mutex = NoMutex | MutexFree | MutexHeld

record TableBucket =
  bk_lock :: rwlock
  bk_rows :: "nat option list"
  bk_size :: nat
  bk_capacity :: nat
  pk_index :: "nat BPTree option"

record Table =
  next_id :: int
  next_id_lock :: mutex
  next_id_lock_initialized :: bool
  initialized_buckets :: nat
  buckets :: "TableBucket list"
  rec_heap :: "nat \<rightharpoonup> Record"
  rec_brk :: nat

section \<open>Locks\<close>

text \<open>The boolean says whether the call returned 0; its outcome is the environment's.\<close>

definition pthread_rwlock_rdlock :: "rwlock \<Rightarrow> env \<Rightarrow> (bool \<times> rwlock \<times> env) option" where
  "pthread_rwlock_rdlock l e =
     (case env_next e of (ok, e') \<Rightarrow>
        if ok then (case l of Unlocked \<Rightarrow> Some (True, ReadLocked 1, e')
                    | ReadLocked n \<Rightarrow> Some (True, ReadLocked (Suc n), e')
                    | _ \<Rightarrow> None)
        else Some (False, l, e'))"

definition pthread_rwlock_wrlock :: "rwlock \<Rightarrow> env \<Rightarrow> (bool \<times> rwlock \<times> env) option" where
  "pthread_rwlock_wrlock l e =
     (case env_next e of (ok, e') \<Rightarrow>
        if ok then (case l of Unlocked \<Rightarrow> Some (True, WriteLocked, e') | _ \<Rightarrow> None)
        else Some (False, l, e'))"

fun pthread_rwlock_unlock :: "rwlock \<Rightarrow> rwlock option" where
  "pthread_rwlock_unlock WriteLocked = Some Unlocked"
| "pthread_rwlock_unlock (ReadLocked n) = (if n \<le> 1 then Some Unlocked else Some (ReadLocked (n - 1)))"
| "pthread_rwlock_unlock _ = None"

fun pthread_rwlock_destroy :: "rwlock \<Rightarrow> rwlock option" where
  "pthread_rwlock_destroy Unlocked = Some NoLock"
| "pthread_rwlock_destroy _ = None"

definition pthread_mutex_lock :: "mutex \<Rightarrow> env \<Rightarrow> (bool \<times> mutex \<times> env) option" where
  "pthread_mutex_lock m e =
     (case env_next e of (ok, e') \<Rightarrow>
        if ok then (case m of MutexFree \<Rightarrow> Some (True, MutexHeld, e') | _ \<Rightarrow> None)
        else Some (False, m, e'))"

fun pthread_mutex_unlock :: "mutex \<Rightarrow> mutex option" where
  "pthread_mutex_unlock MutexHeld = Some MutexFree"
| "pthread_mutex_unlock _ = None"

fun pthread_mutex_destroy :: "mutex \<Rightarrow> mutex option" where
  "pthread_mutex_destroy MutexFree = Some NoMutex"
| "pthread_mutex_destroy _ = None"

text \<open>The lock operations on the bucket with an index.\<close>

definition put_bucket :: "Table \<Rightarrow> nat \<Rightarrow> TableBucket \<Rightarrow> Table" where
  "put_bucket t i b = t\<lparr>buckets := (buckets t)[i := b]\<rparr>"

definition bucket_rdlock :: "Table \<Rightarrow> nat \<Rightarrow> env \<Rightarrow> (bool \<times> Table \<times> env) option" where
  "bucket_rdlock t i e =
     do { b \<leftarrow> rd (buckets t) i;
          (ok, l, e') \<leftarrow> pthread_rwlock_rdlock (bk_lock b) e;
          Some (ok, put_bucket t i (b\<lparr>bk_lock := l\<rparr>), e') }"

definition bucket_wrlock :: "Table \<Rightarrow> nat \<Rightarrow> env \<Rightarrow> (bool \<times> Table \<times> env) option" where
  "bucket_wrlock t i e =
     do { b \<leftarrow> rd (buckets t) i;
          (ok, l, e') \<leftarrow> pthread_rwlock_wrlock (bk_lock b) e;
          Some (ok, put_bucket t i (b\<lparr>bk_lock := l\<rparr>), e') }"

definition bucket_unlock :: "Table \<Rightarrow> nat \<Rightarrow> Table option" where
  "bucket_unlock t i =
     do { b \<leftarrow> rd (buckets t) i;
          l \<leftarrow> pthread_rwlock_unlock (bk_lock b);
          Some (put_bucket t i (b\<lparr>bk_lock := l\<rparr>)) }"

section \<open>Buckets and result arrays\<close>

definition table_bucket_index_for_id :: "int \<Rightarrow> nat" where
  "table_bucket_index_for_id i =
     (let bucket = i smod int TABLE_BUCKET_COUNT;
          bucket' = (if bucket < 0 then bucket + int TABLE_BUCKET_COUNT else bucket)
      in nat bucket')"

definition table_ensure_capacity :: "TableBucket \<Rightarrow> env \<Rightarrow> bool \<times> TableBucket \<times> env" where
  "table_ensure_capacity b e =
     (if bk_size b < bk_capacity b then (True, b, e)
      else let new_capacity = (if bk_capacity b = 0 then 8 else bk_capacity b * 2)
           in case env_next e of (ok, e') \<Rightarrow>
                if ok then (True, b\<lparr>bk_rows := grow_cells (bk_rows b) new_capacity, bk_capacity := new_capacity\<rparr>, e')
                else (False, b, e'))"

text \<open>A result array under construction; no cells is the \<open>NULL\<close> pointer.\<close>

record RecordArray =
  ra_cells :: "nat option list"
  ra_count :: nat
  ra_capacity :: nat

definition empty_array :: RecordArray where
  "empty_array = \<lparr>ra_cells = [], ra_count = 0, ra_capacity = 0\<rparr>"

definition table_append_record :: "RecordArray \<Rightarrow> nat \<Rightarrow> env \<Rightarrow> (bool \<times> RecordArray \<times> env) option" where
  "table_append_record ra r e =
     (if ra_count ra < ra_capacity ra
      then do { cells \<leftarrow> wr (ra_cells ra) (ra_count ra) (Some r);
                Some (True, ra\<lparr>ra_cells := cells, ra_count := ra_count ra + 1\<rparr>, e) }
      else let new_capacity = (if ra_capacity ra = 0 then 8 else ra_capacity ra * 2)
           in case env_next e of (ok, e') \<Rightarrow>
                if ok
                then do { cells \<leftarrow> wr (grow_cells (ra_cells ra) new_capacity) (ra_count ra) (Some r);
                          Some (True, \<lparr>ra_cells = cells, ra_count = ra_count ra + 1, ra_capacity = new_capacity\<rparr>, e') }
                else Some (False, ra, e'))"

text \<open>The comparison function dereferences both record pointers.\<close>

definition table_compare_records_by_id :: "(nat \<rightharpoonup> Record) \<Rightarrow> nat \<Rightarrow> nat \<Rightarrow> int option" where
  "table_compare_records_by_id h l r =
     do { lhs \<leftarrow> h l; rhs \<leftarrow> h r;
          Some (if rec_id lhs < rec_id rhs then - 1 else if rec_id lhs > rec_id rhs then 1 else 0) }"

text \<open>\<open>qsort\<close>: the array in ascending order of the comparison function.\<close>

fun qsort_insert :: "('a \<Rightarrow> 'a \<Rightarrow> int option) \<Rightarrow> 'a \<Rightarrow> 'a list \<Rightarrow> 'a list option" where
  "qsort_insert cmp x [] = Some [x]"
| "qsort_insert cmp x (y # ys) =
     do { c \<leftarrow> cmp x y;
          if c \<le> 0 then Some (x # y # ys) else do { zs \<leftarrow> qsort_insert cmp x ys; Some (y # zs) } }"

fun qsort :: "('a \<Rightarrow> 'a \<Rightarrow> int option) \<Rightarrow> 'a list \<Rightarrow> 'a list option" where
  "qsort cmp [] = Some []"
| "qsort cmp (x # xs) = do { ys \<leftarrow> qsort cmp xs; qsort_insert cmp x ys }"

text \<open>The initialised cells of an array; \<open>None\<close> when one of them is indeterminate.\<close>

fun cells_list :: "'a option list \<Rightarrow> nat \<Rightarrow> 'a list option" where
  "cells_list cells 0 = Some []"
| "cells_list cells (Suc n) = do { xs \<leftarrow> cells_list cells n; x \<leftarrow> rd_init cells n; Some (xs @ [x]) }"

definition table_sort_records_by_id :: "(nat \<rightharpoonup> Record) \<Rightarrow> RecordArray \<Rightarrow> RecordArray option" where
  "table_sort_records_by_id h ra =
     (if ra_cells ra = [] \<or> ra_count ra < 2 then Some ra
      else do { xs \<leftarrow> cells_list (ra_cells ra) (ra_count ra);
                ys \<leftarrow> qsort (table_compare_records_by_id h) xs;
                Some (ra\<lparr>ra_cells := map Some ys @ drop (ra_count ra) (ra_cells ra)\<rparr>) })"

fun table_compare_int :: "int \<Rightarrow> TableComparison \<Rightarrow> int \<Rightarrow> bool" where
  "table_compare_int left TABLE_COMPARISON_EQ right = (left = right)"
| "table_compare_int left TABLE_COMPARISON_LT right = (left < right)"
| "table_compare_int left TABLE_COMPARISON_LE right = (left \<le> right)"
| "table_compare_int left TABLE_COMPARISON_GT right = (left > right)"
| "table_compare_int left TABLE_COMPARISON_GE right = (left \<ge> right)"

text \<open>The released array; its capacity variable belongs to the caller and keeps its value.\<close>

definition table_free_record_array :: "RecordArray \<Rightarrow> RecordArray" where
  "table_free_record_array ra = ra\<lparr>ra_cells := [], ra_count := 0\<rparr>"

function collect_rows_loop :: "TableBucket \<Rightarrow> nat \<Rightarrow> RecordArray \<Rightarrow> env \<Rightarrow> (bool \<times> RecordArray \<times> env) option" where
  "collect_rows_loop b index ra e =
     (if index < bk_size b
      then do { p \<leftarrow> rd_init (bk_rows b) index;
                (ok, ra', e') \<leftarrow> table_append_record ra p e;
                if ok then collect_rows_loop b (index + 1) ra' e'
                else Some (False, table_free_record_array ra', e') }
      else Some (True, ra, e))"
  by pat_completeness auto
termination
  by (relation "measure (\<lambda>(b, index, ra, e). bk_size b - index)") auto

definition table_collect_bucket_rows_locked ::
    "TableBucket \<Rightarrow> RecordArray \<Rightarrow> env \<Rightarrow> (bool \<times> RecordArray \<times> env) option" where
  "table_collect_bucket_rows_locked b ra e = collect_rows_loop b 0 ra e"

function collect_buckets_loop ::
    "Table \<Rightarrow> nat \<Rightarrow> RecordArray \<Rightarrow> env \<Rightarrow> (bool \<times> RecordArray \<times> Table \<times> env) option" where
  "collect_buckets_loop t index ra e =
     (if index < TABLE_BUCKET_COUNT
      then do { (locked, t1, e1) \<leftarrow> bucket_rdlock t index e;
                if \<not> locked then Some (False, table_free_record_array ra, t1, e1)
                else do { b \<leftarrow> rd (buckets t1) index;
                          (ok, ra', e2) \<leftarrow> table_collect_bucket_rows_locked b ra e1;
                          t2 \<leftarrow> bucket_unlock t1 index;
                          if ok then collect_buckets_loop t2 (index + 1) ra' e2
                          else Some (False, table_free_record_array ra', t2, e2) } }
      else Some (True, ra, t, e))"
  by pat_completeness auto
termination
  by (relation "measure (\<lambda>(t, index, ra, e). TABLE_BUCKET_COUNT - index)") auto

definition table_collect_all_sorted ::
    "Table option \<Rightarrow> env \<Rightarrow> (bool \<times> RecordArray \<times> Table option \<times> env) option" where
  "table_collect_all_sorted table e =
     (case table of None \<Rightarrow> Some (False, empty_array, None, e)
      | Some t \<Rightarrow>
          do { (ok, ra, t', e') \<leftarrow> collect_buckets_loop t 0 empty_array e;
               if \<not> ok then Some (False, ra, Some t', e')
               else do { ra' \<leftarrow> table_sort_records_by_id (rec_heap t') ra;
                         Some (True, ra', Some t', e') } })"

section \<open>Creating and destroying a table\<close>

definition empty_bucket :: TableBucket where
  "empty_bucket = \<lparr>bk_lock = NoLock, bk_rows = [], bk_size = 0, bk_capacity = 0, pk_index = None\<rparr>"

text \<open>\<open>for (row_index = 0; ...) free(bucket->rows[row_index])\<close>; freeing an address that is not
  allocated is undefined.\<close>

function free_rows_loop :: "TableBucket \<Rightarrow> nat \<Rightarrow> (nat \<rightharpoonup> Record) \<Rightarrow> (nat \<rightharpoonup> Record) option" where
  "free_rows_loop b row_index h =
     (if row_index < bk_size b
      then do { p \<leftarrow> rd_init (bk_rows b) row_index;
                r \<leftarrow> h p;
                free_rows_loop b (row_index + 1) (h(p := None)) }
      else Some h)"
  by pat_completeness auto
termination
  by (relation "measure (\<lambda>(b, row_index, h). bk_size b - row_index)") auto

definition destroy_bucket :: "TableBucket \<Rightarrow> (nat \<rightharpoonup> Record) \<Rightarrow> (TableBucket \<times> (nat \<rightharpoonup> Record)) option" where
  "destroy_bucket b h =
     do { h' \<leftarrow> free_rows_loop b 0 h;
          ix \<leftarrow> bptree_destroy (pk_index b);
          l \<leftarrow> pthread_rwlock_destroy (bk_lock b);
          Some (b\<lparr>bk_rows := [], bk_size := 0, bk_capacity := 0, pk_index := None, bk_lock := l\<rparr>, h') }"

function destroy_buckets_loop :: "Table \<Rightarrow> nat \<Rightarrow> Table option" where
  "destroy_buckets_loop t index =
     (if index < initialized_buckets t
      then do { b \<leftarrow> rd (buckets t) index;
                (b', h) \<leftarrow> destroy_bucket b (rec_heap t);
                destroy_buckets_loop ((put_bucket t index b')\<lparr>rec_heap := h\<rparr>) (index + 1) }
      else Some t)"
  by pat_completeness auto
termination
  by (relation "measure (\<lambda>(t, index). initialized_buckets t - index)") (auto simp: put_bucket_def)

text \<open>The record heap that is left when the table structure itself is freed.\<close>

definition table_destroy :: "Table option \<Rightarrow> (nat \<rightharpoonup> Record) option" where
  "table_destroy table =
     (case table of None \<Rightarrow> Some Map.empty
      | Some t \<Rightarrow>
          do { t' \<leftarrow> destroy_buckets_loop t 0;
               m \<leftarrow> (if next_id_lock_initialized t' then pthread_mutex_destroy (next_id_lock t') else Some NoMutex);
               Some (rec_heap t') })"

function create_buckets_loop :: "Table \<Rightarrow> nat \<Rightarrow> env \<Rightarrow> (Table option \<times> env) option" where
  "create_buckets_loop t index e =
     (if index < TABLE_BUCKET_COUNT
      then (case env_next e of (ok, e1) \<Rightarrow>
              if \<not> ok then do { h \<leftarrow> table_destroy (Some t); Some (None, e1) }
              else do { b \<leftarrow> rd (buckets t) index;
                        let t1 = (put_bucket t index (b\<lparr>bk_lock := Unlocked\<rparr>))\<lparr>initialized_buckets := index + 1\<rparr>;
                        (case bptree_create e1 of
                           (None, e2) \<Rightarrow> do { h \<leftarrow> table_destroy (Some t1); Some (None, e2) }
                         | (Some ix, e2) \<Rightarrow>
                             create_buckets_loop
                               (put_bucket t1 index (b\<lparr>bk_lock := Unlocked, pk_index := Some ix\<rparr>)) (index + 1) e2) })
      else Some (Some (t\<lparr>initialized_buckets := TABLE_BUCKET_COUNT\<rparr>), e))"
  by pat_completeness auto
termination
  by (relation "measure (\<lambda>(t, index, e). TABLE_BUCKET_COUNT - index)") auto

definition table_create :: "env \<Rightarrow> (Table option \<times> env) option" where
  "table_create e =
     (case env_next e of (ok, e1) \<Rightarrow>
        if \<not> ok then Some (None, e1)
        else (case env_next e1 of (ok', e2) \<Rightarrow>
                if \<not> ok' then Some (None, e2)
                else create_buckets_loop
                       \<lparr>next_id = 1, next_id_lock = MutexFree, next_id_lock_initialized = True,
                        initialized_buckets = 0, buckets = replicate TABLE_BUCKET_COUNT empty_bucket,
                        rec_heap = Map.empty, rec_brk = 0\<rparr> 0 e2))"

section \<open>Inserting a record\<close>

text \<open>The critical section that hands out an id; \<open>next_id++\<close> overflows at \<open>INT_MAX\<close>.\<close>

definition take_next_id :: "Table \<Rightarrow> env \<Rightarrow> (int option \<times> Table \<times> env) option" where
  "take_next_id t e =
     do { (locked, m, e') \<leftarrow> pthread_mutex_lock (next_id_lock t) e;
          if \<not> locked then Some (None, t, e')
          else if next_id t = INT_MAX then None
          else do { m' \<leftarrow> pthread_mutex_unlock m;
                    Some (Some (next_id t), t\<lparr>next_id := next_id t + 1, next_id_lock := m'\<rparr>, e') } }"

text \<open>The critical section on the bucket: \<open>None\<close> for the early returns with \<open>NULL\<close>.\<close>

definition insert_into_bucket :: "Table \<Rightarrow> nat \<Rightarrow> int \<Rightarrow> string \<Rightarrow> int \<Rightarrow> env \<Rightarrow> (nat option \<times> Table \<times> env) option" where
  "insert_into_bucket t i record_id name age e =
     do { b \<leftarrow> rd (buckets t) i;
          (case table_ensure_capacity b e of
             (False, b1, e1) \<Rightarrow> Some (None, put_bucket t i b1, e1)
           | (True, b1, e1) \<Rightarrow>
               (case env_next e1 of (ok, e2) \<Rightarrow>
                  if \<not> ok then Some (None, put_bucket t i b1, e2)
                  else
                    do { let p = rec_brk t;
                         let r = \<lparr>rec_id = record_id, rec_name = bounded RECORD_NAME_SIZE name, rec_age = age\<rparr>;
                         let t1 = (put_bucket t i b1)\<lparr>rec_heap := (rec_heap t)(p \<mapsto> r), rec_brk := Suc p\<rparr>;
                         (ins, ix, e3) \<leftarrow> bptree_insert (pk_index b1) (rec_id r) (Some p) e2;
                         let b2 = b1\<lparr>pk_index := ix\<rparr>;
                         if \<not> ins
                         then Some (None, (put_bucket t1 i b2)\<lparr>rec_heap := (rec_heap t1)(p := None)\<rparr>, e3)
                         else do { rows \<leftarrow> wr (bk_rows b2) (bk_size b2) (Some p);
                                   Some (Some p,
                                         put_bucket t1 i (b2\<lparr>bk_rows := rows, bk_size := bk_size b2 + 1\<rparr>),
                                         e3) } })) }"

definition table_insert ::
    "Table option \<Rightarrow> string option \<Rightarrow> int \<Rightarrow> env \<Rightarrow> (nat option \<times> Table option \<times> env) option" where
  "table_insert table name age e =
     (case (table, name) of
        (Some t, Some nm) \<Rightarrow>
          do { (rid, t1, e1) \<leftarrow> take_next_id t e;
               (case rid of None \<Rightarrow> Some (None, Some t1, e1)
                | Some record_id \<Rightarrow>
                    do { let i = table_bucket_index_for_id record_id;
                         (locked, t2, e2) \<leftarrow> bucket_wrlock t1 i e1;
                         if \<not> locked then Some (None, Some t2, e2)
                         else do { (r, t3, e3) \<leftarrow> insert_into_bucket t2 i record_id nm age e2;
                                   t4 \<leftarrow> bucket_unlock t3 i;
                                   Some (r, Some t4, e3) } }) }
      | _ \<Rightarrow> Some (None, table, e))"

section \<open>Lookups\<close>

definition table_find_by_id :: "Table option \<Rightarrow> int \<Rightarrow> env \<Rightarrow> (nat option \<times> Table option \<times> env) option" where
  "table_find_by_id table key e =
     (case table of None \<Rightarrow> Some (None, None, e)
      | Some t \<Rightarrow>
          do { let i = table_bucket_index_for_id key;
               (locked, t1, e1) \<leftarrow> bucket_rdlock t i e;
               if \<not> locked then Some (None, Some t1, e1)
               else do { b \<leftarrow> rd (buckets t1) i;
                         r \<leftarrow> bptree_search (pk_index b) key;
                         t2 \<leftarrow> bucket_unlock t1 i;
                         Some (r, Some t2, e1) } })"

function scan_rows_loop :: "(nat \<rightharpoonup> Record) \<Rightarrow> TableBucket \<Rightarrow> int \<Rightarrow> nat \<Rightarrow> nat option option" where
  "scan_rows_loop h b key row_index =
     (if row_index < bk_size b
      then do { p \<leftarrow> rd_init (bk_rows b) row_index;
                r \<leftarrow> h p;
                if rec_id r = key then Some (Some p) else scan_rows_loop h b key (row_index + 1) }
      else Some None)"
  by pat_completeness auto
termination
  by (relation "measure (\<lambda>(h, b, key, row_index). bk_size b - row_index)") auto

function scan_buckets_loop :: "Table \<Rightarrow> int \<Rightarrow> nat \<Rightarrow> env \<Rightarrow> (nat option \<times> Table \<times> env) option" where
  "scan_buckets_loop t key bucket_index e =
     (if bucket_index < TABLE_BUCKET_COUNT
      then do { (locked, t1, e1) \<leftarrow> bucket_rdlock t bucket_index e;
                if \<not> locked then Some (None, t1, e1)
                else do { b \<leftarrow> rd (buckets t1) bucket_index;
                          r \<leftarrow> scan_rows_loop (rec_heap t1) b key 0;
                          t2 \<leftarrow> bucket_unlock t1 bucket_index;
                          (case r of Some p \<Rightarrow> Some (Some p, t2, e1)
                           | None \<Rightarrow> scan_buckets_loop t2 key (bucket_index + 1) e1) } }
      else Some (None, t, e))"
  by pat_completeness auto
termination
  by (relation "measure (\<lambda>(t, key, bucket_index, e). TABLE_BUCKET_COUNT - bucket_index)") auto

definition table_scan_by_id :: "Table option \<Rightarrow> int \<Rightarrow> env \<Rightarrow> (nat option \<times> Table option \<times> env) option" where
  "table_scan_by_id table key e =
     (case table of None \<Rightarrow> Some (None, None, e)
      | Some t \<Rightarrow> do { (r, t', e') \<leftarrow> scan_buckets_loop t key 0 e; Some (r, Some t', e') })"

definition table_collect_all :: "Table option \<Rightarrow> env \<Rightarrow> (bool \<times> RecordArray \<times> Table option \<times> env) option" where
  "table_collect_all table e = table_collect_all_sorted table e"

section \<open>Filtering\<close>

text \<open>The loop that the three condition queries share: keep the records that satisfy the test.\<close>

function filter_loop ::
    "(nat \<rightharpoonup> Record) \<Rightarrow> (Record \<Rightarrow> bool) \<Rightarrow> RecordArray \<Rightarrow> nat \<Rightarrow> RecordArray \<Rightarrow> env
     \<Rightarrow> (bool \<times> RecordArray \<times> env) option" where
  "filter_loop h test all_records index ra e =
     (if index < ra_count all_records
      then do { p \<leftarrow> rd_init (ra_cells all_records) index;
                r \<leftarrow> h p;
                if test r
                then do { (ok, ra', e') \<leftarrow> table_append_record ra p e;
                          if ok then filter_loop h test all_records (index + 1) ra' e'
                          else Some (False, table_free_record_array ra', e') }
                else filter_loop h test all_records (index + 1) ra e }
      else Some (True, ra, e))"
  by pat_completeness auto
termination
  by (relation "measure (\<lambda>(h, test, all_records, index, ra, e). ra_count all_records - index)") auto

definition collect_filtered ::
    "Table \<Rightarrow> (Record \<Rightarrow> bool) \<Rightarrow> env \<Rightarrow> (bool \<times> RecordArray \<times> Table option \<times> env) option" where
  "collect_filtered t test e =
     do { (ok, all_records, tbl, e') \<leftarrow> table_collect_all_sorted (Some t) e;
          if \<not> ok then Some (False, empty_array, tbl, e')
          else do { t' \<leftarrow> tbl;
                    (ok', ra, e'') \<leftarrow> filter_loop (rec_heap t') test all_records 0 empty_array e';
                    Some (ok', ra, tbl, e'') } }"

definition table_find_by_name_matches ::
    "Table option \<Rightarrow> string option \<Rightarrow> env \<Rightarrow> (bool \<times> RecordArray \<times> Table option \<times> env) option" where
  "table_find_by_name_matches table name e =
     (case (table, name) of
        (Some t, Some nm) \<Rightarrow> collect_filtered t (\<lambda>r. rec_name r = nm) e
      | _ \<Rightarrow> Some (False, empty_array, table, e))"

definition table_find_by_id_condition ::
    "Table option \<Rightarrow> TableComparison \<Rightarrow> int \<Rightarrow> env \<Rightarrow> (bool \<times> RecordArray \<times> Table option \<times> env) option" where
  "table_find_by_id_condition table comparison key e =
     (case table of None \<Rightarrow> Some (False, empty_array, None, e)
      | Some t \<Rightarrow>
          if comparison = TABLE_COMPARISON_EQ
          then do { (r, tbl, e') \<leftarrow> table_find_by_id table key e;
                    (case r of None \<Rightarrow> Some (True, empty_array, tbl, e')
                     | Some p \<Rightarrow> do { (ok, ra, e'') \<leftarrow> table_append_record empty_array p e';
                                      Some (ok, ra, tbl, e'') }) }
          else collect_filtered t (\<lambda>r. table_compare_int (rec_id r) comparison key) e)"

definition table_find_by_age_condition ::
    "Table option \<Rightarrow> TableComparison \<Rightarrow> int \<Rightarrow> env \<Rightarrow> (bool \<times> RecordArray \<times> Table option \<times> env) option" where
  "table_find_by_age_condition table comparison age e =
     (case table of None \<Rightarrow> Some (False, empty_array, None, e)
      | Some t \<Rightarrow> collect_filtered t (\<lambda>r. table_compare_int (rec_age r) comparison age) e)"

text \<open>The first match; the temporary array is freed before the return.\<close>

definition first_match :: "(bool \<times> RecordArray \<times> Table option \<times> env) option \<Rightarrow> (nat option \<times> Table option \<times> env) option" where
  "first_match found =
     do { (ok, ra, tbl, e) \<leftarrow> found;
          if \<not> ok then Some (None, tbl, e)
          else if ra_count ra > 0 then do { p \<leftarrow> rd_init (ra_cells ra) 0; Some (Some p, tbl, e) }
          else Some (None, tbl, e) }"

definition table_find_by_name ::
    "Table option \<Rightarrow> string option \<Rightarrow> env \<Rightarrow> (nat option \<times> Table option \<times> env) option" where
  "table_find_by_name table name e =
     (if table = None \<or> name = None then Some (None, table, e)
      else first_match (table_find_by_name_matches table name e))"

definition table_find_by_age ::
    "Table option \<Rightarrow> int \<Rightarrow> env \<Rightarrow> (nat option \<times> Table option \<times> env) option" where
  "table_find_by_age table age e =
     (if table = None then Some (None, table, e)
      else first_match (table_find_by_age_condition table TABLE_COMPARISON_EQ age e))"

section \<open>Printing\<close>

definition table_print_record :: "Record option \<Rightarrow> string" where
  "table_print_record r =
     (case r of None \<Rightarrow> []
      | Some rec \<Rightarrow> ''id='' @ show_int (rec_id rec) @ '', name='' @ [CHR 0x27] @ rec_name rec @ [CHR 0x27]
                    @ '', age='' @ show_int (rec_age rec) @ [CHR 0x0A])"

fun print_records_loop :: "(nat \<rightharpoonup> Record) \<Rightarrow> nat list \<Rightarrow> string option" where
  "print_records_loop h [] = Some []"
| "print_records_loop h (p # ps) =
     do { r \<leftarrow> h p; out \<leftarrow> print_records_loop h ps; Some (table_print_record (Some r) @ out) }"

definition table_print_records :: "(nat \<rightharpoonup> Record) \<Rightarrow> RecordArray \<Rightarrow> (nat \<times> string) option" where
  "table_print_records h ra =
     (if ra_cells ra = [] then Some (0, [])
      else do { ps \<leftarrow> cells_list (ra_cells ra) (ra_count ra);
                out \<leftarrow> print_records_loop h ps;
                Some (ra_count ra, out) })"

definition table_print_all :: "Table option \<Rightarrow> env \<Rightarrow> (nat \<times> string \<times> Table option \<times> env) option" where
  "table_print_all table e =
     (case table of None \<Rightarrow> Some (0, [], None, e)
      | Some t \<Rightarrow>
          do { (ok, ra, tbl, e') \<leftarrow> table_collect_all_sorted table e;
               if \<not> ok then Some (0, [], tbl, e')
               else do { t' \<leftarrow> tbl;
                         (printed, out) \<leftarrow> table_print_records (rec_heap t') ra;
                         Some (printed, out, tbl, e') } })"

declare collect_rows_loop.simps [simp del] collect_buckets_loop.simps [simp del]
  free_rows_loop.simps [simp del] destroy_buckets_loop.simps [simp del] create_buckets_loop.simps [simp del]
  scan_rows_loop.simps [simp del] scan_buckets_loop.simps [simp del] filter_loop.simps [simp del]

end
