(* ===== verification/Sql_Parser.thy ===== *)
theory Sql_Parser
  imports Table_Store
begin

text \<open>
  The parser of \<^verbatim>\<open>sql_processor/sql.c\<close>. The cursor into the statement is the rest of the string that
  is not yet read; a parsing function returns its result and the cursor it leaves behind, also
  when it fails, because the error message quotes the text at that cursor. Buffers that a
  failing function leaves half-written are not tracked: the code never reads them.
\<close>

section \<open>Data\<close>

definition SQL_SQLSTATE_SIZE :: nat where "SQL_SQLSTATE_SIZE = 6"
definition SQL_ERROR_MESSAGE_SIZE :: nat where "SQL_ERROR_MESSAGE_SIZE = 256"

datatype SQLStatus =
  SQL_STATUS_OK | SQL_STATUS_NOT_FOUND | SQL_STATUS_SYNTAX_ERROR | SQL_STATUS_QUERY_ERROR | SQL_STATUS_EXIT | SQL_STATUS_ERROR

datatype SQLLockMode = SQL_LOCK_NONE | SQL_LOCK_READ | SQL_LOCK_WRITE

datatype SQLCommandType =
  SQL_COMMAND_NONE | SQL_COMMAND_INSERT | SQL_COMMAND_SELECT_ALL | SQL_COMMAND_SELECT_BY_ID
  | SQL_COMMAND_SELECT_BY_NAME | SQL_COMMAND_SELECT_BY_AGE | SQL_COMMAND_EXIT

record SQLCommand =
  cmd_type :: SQLCommandType
  cmd_comparison :: TableComparison
  table_name :: string
  cmd_name :: string
  selected_column :: string
  where_column :: string
  text_value :: string
  int_value :: int
  has_where :: bool

record SQLParseResult =
  parsed :: bool
  command :: SQLCommand
  pr_status :: SQLStatus
  pr_error_code :: int
  pr_sql_state :: string
  pr_error_message :: string

section \<open>Scanning\<close>

definition sql_is_known_column :: "string \<Rightarrow> bool" where
  "sql_is_known_column column \<longleftrightarrow> strcaseeq column ''id'' \<or> strcaseeq column ''name'' \<or> strcaseeq column ''age''"

definition sql_skip_spaces :: "string \<Rightarrow> string" where
  "sql_skip_spaces cursor = dropWhile isspace cursor"

text \<open>The excerpt of at most \<open>buffer_size - 1\<close> characters up to the end of the line or statement,
  without trailing spaces.\<close>

definition rstrip :: "string \<Rightarrow> string" where
  "rstrip s = rev (dropWhile isspace (rev s))"

definition sql_build_near_excerpt :: "string \<Rightarrow> nat \<Rightarrow> string" where
  "sql_build_near_excerpt cursor buffer_size =
     (let s = sql_skip_spaces cursor;
          excerpt = rstrip (take (buffer_size - 1) (takeWhile (\<lambda>c. c \<noteq> CHR 0x0A \<and> c \<noteq> CHR 0x0D \<and> c \<noteq> CHR '';'') s))
      in if s = [] then ''end of input'' else if excerpt = [] then ''end of input'' else excerpt)"

fun match_word :: "string \<Rightarrow> string \<Rightarrow> string option" where
  "match_word start [] = Some start"
| "match_word start (w # word) =
     (if tolower (peek start) \<noteq> tolower w then None else match_word (tl start) word)"

definition word_char :: "char \<Rightarrow> bool" where
  "word_char c \<longleftrightarrow> isalnum c \<or> c = CHR ''_''"

text \<open>\<open>None\<close>: no match, and the cursor stays where it is.\<close>

definition sql_match_keyword :: "string \<Rightarrow> string \<Rightarrow> string option" where
  "sql_match_keyword cursor keyword =
     do { start \<leftarrow> match_word cursor keyword;
          if word_char (peek start) then None else Some start }"

definition sql_determine_lock_mode :: "string option \<Rightarrow> SQLLockMode" where
  "sql_determine_lock_mode input =
     (case input of None \<Rightarrow> SQL_LOCK_NONE
      | Some s \<Rightarrow>
          let cursor = sql_skip_spaces s
          in if sql_match_keyword cursor ''SELECT'' \<noteq> None then SQL_LOCK_READ
             else if sql_match_keyword cursor ''INSERT'' \<noteq> None then SQL_LOCK_WRITE
             else SQL_LOCK_NONE)"

definition sql_match_char :: "string \<Rightarrow> char \<Rightarrow> bool \<times> string" where
  "sql_match_char cursor expected =
     (let s = sql_skip_spaces cursor
      in if peek s \<noteq> expected then (False, s) else (True, tl s))"

text \<open>The identifier is read to its end even when it does not fit the buffer.\<close>

definition sql_parse_identifier :: "string \<Rightarrow> nat \<Rightarrow> string option \<times> string" where
  "sql_parse_identifier cursor buffer_size =
     (let s = sql_skip_spaces cursor;
          word = takeWhile word_char s;
          rest = dropWhile word_char s
      in if \<not> (isalpha (peek s) \<or> peek s = CHR ''_'') then (None, s)
         else if length word \<ge> buffer_size then (None, rest)
         else (Some word, rest))"

text \<open>The characters up to the closing quote; \<open>buffer\<close> is what is copied so far.\<close>

fun string_loop :: "string \<Rightarrow> string \<Rightarrow> nat \<Rightarrow> string option \<times> string" where
  "string_loop [] buffer buffer_size = (None, [])"
| "string_loop (c # cs) buffer buffer_size =
     (if c = CHR 0x27 then (Some buffer, cs)
      else if length buffer + 1 \<ge> buffer_size then (None, c # cs)
      else string_loop cs (buffer @ [c]) buffer_size)"

definition sql_parse_string :: "string \<Rightarrow> nat \<Rightarrow> string option \<times> string" where
  "sql_parse_string cursor buffer_size =
     (let s = sql_skip_spaces cursor
      in if peek s \<noteq> CHR 0x27 then (None, s) else string_loop (tl s) [] buffer_size)"

definition sql_parse_int :: "string \<Rightarrow> int option \<times> string" where
  "sql_parse_int cursor =
     (let s = sql_skip_spaces cursor
      in if \<not> (isdigit (peek s) \<or> peek s = CHR ''-'') then (None, s)
         else case strtol s of (v, end_ptr) \<Rightarrow>
                if end_ptr = s then (None, s) else (Some (to_int v), end_ptr))"

definition sql_parse_comparison :: "string \<Rightarrow> TableComparison option \<times> string" where
  "sql_parse_comparison cursor =
     (let s = sql_skip_spaces cursor
      in if peek s = CHR ''>'' \<and> peek (tl s) = CHR ''='' then (Some TABLE_COMPARISON_GE, drop 2 s)
         else if peek s = CHR ''<'' \<and> peek (tl s) = CHR ''='' then (Some TABLE_COMPARISON_LE, drop 2 s)
         else if peek s = CHR ''>'' then (Some TABLE_COMPARISON_GT, tl s)
         else if peek s = CHR ''<'' then (Some TABLE_COMPARISON_LT, tl s)
         else if peek s = CHR ''='' then (Some TABLE_COMPARISON_EQ, tl s)
         else (None, s))"

definition sql_match_statement_end :: "string \<Rightarrow> bool \<times> string" where
  "sql_match_statement_end cursor =
     (let s = sql_skip_spaces cursor;
          s' = sql_skip_spaces (if peek s = CHR '';'' then tl s else s)
      in (s' = [], s'))"

section \<open>Results and errors\<close>

definition empty_command :: SQLCommand where
  "empty_command = \<lparr>cmd_type = SQL_COMMAND_NONE, cmd_comparison = TABLE_COMPARISON_EQ, table_name = [], cmd_name = [],
     selected_column = [], where_column = [], text_value = [], int_value = 0, has_where = False\<rparr>"

definition sql_parse_result_init :: SQLParseResult where
  "sql_parse_result_init = \<lparr>parsed = False, command = empty_command, pr_status = SQL_STATUS_SYNTAX_ERROR,
     pr_error_code = 0, pr_sql_state = [], pr_error_message = []\<rparr>"

definition sql_parse_result_set_error :: "SQLParseResult \<Rightarrow> SQLStatus \<Rightarrow> int \<Rightarrow> string \<Rightarrow> string \<Rightarrow> SQLParseResult" where
  "sql_parse_result_set_error result status ecode state message =
     result\<lparr>parsed := False, command := (command result)\<lparr>cmd_type := SQL_COMMAND_NONE\<rparr>, pr_status := status,
       pr_error_code := ecode, pr_sql_state := bounded SQL_SQLSTATE_SIZE state,
       pr_error_message := bounded SQL_ERROR_MESSAGE_SIZE message\<rparr>"

definition syntax_message :: "string \<Rightarrow> string" where
  "syntax_message excerpt =
     ''ERROR 1064 (42000): You have an error in your SQL syntax; check the manual that corresponds to your sql processor2 version for the right syntax to use near ''
     @ [CHR 0x27] @ excerpt @ [CHR 0x27] @ '' at line 1''"

definition sql_parse_set_syntax_error :: "SQLParseResult \<Rightarrow> string \<Rightarrow> SQLParseResult" where
  "sql_parse_set_syntax_error result cursor =
     (sql_parse_result_set_error result SQL_STATUS_SYNTAX_ERROR 1064 ''42000'' [])
       \<lparr>pr_error_message := bounded SQL_ERROR_MESSAGE_SIZE (syntax_message (sql_build_near_excerpt cursor 64))\<rparr>"

definition sql_parse_set_unknown_column_error :: "SQLParseResult \<Rightarrow> string \<Rightarrow> string \<Rightarrow> SQLParseResult" where
  "sql_parse_set_unknown_column_error result column clause_name =
     (sql_parse_result_set_error result SQL_STATUS_QUERY_ERROR 1054 ''42S22'' [])
       \<lparr>pr_error_message := bounded SQL_ERROR_MESSAGE_SIZE
          (''ERROR 1054 (42S22): Unknown column '' @ [CHR 0x27] @ column @ [CHR 0x27] @ '' in ''
           @ [CHR 0x27] @ clause_name @ [CHR 0x27])\<rparr>"

section \<open>Statements\<close>

text \<open>Marking a statement as parsed: \<open>parsed = 1; status = SQL_STATUS_OK\<close> with its command type.\<close>

definition sql_accept :: "SQLParseResult \<Rightarrow> SQLCommandType \<Rightarrow> SQLParseResult" where
  "sql_accept result ty =
     result\<lparr>parsed := True, command := (command result)\<lparr>cmd_type := ty\<rparr>, pr_status := SQL_STATUS_OK\<rparr>"

text \<open>The value list of an insertion, from the opening parenthesis on.\<close>

definition parse_insert_values :: "string \<Rightarrow> string \<Rightarrow> SQLParseResult \<Rightarrow> SQLParseResult" where
  "parse_insert_values c0 tname result =
     (case sql_match_char c0 CHR ''('' of (ok1, c1) \<Rightarrow>
      if \<not> ok1 then sql_parse_set_syntax_error result c1 else
      case sql_parse_string c1 RECORD_NAME_SIZE of
        (None, c2) \<Rightarrow> sql_parse_set_syntax_error result c2
      | (Some nm, c2) \<Rightarrow>
      let r1 = result\<lparr>command := (command result)\<lparr>cmd_name := nm\<rparr>\<rparr> in
      case sql_match_char c2 CHR '','' of (ok3, c3) \<Rightarrow>
      if \<not> ok3 then sql_parse_set_syntax_error r1 c3 else
      case sql_parse_int c3 of
        (None, c4) \<Rightarrow> sql_parse_set_syntax_error r1 c4
      | (Some v, c4) \<Rightarrow>
      let r2 = r1\<lparr>command := (command r1)\<lparr>int_value := v\<rparr>\<rparr> in
      case sql_match_char c4 CHR '')'' of (ok5, c5) \<Rightarrow>
      if \<not> ok5 then sql_parse_set_syntax_error r2 c5 else
      case sql_match_statement_end c5 of (ok6, c6) \<Rightarrow>
      if \<not> ok6 then sql_parse_set_syntax_error r2 c6 else
      sql_accept (r2\<lparr>command := (command r2)\<lparr>table_name := tname\<rparr>\<rparr>) SQL_COMMAND_INSERT)"

definition sql_parse_insert :: "string \<Rightarrow> SQLParseResult \<Rightarrow> SQLParseResult" where
  "sql_parse_insert input result =
     (case sql_match_keyword input ''INSERT'' of
        None \<Rightarrow> result
      | Some c0 \<Rightarrow>
      case sql_match_keyword (sql_skip_spaces c0) ''INTO'' of
        None \<Rightarrow> sql_parse_set_syntax_error result (sql_skip_spaces c0)
      | Some c1 \<Rightarrow>
      case sql_parse_identifier c1 32 of
        (None, c2) \<Rightarrow> sql_parse_set_syntax_error result c2
      | (Some tname, c2) \<Rightarrow>
      if \<not> strcaseeq tname ''users'' then sql_parse_set_syntax_error result tname else
      case sql_match_keyword (sql_skip_spaces c2) ''VALUES'' of
        None \<Rightarrow> sql_parse_set_syntax_error result (sql_skip_spaces c2)
      | Some c3 \<Rightarrow> parse_insert_values c3 tname result)"

text \<open>\<open>sql_parse_int(...) && sql_match_statement_end(...)\<close>, and the same with a string: the value and
  the cursor at which the error is reported.\<close>

definition int_then_end :: "string \<Rightarrow> int option \<times> bool \<times> string" where
  "int_then_end cursor =
     (case sql_parse_int cursor of
        (None, c) \<Rightarrow> (None, False, c)
      | (Some v, c) \<Rightarrow> (case sql_match_statement_end c of (ok, c') \<Rightarrow> (Some v, ok, c')))"

definition string_then_end :: "string \<Rightarrow> nat \<Rightarrow> string option \<times> bool \<times> string" where
  "string_then_end cursor n =
     (case sql_parse_string cursor n of
        (None, c) \<Rightarrow> (None, False, c)
      | (Some v, c) \<Rightarrow> (case sql_match_statement_end c of (ok, c') \<Rightarrow> (Some v, ok, c')))"

text \<open>The condition of a selection, from the column behind WHERE on.\<close>

definition parse_where :: "string \<Rightarrow> string \<Rightarrow> SQLParseResult \<Rightarrow> SQLParseResult" where
  "parse_where c0 tname result =
     (case sql_parse_identifier c0 32 of
        (None, c1) \<Rightarrow> sql_parse_set_syntax_error result c1
      | (Some column, comparison_cursor) \<Rightarrow>
      case sql_parse_comparison comparison_cursor of
        (None, c2) \<Rightarrow> sql_parse_set_syntax_error result c2
      | (Some cmp, c2) \<Rightarrow>
      let r1 = result\<lparr>command := (command result)\<lparr>cmd_comparison := cmp, table_name := tname,
                 where_column := column, has_where := True\<rparr>\<rparr> in
      if strcaseeq column ''id'' \<or> strcaseeq column ''age'' then
        (case int_then_end c2 of
           (None, ok, c3) \<Rightarrow> sql_parse_set_syntax_error r1 c3
         | (Some v, ok, c3) \<Rightarrow>
             let r2 = r1\<lparr>command := (command r1)\<lparr>int_value := v\<rparr>\<rparr> in
             if \<not> ok then sql_parse_set_syntax_error r2 c3
             else sql_accept r2 (if strcaseeq column ''id'' then SQL_COMMAND_SELECT_BY_ID else SQL_COMMAND_SELECT_BY_AGE))
      else if strcaseeq column ''name'' then
        (if cmp \<noteq> TABLE_COMPARISON_EQ then sql_parse_set_syntax_error r1 comparison_cursor
         else case string_then_end c2 RECORD_NAME_SIZE of
           (None, ok, c3) \<Rightarrow> sql_parse_set_syntax_error r1 c3
         | (Some v, ok, c3) \<Rightarrow>
             let r2 = r1\<lparr>command := (command r1)\<lparr>text_value := v\<rparr>\<rparr> in
             if \<not> ok then sql_parse_set_syntax_error r2 c3
             else sql_accept r2 SQL_COMMAND_SELECT_BY_NAME)
      else sql_parse_set_unknown_column_error r1 column ''where clause'')"

definition sql_parse_select :: "string \<Rightarrow> SQLParseResult \<Rightarrow> SQLParseResult" where
  "sql_parse_select input result =
     (case sql_match_keyword input ''SELECT'' of
        None \<Rightarrow> result
      | Some c0 \<Rightarrow>
      case sql_match_char (sql_skip_spaces c0) CHR ''*'' of
        (False, c1) \<Rightarrow>
          (case sql_parse_identifier c1 32 of
             (None, c2) \<Rightarrow> sql_parse_set_syntax_error result c2
           | (Some column, c2) \<Rightarrow>
               if \<not> sql_is_known_column column
               then sql_parse_set_unknown_column_error result column ''field list''
               else sql_parse_set_syntax_error result c2)
      | (True, c1) \<Rightarrow>
      case sql_match_keyword (sql_skip_spaces c1) ''FROM'' of
        None \<Rightarrow> sql_parse_set_syntax_error result (sql_skip_spaces c1)
      | Some c2 \<Rightarrow>
      case sql_parse_identifier c2 32 of
        (None, c3) \<Rightarrow> sql_parse_set_syntax_error result c3
      | (Some tname, c3) \<Rightarrow>
      if \<not> strcaseeq tname ''users'' then sql_parse_set_syntax_error result tname else
      case sql_match_statement_end (sql_skip_spaces c3) of
        (True, c4) \<Rightarrow> sql_accept (result\<lparr>command := (command result)\<lparr>table_name := tname\<rparr>\<rparr>) SQL_COMMAND_SELECT_ALL
      | (False, c4) \<Rightarrow>
      case sql_match_keyword c4 ''WHERE'' of
        None \<Rightarrow> sql_parse_set_syntax_error result c4
      | Some c5 \<Rightarrow> parse_where c5 tname result)"

text \<open>The return value of \<open>sql_parse\<close> is the field \<open>parsed\<close> of the result it fills in.\<close>

definition sql_parse :: "string option \<Rightarrow> SQLParseResult" where
  "sql_parse input =
     (case input of
        None \<Rightarrow> sql_parse_result_set_error sql_parse_result_init SQL_STATUS_ERROR 0 [] ''Internal database error''
      | Some s \<Rightarrow>
          let cursor = sql_skip_spaces s;
              leave = (case sql_match_keyword cursor ''EXIT'' of
                         Some c \<Rightarrow> Some c
                       | None \<Rightarrow> sql_match_keyword cursor ''QUIT'')
          in case leave of
               Some c \<Rightarrow>
                 (case sql_match_statement_end c of
                    (True, c') \<Rightarrow> sql_parse_result_init\<lparr>parsed := True,
                        command := empty_command\<lparr>cmd_type := SQL_COMMAND_EXIT\<rparr>, pr_status := SQL_STATUS_EXIT\<rparr>
                  | (False, c') \<Rightarrow> sql_parse_set_syntax_error sql_parse_result_init c')
             | None \<Rightarrow>
                 let r1 = sql_parse_insert s sql_parse_result_init
                 in if parsed r1 \<or> pr_error_message r1 \<noteq> [] then r1
                    else let r2 = sql_parse_select s r1
                         in if parsed r2 \<or> pr_error_message r2 \<noteq> [] then r2
                            else sql_parse_set_syntax_error r2 cursor)"

fun sql_command_lock_mode :: "SQLCommand option \<Rightarrow> SQLLockMode" where
  "sql_command_lock_mode None = SQL_LOCK_NONE"
| "sql_command_lock_mode (Some c) =
     (case cmd_type c of
        SQL_COMMAND_INSERT \<Rightarrow> SQL_LOCK_WRITE
      | SQL_COMMAND_SELECT_ALL \<Rightarrow> SQL_LOCK_READ
      | SQL_COMMAND_SELECT_BY_ID \<Rightarrow> SQL_LOCK_READ
      | SQL_COMMAND_SELECT_BY_NAME \<Rightarrow> SQL_LOCK_READ
      | SQL_COMMAND_SELECT_BY_AGE \<Rightarrow> SQL_LOCK_READ
      | SQL_COMMAND_EXIT \<Rightarrow> SQL_LOCK_NONE
      | SQL_COMMAND_NONE \<Rightarrow> SQL_LOCK_NONE)"

end
