(* ===== verification/Sql_Engine.thy ===== *)
theory Sql_Engine
  imports Sql_Parser Table_Store
begin

text \<open>
  Execution of parsed statements (\<^verbatim>\<open>sql_processor/sql.c\<close>, second half) and the interactive loop of
  \<^verbatim>\<open>sql_processor/main.c\<close>. Standard input is a string that is consumed line by line as \<^verbatim>\<open>fgets\<close>
  does; what the program prints is returned.
\<close>

section \<open>Results\<close>

datatype SQLAction = SQL_ACTION_NONE | SQL_ACTION_INSERT | SQL_ACTION_SELECT_ROWS

record SQLResult =
  sr_status :: SQLStatus
  sr_action :: SQLAction
  sr_record :: "nat option"
  sr_records :: "nat option list"
  sr_inserted_id :: int
  sr_row_count :: nat
  sr_error_code :: int
  sr_sql_state :: string
  sr_error_message :: string

definition sql_make_result :: "SQLStatus \<Rightarrow> SQLAction \<Rightarrow> SQLResult" where
  "sql_make_result status action =
     \<lparr>sr_status = status, sr_action = action, sr_record = None, sr_records = [], sr_inserted_id = 0, sr_row_count = 0,
      sr_error_code = 0, sr_sql_state = [], sr_error_message = []\<rparr>"

definition sql_result_destroy :: "SQLResult \<Rightarrow> SQLResult" where
  "sql_result_destroy result =
     result\<lparr>sr_records := [], sr_record := None, sr_inserted_id := 0, sr_row_count := 0, sr_action := SQL_ACTION_NONE,
       sr_status := SQL_STATUS_OK, sr_error_code := 0, sr_sql_state := [], sr_error_message := []\<rparr>"

section \<open>Execution\<close>

definition sql_execute_insert_plan ::
    "Table option \<Rightarrow> SQLCommand option \<Rightarrow> env \<Rightarrow> (SQLResult \<times> Table option \<times> env) option" where
  "sql_execute_insert_plan table cmd e =
     (let result = sql_make_result SQL_STATUS_ERROR SQL_ACTION_NONE in
      case (table, cmd) of
        (Some t, Some c) \<Rightarrow>
          if cmd_type c \<noteq> SQL_COMMAND_INSERT then Some (result, table, e)
          else do { (r, tbl, e') \<leftarrow> table_insert table (Some (cmd_name c)) (int_value c) e;
                    (case r of None \<Rightarrow> Some (result, tbl, e')
                     | Some p \<Rightarrow>
                         do { t' \<leftarrow> tbl;
                              rec \<leftarrow> rec_heap t' p;
                              Some (result\<lparr>sr_status := SQL_STATUS_OK, sr_action := SQL_ACTION_INSERT, sr_record := Some p,
                                      sr_inserted_id := rec_id rec, sr_row_count := 1\<rparr>, tbl, e') }) }
      | _ \<Rightarrow> Some (result, table, e))"

text \<open>The query of a selection; \<open>None\<close> for a command that is no selection.\<close>

definition select_rows ::
    "Table option \<Rightarrow> SQLCommand \<Rightarrow> env \<Rightarrow> (bool \<times> RecordArray \<times> Table option \<times> env) option option" where
  "select_rows table c e =
     (case cmd_type c of
        SQL_COMMAND_SELECT_ALL \<Rightarrow> Some (table_collect_all table e)
      | SQL_COMMAND_SELECT_BY_ID \<Rightarrow> Some (table_find_by_id_condition table (cmd_comparison c) (int_value c) e)
      | SQL_COMMAND_SELECT_BY_NAME \<Rightarrow> Some (table_find_by_name_matches table (Some (text_value c)) e)
      | SQL_COMMAND_SELECT_BY_AGE \<Rightarrow> Some (table_find_by_age_condition table (cmd_comparison c) (int_value c) e)
      | _ \<Rightarrow> None)"

definition sql_execute_select_plan ::
    "Table option \<Rightarrow> SQLCommand option \<Rightarrow> env \<Rightarrow> (SQLResult \<times> Table option \<times> env) option" where
  "sql_execute_select_plan table cmd e =
     (let result = sql_make_result SQL_STATUS_ERROR SQL_ACTION_NONE in
      case (table, cmd) of
        (Some t, Some c) \<Rightarrow>
          (case select_rows table c e of
             None \<Rightarrow> Some (result, table, e)
           | Some query \<Rightarrow>
               do { (ok, ra, tbl, e') \<leftarrow> query;
                    let r1 = result\<lparr>sr_records := ra_cells ra, sr_row_count := ra_count ra\<rparr>;
                    if \<not> ok then Some (r1, tbl, e')
                    else do { first \<leftarrow> (if ra_count ra > 0 then do { p \<leftarrow> rd_init (ra_cells ra) 0; Some (Some p) } else Some None);
                              Some (r1\<lparr>sr_record := first,
                                      sr_status := (if ra_count ra = 0 then SQL_STATUS_NOT_FOUND else SQL_STATUS_OK),
                                      sr_action := SQL_ACTION_SELECT_ROWS\<rparr>, tbl, e') } })
      | _ \<Rightarrow> Some (result, table, e))"

definition sql_execute_plan ::
    "Table option \<Rightarrow> SQLCommand option \<Rightarrow> env \<Rightarrow> (SQLResult \<times> Table option \<times> env) option" where
  "sql_execute_plan table cmd e =
     (case cmd of
        None \<Rightarrow> Some (sql_make_result SQL_STATUS_ERROR SQL_ACTION_NONE, table, e)
      | Some c \<Rightarrow>
          (case cmd_type c of
             SQL_COMMAND_INSERT \<Rightarrow> sql_execute_insert_plan table cmd e
           | SQL_COMMAND_SELECT_ALL \<Rightarrow> sql_execute_select_plan table cmd e
           | SQL_COMMAND_SELECT_BY_ID \<Rightarrow> sql_execute_select_plan table cmd e
           | SQL_COMMAND_SELECT_BY_NAME \<Rightarrow> sql_execute_select_plan table cmd e
           | SQL_COMMAND_SELECT_BY_AGE \<Rightarrow> sql_execute_select_plan table cmd e
           | SQL_COMMAND_EXIT \<Rightarrow> Some (sql_make_result SQL_STATUS_EXIT SQL_ACTION_NONE, table, e)
           | SQL_COMMAND_NONE \<Rightarrow> Some (sql_make_result SQL_STATUS_ERROR SQL_ACTION_NONE, table, e)))"

definition sql_execute :: "Table option \<Rightarrow> string option \<Rightarrow> env \<Rightarrow> (SQLResult \<times> Table option \<times> env) option" where
  "sql_execute table input e =
     (let pr = sql_parse input in
      if \<not> parsed pr
      then Some ((sql_make_result (pr_status pr) SQL_ACTION_NONE)
                   \<lparr>sr_error_code := pr_error_code pr, sr_sql_state := bounded SQL_SQLSTATE_SIZE (pr_sql_state pr),
                    sr_error_message := bounded SQL_ERROR_MESSAGE_SIZE (pr_error_message pr)\<rparr>, table, e)
      else do { (result, tbl, e') \<leftarrow> sql_execute_plan table (Some (command pr)) e;
                Some (if cmd_type (command pr) = SQL_COMMAND_EXIT then result\<lparr>sr_status := SQL_STATUS_EXIT\<rparr> else result,
                      tbl, e') })"

section \<open>The interactive loop\<close>

definition INPUT_BUFFER_SIZE :: nat where "INPUT_BUFFER_SIZE = 256"

text \<open>\<open>fgets(buffer, n, stdin)\<close>: at most \<open>n - 1\<close> characters, up to and including a newline; \<open>None\<close> at
  the end of the input.\<close>

fun line_length :: "nat \<Rightarrow> string \<Rightarrow> nat" where
  "line_length 0 s = 0"
| "line_length (Suc n) [] = 0"
| "line_length (Suc n) (c # s) = (if c = CHR 0x0A then 1 else Suc (line_length n s))"

definition fgets :: "nat \<Rightarrow> string \<Rightarrow> (string \<times> string) option" where
  "fgets n stdin =
     (if stdin = [] then None
      else Some (take (line_length (n - 1) stdin) stdin, drop (line_length (n - 1) stdin) stdin))"

definition banner :: string where
  "banner = ''Simple SQL Processor with B+ Tree Index'' @ CHR 0x0A # ''Supported statements:'' @ CHR 0x0A #
     ''  INSERT INTO users VALUES ('' @ CHR 0x27 # ''Alice'' @ CHR 0x27 # '', 20);'' @ CHR 0x0A #
     ''  SELECT * FROM users;'' @ CHR 0x0A # ''  SELECT * FROM users WHERE id = 1;'' @ CHR 0x0A #
     ''  SELECT * FROM users WHERE id >= 10;'' @ CHR 0x0A #
     ''  SELECT * FROM users WHERE name = '' @ CHR 0x27 # ''Alice'' @ CHR 0x27 # '';'' @ CHR 0x0A #
     ''  SELECT * FROM users WHERE age = 20;'' @ CHR 0x0A # ''  SELECT * FROM users WHERE age > 20;'' @ CHR 0x0A #
     ''  SELECT * FROM users WHERE age <= 20;'' @ CHR 0x0A # ''Type EXIT or QUIT to leave.'' @ [CHR 0x0A]"

text \<open>The rows of a result as an array.\<close>

definition result_array :: "SQLResult \<Rightarrow> RecordArray" where
  "result_array r = \<lparr>ra_cells = sr_records r, ra_count = sr_row_count r, ra_capacity = length (sr_records r)\<rparr>"

text \<open>What one result prints; the rows of a selection are read through the record heap.\<close>

definition print_result :: "(nat \<rightharpoonup> Record) \<Rightarrow> SQLResult \<Rightarrow> string option" where
  "print_result h result =
     (if sr_status result = SQL_STATUS_OK then
        (if sr_action result = SQL_ACTION_INSERT
         then Some (''Inserted row with id = '' @ show_int (sr_inserted_id result) @ [CHR 0x0A])
         else if sr_action result = SQL_ACTION_SELECT_ROWS
         then do { (n, out) \<leftarrow> table_print_records h (result_array result);
                   Some (if n = 0 then ''No rows'' @ [CHR 0x0A] else out) }
         else Some (''Done'' @ [CHR 0x0A]))
      else if sr_status result = SQL_STATUS_NOT_FOUND then Some (''Not found'' @ [CHR 0x0A])
      else if sr_error_message result \<noteq> [] then Some (sr_error_message result @ [CHR 0x0A])
      else if sr_status result = SQL_STATUS_SYNTAX_ERROR then Some (''Syntax error'' @ [CHR 0x0A])
      else Some (''Execution error'' @ [CHR 0x0A]))"

text \<open>The loop reads a line, executes it up to a zero byte in it, prints the result and releases it.\<close>

lemma line_length_pos: "0 < n \<Longrightarrow> s \<noteq> [] \<Longrightarrow> 0 < line_length n s"
  by (cases n; cases s) auto

function repl_loop :: "Table \<Rightarrow> string \<Rightarrow> env \<Rightarrow> (string \<times> Table \<times> env) option" where
  "repl_loop t stdin e =
     (case fgets INPUT_BUFFER_SIZE stdin of
        None \<Rightarrow> Some (''sql> '', t, e)
      | Some (input, rest) \<Rightarrow>
          do { (result, tbl, e1) \<leftarrow> sql_execute (Some t) (Some (takeWhile (\<lambda>c. c \<noteq> NUL) input)) e;
               t1 \<leftarrow> tbl;
               if sr_status result = SQL_STATUS_EXIT then Some (''sql> '', t1, e1)
               else do { out \<leftarrow> print_result (rec_heap t1) result;
                         (out', t2, e2) \<leftarrow> repl_loop t1 rest e1;
                         Some (''sql> '' @ out @ out', t2, e2) } })"
  by pat_completeness auto
termination
proof (relation "measure (\<lambda>(t, stdin, e). length stdin)")
  fix t :: Table and stdin :: string and e :: env and x2 input rest
  assume f: "fgets INPUT_BUFFER_SIZE stdin = Some x2" "(input, rest) = x2"
  then have "stdin \<noteq> []" "rest = drop (line_length 255 stdin) stdin"
    by (auto simp: fgets_def INPUT_BUFFER_SIZE_def split: if_splits)
  then show "((t', rest, e'), t, stdin, e) \<in> measure (\<lambda>(t, stdin, e). length stdin)" for t' :: Table and e' :: env
    using line_length_pos [of 255 stdin] by (cases stdin) auto
qed simp

text \<open>\<open>main\<close>: the exit code, what was printed and the records still allocated at the end.\<close>

definition repl_main :: "string \<Rightarrow> env \<Rightarrow> (nat \<times> string \<times> (nat \<rightharpoonup> Record)) option" where
  "repl_main stdin e =
     do { (tbl, e1) \<leftarrow> table_create e;
          (case tbl of
             None \<Rightarrow> Some (1, [], Map.empty)
           | Some t \<Rightarrow>
               do { (out, t', e2) \<leftarrow> repl_loop t stdin e1;
                    h \<leftarrow> table_destroy (Some t');
                    Some (0, banner @ out, h) }) }"

declare repl_loop.simps [simp del]

end
