(* ===== verification/Sql_Correct.thy ===== *)
theory Sql_Correct
  imports Sql_Parser
begin

text \<open>
  Facts about the SQL parser: every scanning function only moves the cursor forward, every
  statement is either accepted with a command that fits its buffers or rejected with a
  message, and the parser reads back what a printer of statements writes.
\<close>

section \<open>Scanning functions move forward\<close>

text \<open>The contract of a scanning function: what it leaves is a suffix of what it got.\<close>

locale cursor_parser =
  fixes scan :: "string \<Rightarrow> 'a \<times> string"
  assumes scan_suffix: "\<exists>read. s = read @ snd (scan s)"
begin

lemma scan_length: "length (snd (scan s)) \<le> length s"
  using scan_suffix [of s] by (metis length_append le_add2)

lemma scan_set: "set (snd (scan s)) \<subseteq> set s"
  using scan_suffix [of s] by (metis set_append Un_upper2)

end

lemma skip_suffix: "\<exists>read. s = read @ sql_skip_spaces s"
  unfolding sql_skip_spaces_def by (metis takeWhile_dropWhile_id)

lemma dropWhile_suffix: "\<exists>read. s = read @ dropWhile P s"
  by (rule exI [of _ "takeWhile P s"]) simp

lemma tl_suffix: "\<exists>read. s = read @ tl s"
  by (cases s) (auto intro: exI [of _ "[_]"])

lemma suffix_compose: "\<exists>read. s = read @ t \<Longrightarrow> \<exists>read. t = read @ u \<Longrightarrow> \<exists>read. s = read @ u" for s :: string
  by (metis append_assoc)

lemma string_loop_suffix: "\<exists>read. s = read @ snd (string_loop s b n)"
proof (induction s b n rule: string_loop.induct)
  case (2 c cs b n)
  then show ?case using Cons_eq_appendI by (auto intro: exI [of _ "[c]"]) fastforce
qed simp

interpretation ch: cursor_parser "\<lambda>s. sql_match_char s c" for c
  by unfold_locales (auto simp: sql_match_char_def Let_def intro: skip_suffix suffix_compose [OF skip_suffix tl_suffix])

interpretation ident: cursor_parser "\<lambda>s. sql_parse_identifier s n" for n
proof unfold_locales
  fix s
  have "\<exists>read. sql_skip_spaces s = read @ dropWhile word_char (sql_skip_spaces s)" by (metis takeWhile_dropWhile_id)
  from suffix_compose [OF skip_suffix this] show "\<exists>read. s = read @ snd (sql_parse_identifier s n)"
    using skip_suffix [of s] by (auto simp: sql_parse_identifier_def Let_def)
qed

interpretation str: cursor_parser "\<lambda>s. sql_parse_string s n" for n
proof unfold_locales
  fix s
  show "\<exists>read. s = read @ snd (sql_parse_string s n)"
    using skip_suffix [of s] suffix_compose [OF suffix_compose [OF skip_suffix tl_suffix] string_loop_suffix]
    by (auto simp: sql_parse_string_def Let_def)
qed

lemma strtol_suffix: "\<exists>read. s = read @ snd (strtol s)"
proof -
  let ?s1 = "dropWhile isspace s"
  let ?s2 = "if peek ?s1 = CHR ''-'' \<or> peek ?s1 = CHR ''+'' then tl ?s1 else ?s1"
  have "\<exists>read. ?s1 = read @ ?s2" using tl_suffix [of ?s1] by auto
  then have "\<exists>read. s = read @ dropWhile isdigit ?s2"
    by (rule suffix_compose [OF suffix_compose [OF dropWhile_suffix] dropWhile_suffix])
  then show ?thesis by (auto simp: strtol_def Let_def)
qed

interpretation num: cursor_parser sql_parse_int
proof unfold_locales
  fix s
  show "\<exists>read. s = read @ snd (sql_parse_int s)"
    using skip_suffix [of s] suffix_compose [OF skip_suffix strtol_suffix, of s]
    by (auto simp: sql_parse_int_def Let_def split: prod.splits)
qed

interpretation cmp: cursor_parser sql_parse_comparison
proof unfold_locales
  fix s
  have "\<exists>read. sql_skip_spaces s = read @ drop 2 (sql_skip_spaces s)" by (metis append_take_drop_id)
  from suffix_compose [OF skip_suffix this] show "\<exists>read. s = read @ snd (sql_parse_comparison s)"
    using skip_suffix [of s] suffix_compose [OF skip_suffix tl_suffix, of s]
    by (auto simp: sql_parse_comparison_def Let_def)
qed

interpretation fin: cursor_parser sql_match_statement_end
proof unfold_locales
  fix s
  show "\<exists>read. s = read @ snd (sql_match_statement_end s)"
    using suffix_compose [OF skip_suffix skip_suffix, of s]
      suffix_compose [OF suffix_compose [OF skip_suffix tl_suffix] skip_suffix, of s]
    by (auto simp: sql_match_statement_end_def Let_def)
qed

section \<open>Sizes\<close>

lemma identifier_length: "sql_parse_identifier s n = (Some w, r) \<Longrightarrow> length w < n"
  by (auto simp: sql_parse_identifier_def Let_def split: if_splits)

lemma string_loop_length: "length b < n \<Longrightarrow> string_loop s b n = (Some w, r) \<Longrightarrow> length w < n"
  by (induction s b n rule: string_loop.induct) (auto split: if_splits)

lemma string_length: "0 < n \<Longrightarrow> sql_parse_string s n = (Some w, r) \<Longrightarrow> length w < n"
  using string_loop_length [of "[]" n] by (auto simp: sql_parse_string_def Let_def split: if_splits)

lemma int_range: "sql_parse_int s = (Some v, r) \<Longrightarrow> INT_MIN \<le> v \<and> v \<le> INT_MAX"
  using to_int_range by (auto simp: sql_parse_int_def Let_def split: if_splits prod.splits)

lemma excerpt_length: "length (sql_build_near_excerpt s 64) \<le> 63"
proof -
  have "length (rstrip x) \<le> length x" for x by (metis length_rev length_dropWhile_le rstrip_def)
  moreover have "length (take 63 x) \<le> 63" for x :: string by simp
  ultimately have "length (rstrip (take 63 x)) \<le> 63" for x by (meson order_trans)
  then show ?thesis by (simp add: sql_build_near_excerpt_def Let_def)
qed

section \<open>Accepted and rejected statements\<close>

definition accepted :: "SQLParseResult \<Rightarrow> bool" where
  "accepted r \<longleftrightarrow>
     parsed r \<and> pr_error_message r = [] \<and> pr_error_code r = 0 \<and>
     (if cmd_type (command r) = SQL_COMMAND_EXIT then pr_status r = SQL_STATUS_EXIT else pr_status r = SQL_STATUS_OK) \<and>
     cmd_type (command r) \<noteq> SQL_COMMAND_NONE \<and>
     length (cmd_name (command r)) \<le> 63 \<and> length (text_value (command r)) \<le> 63 \<and>
     length (table_name (command r)) \<le> 31 \<and> length (where_column (command r)) \<le> 31 \<and>
     INT_MIN \<le> int_value (command r) \<and> int_value (command r) \<le> INT_MAX"

definition rejected :: "SQLParseResult \<Rightarrow> bool" where
  "rejected r \<longleftrightarrow>
     \<not> parsed r \<and> cmd_type (command r) = SQL_COMMAND_NONE \<and>
     (pr_status r = SQL_STATUS_SYNTAX_ERROR \<and> pr_error_code r = 1064 \<and> pr_sql_state r = ''42000'' \<and>
        (\<exists>excerpt. length excerpt \<le> 63 \<and> pr_error_message r = syntax_message excerpt)
      \<or> pr_status r = SQL_STATUS_QUERY_ERROR \<and> pr_error_code r = 1054 \<and> pr_sql_state r = ''42S22'' \<and>
        (\<exists>column clause. length column \<le> 31 \<and> length clause \<le> 12 \<and> pr_error_message r =
           ''ERROR 1054 (42S22): Unknown column '' @ [CHR 0x27] @ column @ [CHR 0x27] @ '' in ''
           @ [CHR 0x27] @ clause @ [CHR 0x27]))"

lemma rejected_syntax [simp, intro]: "rejected (sql_parse_set_syntax_error r c)"
proof -
  have "length (syntax_message (sql_build_near_excerpt c 64)) < 256"
    using excerpt_length [of c] by (simp add: syntax_message_def)
  then show ?thesis using excerpt_length [of c]
    by (auto simp: rejected_def sql_parse_set_syntax_error_def sql_parse_result_set_error_def bounded_id
        SQL_ERROR_MESSAGE_SIZE_def SQL_SQLSTATE_SIZE_def)
qed

lemma rejected_unknown_column:
  "length column \<le> 31 \<Longrightarrow> length clause \<le> 12 \<Longrightarrow> rejected (sql_parse_set_unknown_column_error r column clause)"
  by (auto simp: rejected_def sql_parse_set_unknown_column_error_def sql_parse_result_set_error_def bounded_id
      SQL_ERROR_MESSAGE_SIZE_def SQL_SQLSTATE_SIZE_def)

lemma rejected_message: "rejected r \<Longrightarrow> pr_error_message r \<noteq> []"
  by (auto simp: rejected_def syntax_message_def)

lemma accepted_accept:
  assumes "pr_error_message r = []" and "pr_error_code r = 0" and "ty \<noteq> SQL_COMMAND_NONE" and "ty \<noteq> SQL_COMMAND_EXIT"
    and "length (cmd_name (command r)) \<le> 63" and "length (text_value (command r)) \<le> 63"
    and "length (table_name (command r)) \<le> 31" and "length (where_column (command r)) \<le> 31"
    and "INT_MIN \<le> int_value (command r)" and "int_value (command r) \<le> INT_MAX"
  shows "accepted (sql_accept r ty)" and "cmd_type (command (sql_accept r ty)) = ty"
  using assms by (simp_all add: accepted_def sql_accept_def)

lemmas parse_init = sql_parse_result_init_def empty_command_def INT_MIN_def INT_MAX_def

lemma insert_values_outcome:
  assumes "length tname < 32"
  shows "rejected (parse_insert_values c tname sql_parse_result_init) \<or>
    (accepted (parse_insert_values c tname sql_parse_result_init) \<and>
     cmd_type (command (parse_insert_values c tname sql_parse_result_init)) = SQL_COMMAND_INSERT)"
proof -
  obtain ok1 c1 where s1: "sql_match_char c CHR ''('' = (ok1, c1)" by fastforce
  obtain n2 c2 where s2: "sql_parse_string c1 RECORD_NAME_SIZE = (n2, c2)" by fastforce
  obtain ok3 c3 where s3: "sql_match_char c2 CHR '','' = (ok3, c3)" by fastforce
  obtain v4 c4 where s4: "sql_parse_int c3 = (v4, c4)" by fastforce
  obtain ok5 c5 where s5: "sql_match_char c4 CHR '')'' = (ok5, c5)" by fastforce
  obtain ok6 c6 where s6: "sql_match_statement_end c5 = (ok6, c6)" by fastforce
  note steps = s1 s2 s3 s4 s5 s6
  show ?thesis
  proof (cases "ok1 \<and> n2 \<noteq> None \<and> ok3 \<and> v4 \<noteq> None \<and> ok5 \<and> ok6")
    case False
    then have "rejected (parse_insert_values c tname sql_parse_result_init)"
      unfolding parse_insert_values_def using steps by (cases n2; cases v4) (simp_all add: Let_def)
    then show ?thesis ..
  next
    case True
    then obtain nm v where nm: "n2 = Some nm" and v: "v4 = Some v" by auto
    have "length nm < 64" using string_length [of 64 c1 nm c2] s2 nm by (simp add: RECORD_NAME_SIZE_def)
    moreover have "INT_MIN \<le> v" "v \<le> INT_MAX" using int_range s4 v by blast+
    moreover obtain r where "parse_insert_values c tname sql_parse_result_init = sql_accept r SQL_COMMAND_INSERT"
      "r = sql_parse_result_init\<lparr>command := empty_command\<lparr>cmd_name := nm, int_value := v, table_name := tname\<rparr>\<rparr>"
      using steps True nm v unfolding parse_insert_values_def by (simp add: Let_def sql_parse_result_init_def)
    ultimately show ?thesis using accepted_accept [of r SQL_COMMAND_INSERT] assms by (simp add: parse_init)
  qed
qed

lemma where_value_outcome:
  assumes "length tname < 32" and "length column < 32"
    and "r = sql_parse_result_init\<lparr>command := empty_command\<lparr>cmd_comparison := cmp, table_name := tname,
      where_column := column, has_where := True\<rparr>\<rparr>"
  shows "INT_MIN \<le> v \<Longrightarrow> v \<le> INT_MAX \<Longrightarrow> ty \<noteq> SQL_COMMAND_NONE \<Longrightarrow> ty \<noteq> SQL_COMMAND_EXIT \<Longrightarrow>
      accepted (sql_accept (r\<lparr>command := (command r)\<lparr>int_value := v\<rparr>\<rparr>) ty)"
    and "length w < 64 \<Longrightarrow> accepted (sql_accept (r\<lparr>command := (command r)\<lparr>text_value := w\<rparr>\<rparr>) SQL_COMMAND_SELECT_BY_NAME)"
  using assms by (auto intro!: accepted_accept(1) simp: sql_parse_result_init_def empty_command_def) (simp_all add: INT_MIN_def INT_MAX_def)

lemma where_outcome:
  assumes "length tname < 32"
  shows "rejected (parse_where c tname sql_parse_result_init) \<or>
    (accepted (parse_where c tname sql_parse_result_init) \<and>
     sql_command_lock_mode (Some (command (parse_where c tname sql_parse_result_init))) = SQL_LOCK_READ)"
proof -
  obtain col c1 where s1: "sql_parse_identifier c 32 = (col, c1)" by fastforce
  obtain cm c2 where s2: "sql_parse_comparison c1 = (cm, c2)" by fastforce
  show ?thesis
  proof (cases "col = None \<or> cm = None")
    case True
    then have "rejected (parse_where c tname sql_parse_result_init)"
      unfolding parse_where_def using s1 s2 by (cases col; cases cm) simp_all
    then show ?thesis ..
  next
    case False
    then obtain column cmp where col: "col = Some column" and cm: "cm = Some cmp" by auto
    have len: "length column < 32" using identifier_length s1 col by blast
    define r where "r = sql_parse_result_init\<lparr>command := empty_command\<lparr>cmd_comparison := cmp, table_name := tname,
      where_column := column, has_where := True\<rparr>\<rparr>"
    have r: "sql_parse_result_init\<lparr>command := (command sql_parse_result_init)\<lparr>cmd_comparison := cmp, table_name := tname,
      where_column := column, has_where := True\<rparr>\<rparr> = r" by (simp add: r_def sql_parse_result_init_def)
    note out = where_value_outcome [OF assms len r_def]
    show ?thesis
    proof (cases "strcaseeq column ''id'' \<or> strcaseeq column ''age''")
      case True
      obtain iv c3 where i: "sql_parse_int c2 = (iv, c3)" by fastforce
      obtain ok c4 where f: "sql_match_statement_end c3 = (ok, c4)" by fastforce
      have "rejected (parse_where c tname sql_parse_result_init) \<or> (\<exists>v ty. INT_MIN \<le> v \<and> v \<le> INT_MAX \<and>
          ty \<in> {SQL_COMMAND_SELECT_BY_ID, SQL_COMMAND_SELECT_BY_AGE} \<and>
          parse_where c tname sql_parse_result_init = sql_accept (r\<lparr>command := (command r)\<lparr>int_value := v\<rparr>\<rparr>) ty)"
        unfolding parse_where_def s1 s2 col cm option.case prod.case Let_def r if_P [OF True]
        using int_range [of c2] i f by (cases iv; cases ok) (auto simp: int_then_end_def)
      then show ?thesis using out(1) by (auto simp: sql_accept_def)
    next
      case no_int: False
      have "rejected (parse_where c tname sql_parse_result_init) \<or> (\<exists>w. length w < 64 \<and>
          parse_where c tname sql_parse_result_init = sql_accept (r\<lparr>command := (command r)\<lparr>text_value := w\<rparr>\<rparr>) SQL_COMMAND_SELECT_BY_NAME)"
        unfolding parse_where_def s1 s2 col cm option.case prod.case Let_def r if_not_P [OF no_int]
        using len string_length [of 64] by (auto simp: string_then_end_def RECORD_NAME_SIZE_def rejected_unknown_column split: prod.splits option.splits)
      then show ?thesis using out(2) by (auto simp: sql_accept_def)
    qed
  qed
qed

text \<open>A statement parser ignores the input, rejects it, or accepts it with its own lock mode.\<close>

definition statement_outcome :: "SQLLockMode \<Rightarrow> SQLParseResult \<Rightarrow> bool" where
  "statement_outcome m r \<longleftrightarrow> rejected r \<or> accepted r \<and> sql_command_lock_mode (Some (command r)) = m"

lemma parse_insert_outcome:
  assumes "sql_match_keyword s ''INSERT'' = Some c0"
  shows "statement_outcome SQL_LOCK_WRITE (sql_parse_insert s sql_parse_result_init)"
proof -
  show ?thesis
  proof (cases "sql_match_keyword (sql_skip_spaces c0) ''INTO''")
    case None
    then show ?thesis by (simp add: sql_parse_insert_def assms statement_outcome_def)
  next
    case (Some c1)
    obtain tn c2 where s2: "sql_parse_identifier c1 32 = (tn, c2)" by fastforce
    show ?thesis
    proof (cases "\<exists>tname c3. tn = Some tname \<and> strcaseeq tname ''users'' \<and> sql_match_keyword (sql_skip_spaces c2) ''VALUES'' = Some c3")
      case False
      then show ?thesis using assms Some s2
        by (cases tn) (auto simp: sql_parse_insert_def statement_outcome_def split: option.splits)
    next
      case True
      then obtain tname c3 where t: "tn = Some tname" "strcaseeq tname ''users''" "sql_match_keyword (sql_skip_spaces c2) ''VALUES'' = Some c3"
        by blast
      then have "sql_parse_insert s sql_parse_result_init = parse_insert_values c3 tname sql_parse_result_init"
        using assms Some s2 by (simp add: sql_parse_insert_def)
      then show ?thesis using insert_values_outcome [of tname c3] identifier_length s2 t(1)
        by (auto simp: statement_outcome_def)
    qed
  qed
qed

lemma parse_select_outcome:
  assumes "sql_match_keyword s ''SELECT'' = Some c0"
  shows "statement_outcome SQL_LOCK_READ (sql_parse_select s sql_parse_result_init)"
proof -
  obtain star c1 where s1: "sql_match_char (sql_skip_spaces c0) CHR ''*'' = (star, c1)" by fastforce
  obtain col c1' where i1: "sql_parse_identifier c1 32 = (col, c1')" by fastforce
  show ?thesis
  proof (cases "star \<and> sql_match_keyword (sql_skip_spaces c1) ''FROM'' \<noteq> None")
    case False
    then show ?thesis using assms s1 i1 identifier_length [of c1 32]
      by (cases star; cases col) (auto simp: sql_parse_select_def statement_outcome_def intro!: rejected_unknown_column)
  next
    case True
    then obtain c2 where s2: "sql_match_keyword (sql_skip_spaces c1) ''FROM'' = Some c2" and star by auto
    obtain tn c3 where s3: "sql_parse_identifier c2 32 = (tn, c3)" by fastforce
    obtain fin c4 where s4: "sql_match_statement_end (sql_skip_spaces c3) = (fin, c4)" by fastforce
    note sel = sql_parse_select_def assms s1 s2 s3 s4 \<open>star\<close>
    show ?thesis
    proof (cases "\<exists>tname. tn = Some tname \<and> strcaseeq tname ''users'' \<and> (fin \<or> sql_match_keyword c4 ''WHERE'' \<noteq> None)")
      case False
      then show ?thesis by (cases tn; cases fin) (auto simp: sel statement_outcome_def)
    next
      case True
      then obtain tname where t: "tn = Some tname" "strcaseeq tname ''users''" "fin \<or> sql_match_keyword c4 ''WHERE'' \<noteq> None" by blast
      have len: "length tname < 32" using identifier_length s3 t(1) by blast
      show ?thesis
      proof (cases fin)
        case True
        then show ?thesis using t len
          accepted_accept [of "sql_parse_result_init\<lparr>command := empty_command\<lparr>table_name := tname\<rparr>\<rparr>" SQL_COMMAND_SELECT_ALL]
          by (simp add: sel statement_outcome_def parse_init)
      next
        case False
        then obtain c5 where "sql_match_keyword c4 ''WHERE'' = Some c5" using t(3) by auto
        then show ?thesis using where_outcome [OF len, of c5] t False by (simp add: sel statement_outcome_def)
      qed
    qed
  qed
qed

lemma match_keyword_head: "sql_match_keyword s (w # ws) = Some c \<Longrightarrow> tolower (peek s) = tolower w"
  by (auto simp: sql_match_keyword_def split: if_splits bind_split_asm)

text \<open>A letter is no space, so a keyword at the start of the input is not skipped over.\<close>

lemma keyword_no_space:
  assumes "sql_match_keyword s (w # ws) = Some c" and "isupper w"
  shows "sql_skip_spaces s = s"
proof (cases s)
  case (Cons x xs)
  have "tolower x = tolower w" using match_keyword_head [OF assms(1)] Cons by simp
  then have "97 \<le> code (tolower x)" using assms(2) by (auto simp: tolower_def isupper_def)
  then have "\<not> isspace x" by (auto simp: tolower_def isupper_def isspace_def split: if_splits)
  then show ?thesis using Cons by (simp add: sql_skip_spaces_def)
qed (simp add: sql_skip_spaces_def)

lemma keyword_clash:
  assumes "sql_match_keyword s (v # vs) = Some c" and "tolower v \<noteq> tolower w"
  shows "sql_match_keyword s (w # ws) = None"
proof -
  have "tolower (peek s) \<noteq> tolower w" using match_keyword_head [OF assms(1)] assms(2) by simp
  then show ?thesis by (simp add: sql_match_keyword_def)
qed

lemma lower_letters: "tolower CHR ''I'' \<noteq> tolower CHR ''S''" "tolower CHR ''E'' \<noteq> tolower CHR ''I''"
  "tolower CHR ''E'' \<noteq> tolower CHR ''S''" "tolower CHR ''Q'' \<noteq> tolower CHR ''I''" "tolower CHR ''Q'' \<noteq> tolower CHR ''S''"
  "tolower CHR ''I'' \<noteq> tolower CHR ''E''" "tolower CHR ''I'' \<noteq> tolower CHR ''Q''" "tolower CHR ''S'' \<noteq> tolower CHR ''E''"
  "tolower CHR ''S'' \<noteq> tolower CHR ''Q''" "tolower CHR ''S'' \<noteq> tolower CHR ''I''"
  "isupper CHR ''I''" "isupper CHR ''S''" "isupper CHR ''E''" "isupper CHR ''Q''"
  by (simp_all add: tolower_def isupper_def)

lemma sql_parse_outcome:
  "rejected (sql_parse (Some s)) \<or> accepted (sql_parse (Some s)) \<and>
     sql_command_lock_mode (Some (command (sql_parse (Some s)))) = sql_determine_lock_mode (Some s)"
proof -
  let ?c = "sql_skip_spaces s"
  let ?leave = "case sql_match_keyword ?c ''EXIT'' of Some c \<Rightarrow> Some c | None \<Rightarrow> sql_match_keyword ?c ''QUIT''"
  consider (exit) c where "?leave = Some c"
    | (insert) c where "?leave = None" "sql_match_keyword s ''INSERT'' = Some c"
    | (select) c where "?leave = None" "sql_match_keyword s ''INSERT'' = None" "sql_match_keyword s ''SELECT'' = Some c"
    | (none) "?leave = None" "sql_match_keyword s ''INSERT'' = None" "sql_match_keyword s ''SELECT'' = None"
    by (cases ?leave; cases "sql_match_keyword s ''INSERT''"; cases "sql_match_keyword s ''SELECT''") auto
  then show ?thesis
  proof cases
    case exit
    then have "sql_match_keyword ?c ''SELECT'' = None" "sql_match_keyword ?c ''INSERT'' = None"
      using lower_letters by (auto intro: keyword_clash split: option.splits)
    then have "sql_determine_lock_mode (Some s) = SQL_LOCK_NONE" by (simp add: sql_determine_lock_mode_def Let_def)
    then show ?thesis using exit
      by (cases "sql_match_statement_end c") (auto simp: sql_parse_def Let_def accepted_def parse_init split: bool.splits)
  next
    case insert
    let ?r = "sql_parse_insert s sql_parse_result_init"
    have out: "statement_outcome SQL_LOCK_WRITE ?r" using insert(2) by (rule parse_insert_outcome)
    then have "parsed ?r \<or> pr_error_message ?r \<noteq> []" using rejected_message by (auto simp: statement_outcome_def accepted_def)
    then have "sql_parse (Some s) = ?r" using insert(1) by (simp add: sql_parse_def Let_def)
    moreover have "sql_determine_lock_mode (Some s) = SQL_LOCK_WRITE"
      using keyword_no_space [OF insert(2)] insert(2) keyword_clash [OF insert(2), of "CHR ''S''" "''ELECT''"] lower_letters
      by (simp add: sql_determine_lock_mode_def Let_def)
    ultimately show ?thesis using out by (simp add: statement_outcome_def)
  next
    case select
    let ?r = "sql_parse_select s sql_parse_result_init"
    have out: "statement_outcome SQL_LOCK_READ ?r" using select(3) by (rule parse_select_outcome)
    then have p: "parsed ?r \<or> pr_error_message ?r \<noteq> []" using rejected_message by (auto simp: statement_outcome_def accepted_def)
    have "sql_parse_insert s sql_parse_result_init = sql_parse_result_init" using select(2) by (simp add: sql_parse_insert_def)
    then have "sql_parse (Some s) = ?r" using select(1) p by (simp add: sql_parse_def Let_def sql_parse_result_init_def)
    moreover have "sql_determine_lock_mode (Some s) = SQL_LOCK_READ"
      using keyword_no_space [OF select(3)] select(3) lower_letters by (simp add: sql_determine_lock_mode_def Let_def)
    ultimately show ?thesis using out by (simp add: statement_outcome_def)
  next
    case none
    then have "sql_parse (Some s) = sql_parse_set_syntax_error sql_parse_result_init ?c"
      by (simp add: sql_parse_def Let_def sql_parse_insert_def sql_parse_select_def sql_parse_result_init_def)
    then show ?thesis by simp
  qed
qed

end
