(* ===== verification/Sql_Props.thy ===== *)
theory Sql_Props
  imports Sql_Correct
begin

text \<open>
  The properties of the SQL parser, with a printer of statements as its counterpart, and the
  statements on which the parser deviates from what its comments promise.
\<close>

section \<open>Printing statements\<close>

datatype stmt =
  St_Insert string int | St_All | St_Id TableComparison int | St_Name string | St_Age TableComparison int | St_Exit

fun cmp_text :: "TableComparison \<Rightarrow> string" where
  "cmp_text TABLE_COMPARISON_EQ = ''=''"
| "cmp_text TABLE_COMPARISON_LT = ''<''"
| "cmp_text TABLE_COMPARISON_LE = ''<=''"
| "cmp_text TABLE_COMPARISON_GT = ''>''"
| "cmp_text TABLE_COMPARISON_GE = ''>=''"

fun render :: "stmt \<Rightarrow> string" where
  "render (St_Insert name age) =
     ''INSERT INTO users VALUES ('' @ CHR 0x27 # name @ CHR 0x27 # '', '' @ show_int age @ '');''"
| "render St_All = ''SELECT * FROM users;''"
| "render (St_Id c k) = ''SELECT * FROM users WHERE id '' @ cmp_text c @ '' '' @ show_int k @ '';''"
| "render (St_Name name) = ''SELECT * FROM users WHERE name = '' @ CHR 0x27 # name @ CHR 0x27 # '';''"
| "render (St_Age c a) = ''SELECT * FROM users WHERE age '' @ cmp_text c @ '' '' @ show_int a @ '';''"
| "render St_Exit = ''EXIT;''"

text \<open>A statement that can be written down: numbers of 32 bits, names of at most 63 characters
  without a quote.\<close>

definition name_ok :: "string \<Rightarrow> bool" where
  "name_ok name \<longleftrightarrow> length name < 64 \<and> CHR 0x27 \<notin> set name \<and> NUL \<notin> set name"

definition number_ok :: "int \<Rightarrow> bool" where
  "number_ok k \<longleftrightarrow> INT_MIN \<le> k \<and> k \<le> INT_MAX"

fun stmt_ok :: "stmt \<Rightarrow> bool" where
  "stmt_ok (St_Insert name age) \<longleftrightarrow> name_ok name \<and> number_ok age"
| "stmt_ok St_All \<longleftrightarrow> True"
| "stmt_ok (St_Id c k) \<longleftrightarrow> number_ok k"
| "stmt_ok (St_Name name) \<longleftrightarrow> name_ok name"
| "stmt_ok (St_Age c a) \<longleftrightarrow> number_ok a"
| "stmt_ok St_Exit \<longleftrightarrow> True"

fun stmt_command :: "stmt \<Rightarrow> SQLCommand" where
  "stmt_command (St_Insert name age) =
     empty_command\<lparr>cmd_type := SQL_COMMAND_INSERT, cmd_name := name, int_value := age, table_name := ''users''\<rparr>"
| "stmt_command St_All = empty_command\<lparr>cmd_type := SQL_COMMAND_SELECT_ALL, table_name := ''users''\<rparr>"
| "stmt_command (St_Id c k) =
     empty_command\<lparr>cmd_type := SQL_COMMAND_SELECT_BY_ID, cmd_comparison := c, table_name := ''users'',
       where_column := ''id'', has_where := True, int_value := k\<rparr>"
| "stmt_command (St_Name name) =
     empty_command\<lparr>cmd_type := SQL_COMMAND_SELECT_BY_NAME, table_name := ''users'', where_column := ''name'',
       has_where := True, text_value := name\<rparr>"
| "stmt_command (St_Age c a) =
     empty_command\<lparr>cmd_type := SQL_COMMAND_SELECT_BY_AGE, cmd_comparison := c, table_name := ''users'',
       where_column := ''age'', has_where := True, int_value := a\<rparr>"
| "stmt_command St_Exit = empty_command\<lparr>cmd_type := SQL_COMMAND_EXIT\<rparr>"

section \<open>The length of printed numbers\<close>

lemma show_int_length:
  assumes "number_ok k"
  shows "length (show_int k) \<le> 11"
proof -
  have "nat (- k) < 10 ^ Suc 9" "nat k < 10 ^ Suc 9" using assms by (auto simp: number_ok_def INT_MIN_def INT_MAX_def)
  then have "length (show_nat (nat (- k))) \<le> 10" "length (show_nat (nat k)) \<le> 10" using show_nat_length by fastforce+
  then show ?thesis by (simp add: show_int_def)
qed

section \<open>Reading back\<close>

lemma string_loop_quoted:
  "CHR 0x27 \<notin> set name \<Longrightarrow> length b + length name < n \<Longrightarrow>
   string_loop (name @ CHR 0x27 # rest) b n = (Some (b @ name), rest)"
  by (induction name arbitrary: b) auto

lemma parse_string_quoted:
  "name_ok name \<Longrightarrow> sql_parse_string (CHR 0x27 # name @ CHR 0x27 # rest) 64 = (Some name, rest)"
  using string_loop_quoted [of name "[]" 64 rest]
  by (simp add: sql_parse_string_def sql_skip_spaces_def isspace_def name_ok_def)

lemma parse_int_shown:
  assumes "number_ok k" and "rest = [] \<or> \<not> isdigit (hd rest)"
  shows "sql_parse_int (show_int k @ rest) = (Some k, rest)"
proof -
  obtain c cs where c: "show_int k = c # cs" "isdigit c \<or> c = CHR ''-''" using show_int_start by blast
  then have "\<not> isspace c" using not_space_digit by (auto simp: isspace_def)
  then have skip: "sql_skip_spaces (show_int k @ rest) = show_int k @ rest" using c(1) by (simp add: sql_skip_spaces_def)
  have "strtol (show_int k @ rest) = (k, rest)"
    using assms by (intro strtol_show_int) (auto simp: number_ok_def INT_MIN_def INT_MAX_def LONG_MIN_def LONG_MAX_def)
  moreover have "rest \<noteq> show_int k @ rest" using c(1) by simp
  moreover have "to_int k = k" using assms(1) by (simp add: number_ok_def to_int_id)
  ultimately show ?thesis using c skip by (auto simp: sql_parse_int_def Let_def)
qed

lemma skip_blank [simp]: "sql_skip_spaces (CHR '' '' # s) = sql_skip_spaces s"
  by (simp add: sql_skip_spaces_def isspace_def)

lemma parse_int_blank [simp]: "sql_parse_int (CHR '' '' # s) = sql_parse_int s"
  by (simp add: sql_parse_int_def)

lemma parse_string_blank [simp]: "sql_parse_string (CHR '' '' # s) n = sql_parse_string s n"
  by (simp add: sql_parse_string_def)

lemmas ctype = tolower_def isupper_def word_char_def isalnum_def isalpha_def isdigit_def isspace_def
lemmas scan = sql_match_keyword_def sql_match_char_def sql_parse_identifier_def sql_parse_comparison_def
  sql_match_statement_end_def strcaseeq_def

text \<open>White space may follow the semicolon, such as the end of a line.\<close>

lemma end_semicolon:
  assumes "list_all isspace w"
  shows "sql_match_statement_end (CHR '';'' # w) = (True, [])"
proof -
  have "dropWhile isspace w = []" using assms by (simp add: list_all_iff)
  then show ?thesis by (simp add: sql_match_statement_end_def sql_skip_spaces_def ctype)
qed

lemma parse_where_id:
  assumes "number_ok k" and w: "list_all isspace w"
  shows "parse_where ('' id '' @ cmp_text c @ '' '' @ show_int k @ CHR '';'' # w) ''users'' sql_parse_result_init =
    sql_parse_result_init\<lparr>parsed := True, command := stmt_command (St_Id c k), pr_status := SQL_STATUS_OK\<rparr>"
proof -
  have i: "int_then_end ('' '' @ show_int k @ CHR '';'' # w) = (Some k, True, [])"
    using parse_int_shown [OF assms(1), of "CHR '';'' # w"] by (simp add: int_then_end_def isdigit_def end_semicolon [OF w])
  show ?thesis
    by (cases c) (simp_all add: parse_where_def scan sql_skip_spaces_def ctype Let_def sql_accept_def sql_parse_result_init_def
      empty_command_def i [simplified])
qed

lemma parse_where_age:
  assumes "number_ok k" and w: "list_all isspace w"
  shows "parse_where ('' age '' @ cmp_text c @ '' '' @ show_int k @ CHR '';'' # w) ''users'' sql_parse_result_init =
    sql_parse_result_init\<lparr>parsed := True, command := stmt_command (St_Age c k), pr_status := SQL_STATUS_OK\<rparr>"
proof -
  have i: "int_then_end ('' '' @ show_int k @ CHR '';'' # w) = (Some k, True, [])"
    using parse_int_shown [OF assms(1), of "CHR '';'' # w"] by (simp add: int_then_end_def isdigit_def end_semicolon [OF w])
  show ?thesis
    by (cases c) (simp_all add: parse_where_def scan sql_skip_spaces_def ctype Let_def sql_accept_def sql_parse_result_init_def
      empty_command_def i [simplified])
qed

lemma parse_where_name:
  assumes "name_ok name" and w: "list_all isspace w"
  shows "parse_where ('' name = '' @ CHR 0x27 # name @ CHR 0x27 # CHR '';'' # w) ''users'' sql_parse_result_init =
    sql_parse_result_init\<lparr>parsed := True, command := stmt_command (St_Name name), pr_status := SQL_STATUS_OK\<rparr>"
proof -
  have i: "string_then_end ('' '' @ CHR 0x27 # name @ CHR 0x27 # CHR '';'' # w) RECORD_NAME_SIZE = (Some name, True, [])"
    using parse_string_quoted [OF assms(1), of "CHR '';'' # w"]
    by (simp add: string_then_end_def end_semicolon [OF w] RECORD_NAME_SIZE_def)
  show ?thesis
    by (simp add: parse_where_def scan sql_skip_spaces_def ctype Let_def sql_accept_def sql_parse_result_init_def
      empty_command_def i [simplified])
qed

text \<open>The fixed beginnings of the statements.\<close>

lemma parse_select_where:
  "sql_parse_select (''SELECT * FROM users WHERE '' @ s) r = parse_where ('' '' @ s) ''users'' r"
  by (simp add: sql_parse_select_def scan sql_skip_spaces_def ctype Let_def)

lemma not_leave_select: "sql_match_keyword (sql_skip_spaces (''SELECT '' @ s)) ''EXIT'' = None"
  "sql_match_keyword (sql_skip_spaces (''SELECT '' @ s)) ''QUIT'' = None"
  "sql_match_keyword (''SELECT '' @ s) ''INSERT'' = None"
  by (simp_all add: scan sql_skip_spaces_def ctype)

lemma sql_parse_select_statement:
  assumes "sql_parse_select (''SELECT '' @ s) sql_parse_result_init = r" and "parsed r"
  shows "sql_parse (Some (''SELECT '' @ s)) = r"
proof -
  have i: "sql_parse_insert (''SELECT '' @ s) sql_parse_result_init = sql_parse_result_init"
    unfolding sql_parse_insert_def not_leave_select by simp
  have n: "parsed sql_parse_result_init = False" "pr_error_message sql_parse_result_init = []"
    by (simp_all add: sql_parse_result_init_def)
  show ?thesis unfolding sql_parse_def option.case Let_def not_leave_select i n assms(1) using assms(2) by simp
qed

lemma parse_insert_statement:
  assumes "name_ok name" and "number_ok age" and w: "list_all isspace w"
  shows "sql_parse_insert (render (St_Insert name age) @ w) sql_parse_result_init =
    sql_parse_result_init\<lparr>parsed := True, command := stmt_command (St_Insert name age), pr_status := SQL_STATUS_OK\<rparr>"
proof -
  let ?q = "CHR 0x27" and ?tail = "show_int age @ '');'' @ w"
  have p: "parse_insert_values ('' ('' @ ?q # name @ ?q # '', '' @ ?tail) ''users'' sql_parse_result_init =
    sql_parse_result_init\<lparr>parsed := True, command := stmt_command (St_Insert name age), pr_status := SQL_STATUS_OK\<rparr>"
    using parse_string_quoted [OF assms(1), of "'', '' @ ?tail"] parse_int_shown [OF assms(2), of "'');'' @ w"] end_semicolon [OF w]
    by (simp add: parse_insert_values_def sql_match_char_def sql_skip_spaces_def ctype Let_def sql_accept_def
        sql_parse_result_init_def empty_command_def RECORD_NAME_SIZE_def)
  show ?thesis
    using p by (simp add: sql_parse_insert_def scan sql_skip_spaces_def ctype Let_def)
qed

lemma sql_parse_render:
  assumes "stmt_ok st" and w: "list_all isspace w"
  shows "parsed (sql_parse (Some (render st @ w))) \<and> command (sql_parse (Some (render st @ w))) = stmt_command st"
proof (cases st)
  case (St_Insert name age)
  have "sql_match_keyword (sql_skip_spaces (render st @ w)) ''EXIT'' = None" "sql_match_keyword (sql_skip_spaces (render st @ w)) ''QUIT'' = None"
    using St_Insert by (simp_all add: scan sql_skip_spaces_def ctype)
  then show ?thesis using parse_insert_statement [of name age w] assms St_Insert by (simp add: sql_parse_def Let_def del: render.simps)
next
  case St_All
  have "sql_parse_select (''SELECT '' @ ''* FROM users'' @ CHR '';'' # w) sql_parse_result_init =
      sql_parse_result_init\<lparr>parsed := True, command := stmt_command St_All, pr_status := SQL_STATUS_OK\<rparr>"
    using end_semicolon [OF w]
    by (simp add: sql_parse_select_def sql_match_keyword_def sql_match_char_def sql_parse_identifier_def strcaseeq_def
        sql_skip_spaces_def ctype Let_def sql_accept_def sql_parse_result_init_def empty_command_def)
  from sql_parse_select_statement [OF this] show ?thesis using St_All by simp
next
  case (St_Id c k)
  have "sql_parse_select (''SELECT '' @ ''* FROM users WHERE '' @ ''id '' @ cmp_text c @ '' '' @ show_int k @ CHR '';'' # w) sql_parse_result_init =
      sql_parse_result_init\<lparr>parsed := True, command := stmt_command (St_Id c k), pr_status := SQL_STATUS_OK\<rparr>"
    using parse_select_where [of "''id '' @ cmp_text c @ '' '' @ show_int k @ CHR '';'' # w"] parse_where_id [of k w c] assms St_Id by simp
  from sql_parse_select_statement [OF this] show ?thesis using St_Id by simp
next
  case (St_Name name)
  have "sql_parse_select (''SELECT '' @ ''* FROM users WHERE '' @ ''name = '' @ CHR 0x27 # name @ CHR 0x27 # CHR '';'' # w) sql_parse_result_init =
      sql_parse_result_init\<lparr>parsed := True, command := stmt_command (St_Name name), pr_status := SQL_STATUS_OK\<rparr>"
    using parse_select_where [of "''name = '' @ CHR 0x27 # name @ CHR 0x27 # CHR '';'' # w"] parse_where_name [of name w] assms St_Name by simp
  from sql_parse_select_statement [OF this] show ?thesis using St_Name by simp
next
  case (St_Age c k)
  have "sql_parse_select (''SELECT '' @ ''* FROM users WHERE '' @ ''age '' @ cmp_text c @ '' '' @ show_int k @ CHR '';'' # w) sql_parse_result_init =
      sql_parse_result_init\<lparr>parsed := True, command := stmt_command (St_Age c k), pr_status := SQL_STATUS_OK\<rparr>"
    using parse_select_where [of "''age '' @ cmp_text c @ '' '' @ show_int k @ CHR '';'' # w"] parse_where_age [of k w c] assms St_Age by simp
  from sql_parse_select_statement [OF this] show ?thesis using St_Age by simp
next
  case St_Exit
  then show ?thesis
    using end_semicolon [OF w]
    by (simp add: sql_parse_def sql_match_keyword_def sql_skip_spaces_def ctype Let_def sql_parse_result_init_def empty_command_def)
qed

section \<open>Properties\<close>

text \<open>C6: Round trip: the parser accepts every printed statement (insertion, the four selections
  with every comparison, exit) and reads back exactly its command, for all 32-bit numbers and
  all names of at most 63 characters without a quote, whatever white space follows.\<close>

theorem sql_parse_reads_back:
  assumes "stmt_ok st" and "list_all isspace w"
  shows "parsed (sql_parse (Some (render st @ w))) \<and> command (sql_parse (Some (render st @ w))) = stmt_command st"
  using assms by (rule sql_parse_render)

theorem sql_parse_reads_back_witness:
  "parsed (sql_parse (Some (render (St_Insert ''Kim'' (- 7)) @ [CHR 0x0A]))) \<and>
   cmd_name (command (sql_parse (Some (render (St_Insert ''Kim'' (- 7)) @ [CHR 0x0A])))) = ''Kim'' \<and>
   int_value (command (sql_parse (Some (render (St_Id TABLE_COMPARISON_LE 12) @ [CHR 0x0A])))) = 12"
proof -
  have "stmt_ok (St_Insert ''Kim'' (- 7))" "stmt_ok (St_Id TABLE_COMPARISON_LE 12)"
    by (simp_all add: name_ok_def number_ok_def INT_MIN_def INT_MAX_def)
  from this [THEN sql_parse_reads_back, of "[CHR 0x0A]"] show ?thesis by (simp add: isspace_def)
qed

text \<open>C33: Parsing is total and its result is well formed on every input: either the statement is
  accepted, with no error message, a command whose strings fit their buffers and whose number
  is a 32-bit integer; or it is rejected with code 1064 or 1054, the matching SQLSTATE and a
  message that is complete (its text fits the 256-byte buffer untruncated). An accepted command
  needs exactly the lock mode that is computed from the input text before parsing.\<close>

theorem sql_parse_accepts_or_rejects:
  "rejected (sql_parse (Some s)) \<or> accepted (sql_parse (Some s)) \<and>
     sql_command_lock_mode (Some (command (sql_parse (Some s)))) = sql_determine_lock_mode (Some s)"
  by (rule sql_parse_outcome)

text \<open>Leading white space: the lock mode is computed behind it, but the statement is parsed from
  the start of the input, so every INSERT or SELECT that begins with a space is rejected as a
  syntax error.\<close>

theorem sql_parse_rejects_leading_space:
  assumes "isspace c" and "sql_determine_lock_mode (Some (c # s)) \<noteq> SQL_LOCK_NONE"
  shows "rejected (sql_parse (Some (c # s)))"
proof -
  have "length (sql_skip_spaces (c # s)) \<le> length s"
    using assms(1) length_dropWhile_le [of isspace s] by (simp add: sql_skip_spaces_def)
  then have "sql_skip_spaces (c # s) \<noteq> c # s" by (metis impossible_Cons)
  then have "sql_match_keyword (c # s) ''INSERT'' = None" "sql_match_keyword (c # s) ''SELECT'' = None"
    using keyword_no_space [of "c # s" "CHR ''I''" "''NSERT''"] keyword_no_space [of "c # s" "CHR ''S''" "''ELECT''"] lower_letters
    by fastforce+
  then have n: "sql_parse_insert (c # s) sql_parse_result_init = sql_parse_result_init"
    "sql_parse_select (c # s) sql_parse_result_init = sql_parse_result_init"
    by (simp_all add: sql_parse_insert_def sql_parse_select_def)
  consider k where "sql_match_keyword (sql_skip_spaces (c # s)) ''SELECT'' = Some k"
    | k where "sql_match_keyword (sql_skip_spaces (c # s)) ''INSERT'' = Some k"
    using assms(2) by (auto simp: sql_determine_lock_mode_def Let_def split: if_splits)
  then have "sql_match_keyword (sql_skip_spaces (c # s)) ''EXIT'' = None" "sql_match_keyword (sql_skip_spaces (c # s)) ''QUIT'' = None"
    using lower_letters by (auto intro: keyword_clash)
  then have "sql_parse (Some (c # s)) = sql_parse_set_syntax_error sql_parse_result_init (sql_skip_spaces (c # s))"
    unfolding sql_parse_def option.case Let_def n by (simp add: sql_parse_result_init_def)
  then show ?thesis by simp
qed

theorem sql_parse_rejects_leading_space_witness:
  "rejected (sql_parse (Some ('' '' @ render St_All)))"
  using sql_parse_rejects_leading_space [of "CHR '' ''" "render St_All"]
  by (simp add: isspace_def sql_determine_lock_mode_def scan ctype sql_skip_spaces_def)

text \<open>Numbers beyond 32 bits are not rejected but reduced: the literal 4294967297 selects the id 1.\<close>

theorem sql_parse_wraps_numbers:
  "command (sql_parse (Some ''SELECT * FROM users WHERE id = 4294967297'')) =
   stmt_command (St_Id TABLE_COMPARISON_EQ 1)"
  by code_simp

text \<open>A semicolon in front of the condition does not end the statement: the text behind it is
  still read as its condition.\<close>

theorem sql_parse_where_behind_semicolon:
  "command (sql_parse (Some ''SELECT * FROM users; WHERE id > 5'')) = stmt_command (St_Id TABLE_COMPARISON_GT 5)"
  by code_simp

end
