(* ===== verification/Growable.thy ===== *)
theory Growable
  imports Prelude
begin

text \<open>
  The contract of the growing result arrays of the table: an append either adds its argument behind what is there or
  reports a failed reallocation and keeps what is there.
\<close>

text \<open>A client that appends a list of items and stops at the first failure.\<close>

fun append_all :: "('b \<Rightarrow> 'a \<Rightarrow> env \<Rightarrow> (bool \<times> 'b \<times> env) option) \<Rightarrow> 'b \<Rightarrow> 'a list \<Rightarrow> env \<Rightarrow> (bool \<times> 'b \<times> env) option" where
  "append_all app b [] e = Some (True, b, e)"
| "append_all app b (x # xs) e =
     do { (ok, b', e') \<leftarrow> app b x e; if ok then append_all app b' xs e' else Some (False, b', e') }"

locale growable =
  fixes gr_append :: "'b \<Rightarrow> 'a \<Rightarrow> env \<Rightarrow> (bool \<times> 'b \<times> env) option"
    and gr_view :: "'b \<Rightarrow> 'a list \<Rightarrow> bool"
  assumes gr_step: "gr_view b xs \<Longrightarrow>
    \<exists>ok b' e'. gr_append b x e = Some (ok, b', e') \<and> gr_view b' (if ok then xs @ [x] else xs) \<and>
      (all_succeed e \<longrightarrow> ok \<and> all_succeed e')"
begin

lemma append_all_view:
  "gr_view b xs \<Longrightarrow>
   \<exists>ok b' e' zs. append_all gr_append b ys e = Some (ok, b', e') \<and> gr_view b' zs \<and>
     (ok \<longrightarrow> zs = xs @ ys) \<and> (all_succeed e \<longrightarrow> ok \<and> all_succeed e')"
proof (induction ys arbitrary: b xs e)
  case (Cons y ys)
  obtain ok b' e' where s: "gr_append b y e = Some (ok, b', e')" "gr_view b' (if ok then xs @ [y] else xs)"
    "all_succeed e \<longrightarrow> ok \<and> all_succeed e'" using gr_step [OF Cons.prems] by blast
  then show ?case using Cons.IH [of b' "xs @ [y]" e'] by (cases ok) auto
qed auto

lemma append_all_succeeds:
  assumes "gr_view b xs" and "all_succeed e"
  shows "\<exists>b' e'. append_all gr_append b ys e = Some (True, b', e') \<and> gr_view b' (xs @ ys) \<and> all_succeed e'"
  using append_all_view [OF assms(1), of ys e] assms(2) by auto

end

end
