(* ===== verification/Table_Correct.thy ===== *)
theory Table_Correct
  imports Table_Store Growable
begin

text \<open>
  The table of \<^verbatim>\<open>table.c\<close> against its specification: a list of users in increasing order of id.
  \<open>table_models t us\<close> is the invariant of the store (locks free, rows and index of each bucket in
  agreement, ids placed by their residue, no dangling and no leaked record) and says which
  users it holds. Every operation returns without undefined behaviour, releases its locks on
  every path and does to the users what the specification says.
\<close>

section \<open>Arrays\<close>

definition array_view :: "RecordArray \<Rightarrow> nat list \<Rightarrow> bool" where
  "array_view ra ps \<longleftrightarrow>
     ra_count ra = length ps \<and> ra_capacity ra = length (ra_cells ra) \<and> length ps \<le> length (ra_cells ra) \<and>
     take (length ps) (ra_cells ra) = map Some ps"

lemma array_view_empty [simp]: "array_view empty_array []"
  by (simp add: array_view_def empty_array_def)

text \<open>The two result arrays of the program grow in the same way from different first capacities.\<close>

definition append_with :: "nat \<Rightarrow> RecordArray \<Rightarrow> nat \<Rightarrow> env \<Rightarrow> (bool \<times> RecordArray \<times> env) option" where
  "append_with first ra r e =
     (if ra_count ra < ra_capacity ra
      then do { cells \<leftarrow> wr (ra_cells ra) (ra_count ra) (Some r);
                Some (True, ra\<lparr>ra_cells := cells, ra_count := ra_count ra + 1\<rparr>, e) }
      else let n = (if ra_capacity ra = 0 then first else ra_capacity ra * 2)
           in case env_next e of (ok, e') \<Rightarrow>
                if ok then do { cells \<leftarrow> wr (grow_cells (ra_cells ra) n) (ra_count ra) (Some r);
                                Some (True, \<lparr>ra_cells = cells, ra_count = ra_count ra + 1, ra_capacity = n\<rparr>, e') }
                else Some (False, ra, e'))"

lemma append_with_growable:
  assumes "0 < first"
  shows "growable (append_with first) array_view"
proof
  fix b xs x e
  assume v: "array_view b xs"
  obtain ok e' where e: "env_next e = (ok, e')" by (cases "env_next e")
  show "\<exists>ok b' e'. append_with first b x e = Some (ok, b', e') \<and>
      array_view b' (if ok then xs @ [x] else xs) \<and> (all_succeed e \<longrightarrow> ok \<and> all_succeed e')"
  proof (cases "ra_count b < ra_capacity b")
    case True
    then show ?thesis using v by (auto simp: array_view_def append_with_def array_simps take_Suc_update)
  next
    case False
    define n where "n = (if ra_capacity b = 0 then first else ra_capacity b * 2)"
    from v have len: "ra_count b = length xs" "ra_capacity b = length (ra_cells b)"
      "length xs \<le> length (ra_cells b)" "take (length xs) (ra_cells b) = map Some xs"
      unfolding array_view_def by blast+
    with False have cells: "length (ra_cells b) = length xs" "ra_capacity b = length xs" by linarith+
    have n: "length xs < n" unfolding n_def using cells(2) assms by (cases xs) simp_all
    let ?b = "\<lparr>ra_cells = (grow_cells (ra_cells b) n)[length xs := Some x],
      ra_count = Suc (length xs), ra_capacity = n\<rparr>"
    have "append_with first b x e = (if ok then Some (True, ?b, e') else Some (False, b, e'))"
      using e len(1) cells n by (simp add: append_with_def Let_def wr_def n_def)
    moreover have "array_view ?b (xs @ [x])"
      using len(4) cells(1) n by (simp add: array_view_def take_Suc_update)
    moreover have "all_succeed e \<longrightarrow> ok \<and> all_succeed e'" using env_next_succeed [OF e] by blast
    ultimately show ?thesis using v by (cases ok) auto
  qed
qed

lemma table_append_record_with: "table_append_record = append_with 8"
  by (intro ext) (simp add: table_append_record_def append_with_def)

interpretation ra: growable table_append_record array_view
  unfolding table_append_record_with by (rule append_with_growable) simp

lemma cells_list_eq: "n \<le> length cells \<Longrightarrow> take n cells = map Some xs \<Longrightarrow> cells_list cells n = Some xs"
proof (induction n arbitrary: xs)
  case (Suc n)
  have eq: "take n cells @ [cells ! n] = map Some xs" using Suc.prems by (simp add: take_Suc_conv_app_nth)
  show ?case
  proof (cases xs rule: rev_cases)
    case Nil
    then show ?thesis using eq by simp
  next
    case (snoc ys y)
    then have "take n cells = map Some ys" "cells ! n = Some y" using eq by simp_all
    then show ?thesis using Suc snoc by (simp add: array_simps)
  qed
qed simp

lemma array_view_cells: "array_view ra ps \<Longrightarrow> cells_list (ra_cells ra) (ra_count ra) = Some ps"
  by (simp add: array_view_def cells_list_eq)

lemma array_view_nth: "array_view ra ps \<Longrightarrow> i < length ps \<Longrightarrow> rd_init (ra_cells ra) i = Some (ps ! i)"
  by (metis array_view_def nth_map nth_take rd_init_Some order_less_le_trans)

section \<open>Sorting by id\<close>

definition rid :: "(nat \<rightharpoonup> Record) \<Rightarrow> nat \<Rightarrow> int" where
  "rid h p = rec_id (the (h p))"

lemma qsort_insert_eq:
  assumes "h x \<noteq> None" and "\<forall>y \<in> set ys. h y \<noteq> None"
  shows "qsort_insert (table_compare_records_by_id h) x ys = Some (insort_key (rid h) x ys)"
  using assms by (induction ys) (auto simp: table_compare_records_by_id_def rid_def)

lemma qsort_eq:
  "\<forall>x \<in> set xs. h x \<noteq> None \<Longrightarrow>
   qsort (table_compare_records_by_id h) xs = Some (sort_key (rid h) xs)"
  by (induction xs) (simp_all add: qsort_insert_eq)

lemma table_sort_records_by_id_view:
  assumes "array_view ra ps" and "\<forall>p \<in> set ps. h p \<noteq> None"
  shows "\<exists>ra'. table_sort_records_by_id h ra = Some ra' \<and> array_view ra' (sort_key (rid h) ps)"
proof (cases "ra_cells ra = [] \<or> ra_count ra < 2")
  case True
  then have "length ps < 2" using assms(1) by (auto simp: array_view_def)
  then have "sort_key (rid h) ps = ps" by (cases ps rule: remdups_adj.cases) auto
  then show ?thesis using True assms(1) by (auto simp: table_sort_records_by_id_def)
next
  case False
  then show ?thesis using assms
    by (auto simp: table_sort_records_by_id_def array_view_cells qsort_eq) (simp add: array_view_def)
qed

section \<open>The invariant\<close>

definition bucket_ok :: "(nat \<rightharpoonup> Record) \<Rightarrow> nat \<Rightarrow> TableBucket \<Rightarrow> nat list \<Rightarrow> bool" where
  "bucket_ok h i b ps \<longleftrightarrow>
     bk_lock b = Unlocked \<and> bk_size b = length ps \<and> bk_capacity b = length (bk_rows b) \<and>
     length ps \<le> length (bk_rows b) \<and> take (length ps) (bk_rows b) = map Some ps \<and>
     (\<forall>p \<in> set ps. \<exists>r. h p = Some r \<and> table_bucket_index_for_id (rec_id r) = i) \<and>
     (\<exists>ix es. pk_index b = Some ix \<and> bptree_entries ix es \<and> set es = (\<lambda>p. (rid h p, Some p)) ` set ps)"

definition users_ok :: "Record list \<Rightarrow> int \<Rightarrow> bool" where
  "users_ok us n \<longleftrightarrow>
     sorted_wrt (\<lambda>u v. rec_id u < rec_id v) us \<and> (\<forall>u \<in> set us. 1 \<le> rec_id u \<and> rec_id u < n) \<and>
     1 \<le> n \<and> n \<le> INT_MAX"

text \<open>\<open>pss\<close> lists the record pointers of each bucket.\<close>

definition table_rows :: "Table \<Rightarrow> nat list list \<Rightarrow> Record list \<Rightarrow> bool" where
  "table_rows t pss us \<longleftrightarrow>
     length (buckets t) = 16 \<and> length pss = 16 \<and>
     (\<forall>i < 16. bucket_ok (rec_heap t) i (buckets t ! i) (pss ! i)) \<and>
     next_id_lock t = MutexFree \<and> next_id_lock_initialized t \<and> initialized_buckets t = 16 \<and>
     distinct (concat pss) \<and> dom (rec_heap t) = set (concat pss) \<and> (\<forall>p \<in> set (concat pss). p < rec_brk t) \<and>
     mset (map (\<lambda>p. the (rec_heap t p)) (concat pss)) = mset us \<and> users_ok us (next_id t)"

definition table_models :: "Table \<Rightarrow> Record list \<Rightarrow> bool" where
  "table_models t us \<longleftrightarrow> (\<exists>pss. table_rows t pss us)"

lemma table_rows_bucket: "table_rows t pss us \<Longrightarrow> i < 16 \<Longrightarrow> bucket_ok (rec_heap t) i (buckets t ! i) (pss ! i)"
  by (simp add: table_rows_def)

lemma table_rows_set: "table_rows t pss us \<Longrightarrow> set us = (\<lambda>p. the (rec_heap t p)) ` set (concat pss)"
  unfolding table_rows_def by (metis mset_eq_setD set_map)

lemma bucket_ok_record:
  "bucket_ok h i b ps \<Longrightarrow> p \<in> set ps \<Longrightarrow> \<exists>r. h p = Some r \<and> table_bucket_index_for_id (rec_id r) = i"
  by (simp add: bucket_ok_def)

lemma bucket_index_mod: "table_bucket_index_for_id i = nat (i mod 16)"
proof (cases "i \<ge> 0")
  case True
  then show ?thesis
    by (cases "i = 0") (simp_all add: table_bucket_index_for_id_def TABLE_BUCKET_COUNT_def Let_def smod_int_alt_def sgn_if)
next
  case False
  then have "i smod 16 = - (- i mod 16)" by (simp add: smod_int_alt_def)
  moreover have "(- i) mod 16 = (if i mod 16 = 0 then 0 else 16 - i mod 16)" by (simp add: zmod_zminus1_eq_if)
  ultimately show ?thesis
    by (simp add: table_bucket_index_for_id_def TABLE_BUCKET_COUNT_def Let_def)
qed

lemma bucket_index_less: "table_bucket_index_for_id i < 16"
  by (simp add: bucket_index_mod nat_less_iff)

section \<open>Locking a bucket for reading\<close>

definition read_locked :: "Table \<Rightarrow> nat \<Rightarrow> Table" where
  "read_locked t i = put_bucket t i ((buckets t ! i)\<lparr>bk_lock := ReadLocked 1\<rparr>)"

lemma bucket_lock_same [simp]: "bk_lock b = l \<Longrightarrow> b\<lparr>bk_lock := l\<rparr> = b"
  by (cases b) simp

lemma put_bucket_same [simp]: "put_bucket t i (buckets t ! i) = t"
  by (simp add: put_bucket_def)

lemma put_bucket_twice [simp]: "put_bucket (put_bucket t i b) i b' = put_bucket t i b'"
  by (simp add: put_bucket_def)

lemma put_bucket_nth: "i < length (buckets t) \<Longrightarrow> buckets (put_bucket t i b) ! i = b"
  and length_put_bucket [simp]: "length (buckets (put_bucket t i b)) = length (buckets t)"
  by (simp_all add: put_bucket_def)

lemma bucket_rdlock_eq:
  assumes "i < length (buckets t)" and "bk_lock (buckets t ! i) = Unlocked" and "env_next e = (ok, e')"
  shows "bucket_rdlock t i e = Some (ok, if ok then read_locked t i else t, e')"
  using assms by (simp add: bucket_rdlock_def array_simps pthread_rwlock_rdlock_def read_locked_def)

lemma bucket_unlock_read:
  assumes "i < length (buckets t)" and "bk_lock (buckets t ! i) = Unlocked"
  shows "bucket_unlock (read_locked t i) i = Some t"
  using assms by (simp add: bucket_unlock_def array_simps read_locked_def put_bucket_nth)

lemma read_locked_bucket:
  "i < length (buckets t) \<Longrightarrow> rd (buckets (read_locked t i)) i = Some ((buckets t ! i)\<lparr>bk_lock := ReadLocked 1\<rparr>)"
  by (simp add: read_locked_def put_bucket_def array_simps)

lemma read_locked_heap [simp]: "rec_heap (read_locked t i) = rec_heap t"
  by (simp add: read_locked_def put_bucket_def)

section \<open>Collecting\<close>

lemma collect_rows_loop_eq:
  assumes "bk_size b = length ps" and "\<And>j. j < length ps \<Longrightarrow> rd_init (bk_rows b) j = Some (ps ! j)"
  shows "i \<le> length ps \<Longrightarrow> collect_rows_loop b i ra e =
    do { (ok, ra', e') \<leftarrow> append_all table_append_record ra (drop i ps) e;
         Some (ok, if ok then ra' else table_free_record_array ra', e') }"
proof (induction "length ps - i" arbitrary: i ra e)
  case 0
  then show ?case using assms(1) by (subst collect_rows_loop.simps) simp
next
  case (Suc d)
  then have i: "i < length ps" by simp
  have d: "drop i ps = ps ! i # drop (Suc i) ps" using i by (simp add: Cons_nth_drop_Suc)
  have IH: "collect_rows_loop b (Suc i) ra e =
    do { (ok, ra', e') \<leftarrow> append_all table_append_record ra (drop (Suc i) ps) e;
         Some (ok, if ok then ra' else table_free_record_array ra', e') }" for ra e
    using Suc.hyps(1) [of "Suc i" ra e] Suc.hyps(2) i by simp
  show ?case using assms i unfolding d
    by (subst collect_rows_loop.simps) (auto simp: IH split: prod.splits bind_split)
qed

lemma bucket_ok_rows: "bucket_ok h i b ps \<Longrightarrow> j < length ps \<Longrightarrow> rd_init (bk_rows b) j = Some (ps ! j)"
proof -
  assume b: "bucket_ok h i b ps" and j: "j < length ps"
  then have "take (length ps) (bk_rows b) ! j = Some (ps ! j)" "j < length (bk_rows b)" by (auto simp: bucket_ok_def)
  then show ?thesis using j by (simp add: array_simps)
qed

lemma collect_bucket_ok:
  assumes "bucket_ok h i b ps" and "array_view ra xs"
  shows "\<exists>ok ra' e'. table_collect_bucket_rows_locked (b\<lparr>bk_lock := l\<rparr>) ra e = Some (ok, ra', e') \<and>
    (ok \<longrightarrow> array_view ra' (xs @ ps)) \<and> (all_succeed e \<longrightarrow> ok \<and> all_succeed e')"
proof -
  obtain ok ra' e' where "append_all table_append_record ra ps e = Some (ok, ra', e')"
    "ok \<longrightarrow> array_view ra' (xs @ ps)" "all_succeed e \<longrightarrow> ok \<and> all_succeed e'"
    using ra.append_all_view [OF assms(2), of ps e] by blast
  moreover have "bk_size (b\<lparr>bk_lock := l\<rparr>) = length ps" using assms(1) by (simp add: bucket_ok_def)
  ultimately show ?thesis
    using collect_rows_loop_eq [of "b\<lparr>bk_lock := l\<rparr>" ps 0 ra e] bucket_ok_rows [OF assms(1)]
    by (auto simp: table_collect_bucket_rows_locked_def)
qed

lemma collect_buckets_loop_ok:
  assumes t: "table_rows t pss us"
  shows "i \<le> 16 \<Longrightarrow> array_view ra xs \<Longrightarrow>
    \<exists>ok ra' e'. collect_buckets_loop t i ra e = Some (ok, ra', t, e') \<and>
      (if ok then array_view ra' (xs @ concat (drop i pss)) else ra_cells ra' = [] \<and> ra_count ra' = 0) \<and>
      (all_succeed e \<longrightarrow> ok \<and> all_succeed e')"
proof (induction "16 - i" arbitrary: i ra xs e)
  case 0
  then show ?case using t by (subst collect_buckets_loop.simps) (auto simp: TABLE_BUCKET_COUNT_def table_rows_def)
next
  case (Suc d)
  then have i: "i < 16" and d': "d = 16 - Suc i" by simp_all
  have len: "i < length (buckets t)" "i < length pss" and b: "bucket_ok (rec_heap t) i (buckets t ! i) (pss ! i)"
    using t i by (auto simp: table_rows_def)
  have l: "bk_lock (buckets t ! i) = Unlocked" using b by (simp add: bucket_ok_def)
  obtain ok1 e1 where e1: "env_next e = (ok1, e1)" by (cases "env_next e")
  note lock = bucket_rdlock_eq [OF len(1) l e1]
  show ?case
  proof (cases ok1)
    case False
    then show ?thesis using lock i env_next_succeed [OF e1]
      by (subst collect_buckets_loop.simps) (auto simp: TABLE_BUCKET_COUNT_def table_free_record_array_def)
  next
    case True
    obtain ok ra' e2 where c: "table_collect_bucket_rows_locked ((buckets t ! i)\<lparr>bk_lock := ReadLocked 1\<rparr>) ra e1 = Some (ok, ra', e2)"
      "ok \<longrightarrow> array_view ra' (xs @ pss ! i)" "all_succeed e1 \<longrightarrow> ok \<and> all_succeed e2"
      using collect_bucket_ok [OF b Suc.prems(2)] by blast
    note step = lock True c(1) bucket_unlock_read [OF len(1) l] read_locked_bucket [OF len(1)] i
    have d: "concat (drop i pss) = pss ! i @ concat (drop (Suc i) pss)"
      using len(2) by (simp add: Cons_nth_drop_Suc [symmetric])
    show ?thesis
    proof (cases ok)
      case False
      then show ?thesis using step c(3) env_next_succeed [OF e1]
        by (subst collect_buckets_loop.simps) (auto simp: TABLE_BUCKET_COUNT_def table_free_record_array_def)
    next
      case okT: True
      have "collect_buckets_loop t i ra e = collect_buckets_loop t (Suc i) ra' e2"
        using step okT by (subst collect_buckets_loop.simps) (simp add: TABLE_BUCKET_COUNT_def)
      moreover obtain ok' ra'' e3 where "collect_buckets_loop t (Suc i) ra' e2 = Some (ok', ra'', t, e3)"
        "if ok' then array_view ra'' ((xs @ pss ! i) @ concat (drop (Suc i) pss)) else ra_cells ra'' = [] \<and> ra_count ra'' = 0"
        "all_succeed e2 \<longrightarrow> ok' \<and> all_succeed e3"
        using Suc.hyps(1) [of "Suc i" ra' "xs @ pss ! i" e2] d' i c(2) okT by auto
      ultimately show ?thesis using d c(3) env_next_succeed [OF e1] by auto
    qed
  qed
qed

section \<open>What a collected array denotes\<close>

text \<open>\<open>denotes h ps us\<close>: the pointers \<open>ps\<close> are valid and lead to the records \<open>us\<close>.\<close>

definition denotes :: "(nat \<rightharpoonup> Record) \<Rightarrow> nat list \<Rightarrow> Record list \<Rightarrow> bool" where
  "denotes h ps us \<longleftrightarrow> map h ps = map Some us"

lemma denotes_length: "denotes h ps us \<Longrightarrow> length ps = length us"
  unfolding denotes_def by (metis length_map)

lemma denotes_nth: "denotes h ps us \<Longrightarrow> i < length us \<Longrightarrow> h (ps ! i) = Some (us ! i)"
  unfolding denotes_def by (metis length_map nth_map)

lemma denotes_Nil [simp]: "denotes h [] []"
  by (simp add: denotes_def)

lemma map_sort_key: "map f (sort_key (\<lambda>x. g (f x)) xs) = sort_key g (map f xs)"
proof -
  have "map f (insort_key (\<lambda>x. g (f x)) x xs) = insort_key g (f x) (map f xs)" for x xs by (induction xs) auto
  then show ?thesis by (induction xs) auto
qed

lemma users_distinct:
  assumes "users_ok us n"
  shows "sorted (map rec_id us)" and "inj_on rec_id (set us)" and "distinct us"
proof -
  have s: "sorted_wrt (\<lambda>u v. rec_id u < rec_id v) us" using assms by (simp add: users_ok_def)
  then have "sorted_wrt (<) (map rec_id us)" by (simp add: sorted_wrt_map)
  then have "sorted (map rec_id us) \<and> distinct (map rec_id us)" by (simp add: strict_sorted_iff)
  then show "sorted (map rec_id us)" "inj_on rec_id (set us)" "distinct us" by (auto simp: distinct_map)
qed

lemma rows_denote_users:
  assumes t: "table_rows t pss us"
  shows "denotes (rec_heap t) (sort_key (rid (rec_heap t)) (concat pss)) us"
    and "\<forall>p \<in> set (concat pss). rec_heap t p \<noteq> None"
proof -
  let ?h = "rec_heap t" and ?ps = "concat pss"
  have m: "mset (map (\<lambda>p. the (?h p)) ?ps) = mset us" and ok: "users_ok us (next_id t)"
    and "dom ?h = set ?ps" using t by (simp_all add: table_rows_def)
  then have valid: "\<forall>p \<in> set ?ps. ?h p \<noteq> None" by (metis domIff)
  have "map (\<lambda>p. the (?h p)) (sort_key (rid ?h) ?ps) = sort_key rec_id (map (\<lambda>p. the (?h p)) ?ps)"
    unfolding map_sort_key [symmetric] rid_def ..
  also have "\<dots> = us"
  proof (rule sort_key_inj_key_eq [OF m])
    show "inj_on rec_id (set (map (\<lambda>p. the (?h p)) ?ps))"
      using users_distinct(2) [OF ok] mset_eq_setD [OF m] by simp
  qed (rule users_distinct(1) [OF ok])
  finally have "us = map (\<lambda>p. the (?h p)) (sort_key (rid ?h) ?ps)" by simp
  then have "map Some us = map (\<lambda>p. Some (the (?h p))) (sort_key (rid ?h) ?ps)" by simp
  also have "\<dots> = map ?h (sort_key (rid ?h) ?ps)" using valid by (intro map_cong) auto
  finally show "denotes ?h (sort_key (rid ?h) ?ps) us" by (simp add: denotes_def)
  show "\<forall>p \<in> set ?ps. ?h p \<noteq> None" by (rule valid)
qed

lemma collect_all_sorted_ok:
  assumes "table_models t us"
  shows "\<exists>ok ra e' ps. table_collect_all_sorted (Some t) e = Some (ok, ra, Some t, e') \<and>
    (if ok then array_view ra ps \<and> denotes (rec_heap t) ps us else ra_cells ra = [] \<and> ra_count ra = 0) \<and>
    (all_succeed e \<longrightarrow> ok \<and> all_succeed e')"
proof -
  obtain pss where t: "table_rows t pss us" using assms by (auto simp: table_models_def)
  obtain ok ra e' where c: "collect_buckets_loop t 0 empty_array e = Some (ok, ra, t, e')"
    "if ok then array_view ra (concat pss) else ra_cells ra = [] \<and> ra_count ra = 0"
    "all_succeed e \<longrightarrow> ok \<and> all_succeed e'"
    using collect_buckets_loop_ok [OF t, of 0 empty_array "[]" e] by (auto simp only: array_view_empty append_Nil drop_0)
  show ?thesis
  proof (cases ok)
    case True
    then obtain ra' where "table_sort_records_by_id (rec_heap t) ra = Some ra'"
      "array_view ra' (sort_key (rid (rec_heap t)) (concat pss))"
      using table_sort_records_by_id_view [of ra "concat pss" "rec_heap t"] c(2) rows_denote_users(2) [OF t] by auto
    then have "table_collect_all_sorted (Some t) e = Some (True, ra', Some t, e')"
      "array_view ra' (sort_key (rid (rec_heap t)) (concat pss))"
      using c True by (simp_all add: table_collect_all_sorted_def)
    then show ?thesis using rows_denote_users(1) [OF t] c(3) by (metis (full_types))
  next
    case False
    then show ?thesis using c by (auto simp: table_collect_all_sorted_def)
  qed
qed

section \<open>Filtering\<close>

text \<open>A filter into a growing array: what the loop does, for any such array.\<close>

function filter_with ::
    "(RecordArray \<Rightarrow> nat \<Rightarrow> env \<Rightarrow> (bool \<times> RecordArray \<times> env) option) \<Rightarrow> (nat \<rightharpoonup> Record) \<Rightarrow> (Record \<Rightarrow> bool) \<Rightarrow> RecordArray \<Rightarrow> nat
     \<Rightarrow> RecordArray \<Rightarrow> env \<Rightarrow> (bool \<times> RecordArray \<times> env) option" where
  "filter_with app h test all_records index ra e =
     (if index < ra_count all_records
      then do { p \<leftarrow> rd_init (ra_cells all_records) index;
                r \<leftarrow> h p;
                if test r
                then do { (ok, ra', e') \<leftarrow> app ra p e;
                          if ok then filter_with app h test all_records (index + 1) ra' e'
                          else Some (False, table_free_record_array ra', e') }
                else filter_with app h test all_records (index + 1) ra e }
      else Some (True, ra, e))"
  by pat_completeness auto
termination
  by (relation "measure (\<lambda>(app, h, test, all_records, index, ra, e). ra_count all_records - index)") auto

declare filter_with.simps [simp del]

lemma filter_loop_with: "filter_loop h test all i ra e = filter_with table_append_record h test all i ra e"
proof (induction "ra_count all - i" arbitrary: i ra e)
  case 0
  then show ?case by (subst filter_loop.simps, subst filter_with.simps) simp
next
  case (Suc d)
  have IH: "filter_loop h test all (Suc i) ra e = filter_with table_append_record h test all (Suc i) ra e" for ra e
    using Suc.hyps(1) [of "Suc i" ra e] Suc.hyps(2) by simp
  show ?case by (subst filter_loop.simps, subst filter_with.simps) (auto simp: IH intro!: Option.bind_cong)
qed

lemma filter_with_eq:
  assumes "array_view all ps" and "denotes h ps us"
  shows "i \<le> length us \<Longrightarrow> filter_with app h test all i ra e =
    do { (ok, ra', e') \<leftarrow> append_all app ra
           (map fst (filter (\<lambda>(p, u). test u) (zip (drop i ps) (drop i us)))) e;
         Some (ok, if ok then ra' else table_free_record_array ra', e') }"
proof (induction "length us - i" arbitrary: i ra e)
  case 0
  then show ?case using assms denotes_length [OF assms(2)]
    by (subst filter_with.simps) (simp add: array_view_def)
next
  case (Suc d)
  then have i: "i < length us" "i < length ps" and d': "d = length us - Suc i" using denotes_length [OF assms(2)] by simp_all
  have d: "drop i ps = ps ! i # drop (Suc i) ps" "drop i us = us ! i # drop (Suc i) us"
    using i by (simp_all add: Cons_nth_drop_Suc)
  have cnt: "ra_count all = length ps" using assms(1) by (simp add: array_view_def)
  have IH: "filter_with app h test all (Suc i) ra e =
    do { (ok, ra', e') \<leftarrow> append_all app ra
           (map fst (filter (\<lambda>(p, u). test u) (zip (drop (Suc i) ps) (drop (Suc i) us)))) e;
         Some (ok, if ok then ra' else table_free_record_array ra', e') }" for ra e
    using Suc.hyps(1) [of "Suc i" ra e] d' i by simp
  show ?case unfolding d
    using i cnt array_view_nth [OF assms(1) i(2)] denotes_nth [OF assms(2) i(1)]
    by (subst filter_with.simps) (auto simp: IH split: prod.splits bind_split)
qed

lemma denotes_filter:
  "map h ps = map Some us \<Longrightarrow>
   denotes h (map fst (filter (\<lambda>(p, u). test u) (zip ps us))) (filter test us)"
proof (induction ps arbitrary: us)
  case (Cons p ps)
  then show ?case by (cases us) (auto simp: denotes_def)
qed (simp add: denotes_def)

lemma filter_with_ok:
  assumes g: "growable app array_view" and v: "array_view all ps" and d: "denotes h ps us"
  shows "\<exists>ok ra e' qs. filter_with app h test all 0 empty_array e = Some (ok, ra, e') \<and>
    (if ok then array_view ra qs \<and> denotes h qs (filter test us) else ra_cells ra = [] \<and> ra_count ra = 0) \<and>
    (all_succeed e \<longrightarrow> ok \<and> all_succeed e')"
proof -
  let ?qs = "map fst (filter (\<lambda>(p, u). test u) (zip ps us))"
  obtain ok ra e' where a: "append_all app empty_array ?qs e = Some (ok, ra, e')"
    "ok \<longrightarrow> array_view ra ?qs" "all_succeed e \<longrightarrow> ok \<and> all_succeed e'"
    using growable.append_all_view [OF g array_view_empty, of ?qs e] by auto
  have "filter_with app h test all 0 empty_array e = Some (ok, if ok then ra else table_free_record_array ra, e')"
    using filter_with_eq [OF v d, of 0 app test empty_array e] a(1) by simp
  moreover have "denotes h ?qs (filter test us)" using d by (intro denotes_filter) (simp add: denotes_def)
  ultimately show ?thesis using a(2,3) by (cases ok) (auto simp: table_free_record_array_def)
qed

lemma filter_loop_ok:
  assumes "array_view all ps" and "denotes h ps us"
  shows "\<exists>ok ra e' qs. filter_loop h test all 0 empty_array e = Some (ok, ra, e') \<and>
    (if ok then array_view ra qs \<and> denotes h qs (filter test us) else ra_cells ra = [] \<and> ra_count ra = 0) \<and>
    (all_succeed e \<longrightarrow> ok \<and> all_succeed e')"
  unfolding filter_loop_with using filter_with_ok [OF ra.growable_axioms assms] .

lemma collect_filtered_ok:
  assumes "table_models t us"
  shows "\<exists>ok ra e' ps. collect_filtered t test e = Some (ok, ra, Some t, e') \<and>
    (if ok then array_view ra ps \<and> denotes (rec_heap t) ps (filter test us) else ra_cells ra = [] \<and> ra_count ra = 0) \<and>
    (all_succeed e \<longrightarrow> ok \<and> all_succeed e')"
proof -
  obtain ok all e1 ps where c: "table_collect_all_sorted (Some t) e = Some (ok, all, Some t, e1)"
    "if ok then array_view all ps \<and> denotes (rec_heap t) ps us else ra_cells all = [] \<and> ra_count all = 0"
    "all_succeed e \<longrightarrow> ok \<and> all_succeed e1" using collect_all_sorted_ok [OF assms] by blast
  show ?thesis
  proof (cases ok)
    case True
    then obtain ok' ra e' qs where "filter_loop (rec_heap t) test all 0 empty_array e1 = Some (ok', ra, e')"
      "if ok' then array_view ra qs \<and> denotes (rec_heap t) qs (filter test us) else ra_cells ra = [] \<and> ra_count ra = 0"
      "all_succeed e1 \<longrightarrow> ok' \<and> all_succeed e'"
      using filter_loop_ok [of all ps "rec_heap t" us test e1] c(2) by auto
    then show ?thesis using c True by (auto simp: collect_filtered_def)
  next
    case False
    then have "collect_filtered t test e = Some (False, empty_array, Some t, e1)"
      using c(1) by (simp add: collect_filtered_def)
    then show ?thesis using False c(3) by (auto simp: empty_array_def)
  qed
qed

section \<open>Lookup by id\<close>

text \<open>The specification of a lookup.\<close>

definition user_with_id :: "Record list \<Rightarrow> int \<Rightarrow> Record option" where
  "user_with_id us k = find (\<lambda>u. rec_id u = k) us"

lemma user_with_id_Some: "users_ok us n \<Longrightarrow> u \<in> set us \<Longrightarrow> user_with_id us (rec_id u) = Some u"
proof -
  assume ok: "users_ok us n" and u: "u \<in> set us"
  then obtain v where v: "find (\<lambda>v. rec_id v = rec_id u) us = Some v"
    by (cases "find (\<lambda>v. rec_id v = rec_id u) us") (auto simp: find_None_iff)
  then have "v \<in> set us" "rec_id v = rec_id u" by (auto simp: find_Some_iff)
  then have "v = u" using users_distinct(2) [OF ok] u by (meson inj_onD)
  then show ?thesis using v by (simp add: user_with_id_def)
qed

lemma user_with_id_None: "(\<forall>u \<in> set us. rec_id u \<noteq> k) \<Longrightarrow> user_with_id us k = None"
  by (simp add: user_with_id_def find_None_iff)

text \<open>A pointer result means a user: a valid pointer to that record, or \<open>NULL\<close> when there is none.\<close>

definition points_to :: "(nat \<rightharpoonup> Record) \<Rightarrow> nat option \<Rightarrow> Record option \<Rightarrow> bool" where
  "points_to h r u \<longleftrightarrow> (case r of None \<Rightarrow> u = None | Some p \<Rightarrow> \<exists>v. h p = Some v \<and> u = Some v)"

lemma rows_user:
  assumes "table_rows t pss us" and "i < 16" and "p \<in> set (pss ! i)"
  shows "\<exists>u \<in> set us. rec_heap t p = Some u \<and> table_bucket_index_for_id (rec_id u) = i"
proof -
  obtain u where u: "rec_heap t p = Some u" "table_bucket_index_for_id (rec_id u) = i"
    using bucket_ok_record [OF table_rows_bucket [OF assms(1,2)] assms(3)] by blast
  have "p \<in> set (concat pss)" using assms by (auto simp: table_rows_def intro!: bexI [of _ "pss ! i"])
  then have "the (rec_heap t p) \<in> set us" unfolding table_rows_set [OF assms(1)] by blast
  then show ?thesis using u by auto
qed

lemma user_row:
  assumes "table_rows t pss us" and "u \<in> set us"
  shows "\<exists>p \<in> set (pss ! table_bucket_index_for_id (rec_id u)). rec_heap t p = Some u"
proof -
  obtain p where p: "p \<in> set (concat pss)" "the (rec_heap t p) = u"
    using assms(2) unfolding table_rows_set [OF assms(1)] by blast
  then obtain qs where "qs \<in> set pss" "p \<in> set qs" by auto
  then obtain i where i: "i < 16" "p \<in> set (pss ! i)"
    using assms(1) unfolding table_rows_def by (metis in_set_conv_nth)
  then show ?thesis using rows_user [OF assms(1) i] p(2) by auto
qed

lemma table_find_by_id_ok:
  assumes t: "table_models t us" and e: "env_next e = (ok, e')"
  shows "\<exists>r. table_find_by_id (Some t) k e = Some (r, Some t, e') \<and>
    (if ok then points_to (rec_heap t) r (user_with_id us k) else r = None)"
proof -
  obtain pss where t': "table_rows t pss us" using t by (auto simp: table_models_def)
  let ?i = "table_bucket_index_for_id k" and ?h = "rec_heap t"
  let ?b = "buckets t ! ?i" and ?ps = "pss ! ?i"
  have i: "?i < 16" "?i < length (buckets t)" using bucket_index_less t' by (auto simp: table_rows_def)
  then have b: "bucket_ok ?h ?i ?b ?ps" and ok: "users_ok us (next_id t)" using t' by (auto simp: table_rows_def)
  then obtain ix es where ix: "pk_index ?b = Some ix" "bptree_entries ix es" "set es = (\<lambda>p. (rid ?h p, Some p)) ` set ?ps"
    and l: "bk_lock ?b = Unlocked" by (auto simp: bucket_ok_def)
  have s: "bptree_search (Some ix) k = Some (case map_of es k of None \<Rightarrow> None | Some v \<Rightarrow> v)"
    using ix(2) by (rule bp.ix_search_model)
  have "points_to ?h (case map_of es k of None \<Rightarrow> None | Some v \<Rightarrow> v) (user_with_id us k)"
  proof (cases "map_of es k")
    case None
    then have "k \<notin> fst ` set es" by (simp only: map_of_eq_None_iff not_False_eq_True)
    then have "\<forall>p \<in> set ?ps. rid ?h p \<noteq> k" using ix(3) by force
    then have "\<forall>u \<in> set us. rec_id u \<noteq> k" using user_row [OF t'] by (force simp: rid_def)
    then show ?thesis using None by (simp add: points_to_def user_with_id_None)
  next
    case (Some v)
    then obtain p where p: "p \<in> set ?ps" "k = rid ?h p" "v = Some p" using ix(3) map_of_SomeD [OF Some] by auto
    then obtain u where u: "u \<in> set us" "?h p = Some u" using rows_user [OF t' i(1)] by blast
    then have "user_with_id us k = Some u" using user_with_id_Some [OF ok u(1)] p(2) by (simp add: rid_def)
    then show ?thesis using Some p(3) u(2) by (simp add: points_to_def)
  qed
  then show ?thesis
    using bucket_rdlock_eq [OF i(2) l e] bucket_unlock_read [OF i(2) l] read_locked_bucket [OF i(2)] ix(1) s
    by (simp add: table_find_by_id_def Let_def)
qed

section \<open>Inserting\<close>

lemma bucket_ok_heap:
  "(\<And>p. p \<in> set ps \<Longrightarrow> h' p = h p) \<Longrightarrow> bucket_ok h i b ps \<Longrightarrow> bucket_ok h' i b ps"
proof -
  assume h: "\<And>p. p \<in> set ps \<Longrightarrow> h' p = h p" and b: "bucket_ok h i b ps"
  have "(\<lambda>p. (rid h' p, Some p)) ` set ps = (\<lambda>p. (rid h p, Some p)) ` set ps"
    using h by (intro image_cong) (simp_all add: rid_def)
  then show ?thesis using b h unfolding bucket_ok_def by simp
qed

lemma ensure_capacity_ok:
  assumes "bucket_ok h i b ps"
  shows "\<exists>ok b' e'. table_ensure_capacity (b\<lparr>bk_lock := l\<rparr>) e = (ok, b'\<lparr>bk_lock := l\<rparr>, e') \<and> bucket_ok h i b' ps \<and>
    (ok \<longrightarrow> length ps < length (bk_rows b')) \<and> (all_succeed e \<longrightarrow> ok \<and> all_succeed e')"
proof (cases "bk_size b < bk_capacity b")
  case True
  then show ?thesis using assms by (intro exI [of _ True] exI [of _ b]) (simp add: table_ensure_capacity_def bucket_ok_def)
next
  case False
  define n where "n = (if bk_capacity b = 0 then 8 else bk_capacity b * 2)"
  obtain ok e' where e: "env_next e = (ok, e')" by (cases "env_next e")
  have b: "bk_size b = length ps" "bk_capacity b = length (bk_rows b)" "length ps \<le> length (bk_rows b)"
    using assms by (simp_all add: bucket_ok_def)
  then have len: "length (bk_rows b) = length ps" using False by simp
  have n: "length ps < n" unfolding n_def b(2) len by (cases ps) simp_all
  let ?b = "b\<lparr>bk_rows := grow_cells (bk_rows b) n, bk_capacity := n\<rparr>"
  have "table_ensure_capacity (b\<lparr>bk_lock := l\<rparr>) e = (if ok then (True, ?b\<lparr>bk_lock := l\<rparr>, e') else (False, b\<lparr>bk_lock := l\<rparr>, e'))"
    using False e by (simp add: table_ensure_capacity_def Let_def n_def)
  moreover have "bucket_ok h i ?b ps" using assms n len by (auto simp: bucket_ok_def)
  moreover have "length ps < length (bk_rows ?b)" using n len by simp
  moreover have "all_succeed e \<longrightarrow> ok \<and> all_succeed e'" using env_next_succeed [OF e] by blast
  ultimately show ?thesis
    using assms by (intro exI [of _ ok] exI [of _ "if ok then ?b else b"] exI [of _ e']) (cases ok, simp_all)
qed

text \<open>A bucket after its new record is in the index and in the rows.\<close>

lemma bucket_ok_insert:
  assumes b: "bucket_ok h i b ps" and ix: "bptree_entries ix (ins_entry (rec_id r) (Some p) es)"
    and es: "pk_index b = Some ix0" "set es = (\<lambda>p. (rid h p, Some p)) ` set ps"
    and p: "h p = None" "table_bucket_index_for_id (rec_id r) = i" "length ps < length (bk_rows b)"
  shows "bucket_ok (h(p \<mapsto> r)) i
    (b\<lparr>pk_index := Some ix, bk_rows := (bk_rows b)[length ps := Some p], bk_size := Suc (length ps)\<rparr>) (ps @ [p])"
proof -
  have ps: "p \<notin> set ps" using bucket_ok_record [OF b] p(1) by fastforce
  have b': "bucket_ok (h(p \<mapsto> r)) i b ps" by (rule bucket_ok_heap [OF _ b]) (use ps in auto)
  have "set (ins_entry (rec_id r) (Some p) es) = (\<lambda>q. (rid (h(p \<mapsto> r)) q, Some q)) ` set (ps @ [p])"
  proof -
    have "(\<lambda>q. (rid (h(p \<mapsto> r)) q, Some q)) ` set ps = (\<lambda>q. (rid h q, Some q)) ` set ps"
      using ps by (intro image_cong) (auto simp: rid_def)
    then show ?thesis using es(2) by (simp add: set_ins_entry rid_def)
  qed
  then show ?thesis using b' ix p(2,3) unfolding bucket_ok_def by (auto simp: take_Suc_update)
qed

lemma concat_update_mset: "i < length pss \<Longrightarrow> mset (concat (pss[i := pss ! i @ [p]])) = mset (p # concat pss)"
proof (induction pss arbitrary: i)
  case (Cons qs pss)
  then show ?case by (cases i) auto
qed simp

lemma users_ok_snoc:
  "users_ok us n \<Longrightarrow> n < INT_MAX \<Longrightarrow> rec_id r = n \<Longrightarrow> users_ok (us @ [r]) (n + 1)"
  by (auto simp: users_ok_def sorted_wrt_append)

lemma users_ok_later: "users_ok us n \<Longrightarrow> n \<le> m \<Longrightarrow> m \<le> INT_MAX \<Longrightarrow> users_ok us m"
  by (auto simp: users_ok_def)

lemma table_rows_insert:
  assumes t: "table_rows t pss us" and i: "i < 16" and p: "p = rec_brk t" and r: "rec_id r = next_id t" "next_id t < INT_MAX"
    and b: "bucket_ok ((rec_heap t)(p \<mapsto> r)) i b (pss ! i @ [p])"
  shows "table_rows (t\<lparr>next_id := next_id t + 1, buckets := (buckets t)[i := b],
      rec_heap := (rec_heap t)(p \<mapsto> r), rec_brk := Suc p\<rparr>) (pss[i := pss ! i @ [p]]) (us @ [r])"
proof -
  let ?pss = "pss[i := pss ! i @ [p]]" and ?h = "(rec_heap t)(p \<mapsto> r)"
  have len: "length (buckets t) = 16" "length pss = 16" using t by (simp_all add: table_rows_def)
  have m: "mset (concat ?pss) = mset (p # concat pss)" using i len by (simp add: concat_update_mset)
  have lt: "\<forall>q \<in> set (concat pss). q < p" and dom: "dom (rec_heap t) = set (concat pss)"
    and d: "distinct (concat pss)" and us: "mset (map (\<lambda>q. the (rec_heap t q)) (concat pss)) = mset us"
    and ok: "users_ok us (next_id t)" using t p by (simp_all add: table_rows_def)
  have fresh: "p \<notin> set (concat pss)" using lt by blast
  have set: "set (concat ?pss) = insert p (set (concat pss))" using mset_eq_setD [OF m] by simp
  have other: "bucket_ok ?h j (buckets t ! j) (pss ! j)" if "j < 16" for j
  proof (rule bucket_ok_heap [OF _ table_rows_bucket [OF t that]])
    show "?h q = rec_heap t q" if "q \<in> set (pss ! j)" for q
      using fresh that \<open>j < 16\<close> len(2) by (auto dest: nth_mem)
  qed
  have "\<forall>j < 16. bucket_ok ?h j ((buckets t)[i := b] ! j) (?pss ! j)"
    using b other len i by (auto simp: nth_list_update)
  moreover have "distinct (concat ?pss)" using mset_eq_imp_distinct_iff [OF m] d fresh by simp
  moreover have "mset (map (\<lambda>q. the (?h q)) (concat ?pss)) = mset (us @ [r])"
  proof -
    have "mset (map (\<lambda>q. the (?h q)) (concat ?pss)) = image_mset (\<lambda>q. the (?h q)) (mset (p # concat pss))"
      unfolding mset_map m ..
    also have "\<dots> = {#r#} + mset (map (\<lambda>q. the (?h q)) (concat pss))" by simp
    also have "map (\<lambda>q. the (?h q)) (concat pss) = map (\<lambda>q. the (rec_heap t q)) (concat pss)"
      using fresh by (intro map_cong) auto
    finally show ?thesis using us by simp
  qed
  moreover have "users_ok (us @ [r]) (next_id t + 1)" using users_ok_snoc [OF ok r(2,1)] .
  moreover have "\<forall>q \<in> set (concat ?pss). q < Suc p" unfolding set using lt less_SucI by blast
  ultimately show ?thesis using t len dom set unfolding table_rows_def by (simp del: set_concat mset_map)
qed

lemma table_rows_keep:
  assumes "table_rows t pss us" and "i < 16" and "bucket_ok (rec_heap t) i b (pss ! i)"
    and "next_id t \<le> n" "n \<le> INT_MAX" and "rec_brk t \<le> m"
  shows "table_rows (t\<lparr>next_id := n, buckets := (buckets t)[i := b], rec_brk := m\<rparr>) pss us"
proof -
  have "\<forall>p \<in> set (concat pss). p < m" using assms(1,6) unfolding table_rows_def by (meson less_le_trans)
  moreover have "users_ok us n" using assms(1,4,5) users_ok_later unfolding table_rows_def by blast
  moreover have "\<forall>j < 16. bucket_ok (rec_heap t) j ((buckets t)[i := b] ! j) (pss ! j)"
    using assms(1,2,3) by (auto simp: table_rows_def nth_list_update)
  ultimately show ?thesis using assms(1) unfolding table_rows_def by simp
qed

definition write_locked :: "Table \<Rightarrow> nat \<Rightarrow> Table" where
  "write_locked t i = put_bucket t i ((buckets t ! i)\<lparr>bk_lock := WriteLocked\<rparr>)"

lemma bucket_wrlock_eq:
  assumes "i < length (buckets t)" and "bk_lock (buckets t ! i) = Unlocked" and "env_next e = (ok, e')"
  shows "bucket_wrlock t i e = Some (ok, if ok then write_locked t i else t, e')"
  using assms by (simp add: bucket_wrlock_def array_simps pthread_rwlock_wrlock_def write_locked_def)

lemma bucket_unlock_write:
  "i < length (buckets t) \<Longrightarrow> bk_lock b = WriteLocked \<Longrightarrow>
   bucket_unlock (put_bucket t i b) i = Some (put_bucket t i (b\<lparr>bk_lock := Unlocked\<rparr>))"
  by (simp add: bucket_unlock_def array_simps put_bucket_nth)

text \<open>The new record and the table after its insertion, or after a failure that leaves the bucket
  as it was.\<close>

definition new_record :: "Table \<Rightarrow> string \<Rightarrow> int \<Rightarrow> Record" where
  "new_record t name age = \<lparr>rec_id = next_id t, rec_name = bounded RECORD_NAME_SIZE name, rec_age = age\<rparr>"

definition insert_result :: "Table \<Rightarrow> Record list \<Rightarrow> Record \<Rightarrow> nat option \<Rightarrow> Table \<Rightarrow> bool" where
  "insert_result t us u r t' \<longleftrightarrow>
     (case r of None \<Rightarrow> table_models t' us \<and> next_id t \<le> next_id t'
      | Some p \<Rightarrow> rec_heap t' p = Some u \<and> table_models t' (us @ [u]) \<and> next_id t' = next_id t + 1)"

text \<open>\<open>guarded n e\<close>: no call fails, or the first failure is one of the next \<open>n + 1\<close> calls. A table
  insertion makes at most four calls before the allocations of the index, so a first failure
  among its first four calls is harmless.\<close>

definition guarded :: "nat \<Rightarrow> env \<Rightarrow> bool" where
  "guarded n e \<longleftrightarrow> all_succeed e \<or> (\<exists>j e'. j \<le> n \<and> e = replicate j True @ False # e')"

lemma guarded_all [simp]: "all_succeed e \<Longrightarrow> guarded n e"
  by (simp add: guarded_def)

lemma guarded_mono: "guarded n e \<Longrightarrow> n \<le> m \<Longrightarrow> guarded m e"
  unfolding guarded_def using order_trans by blast

lemma guarded_step: "guarded (Suc n) e \<Longrightarrow> env_next e = (True, e') \<Longrightarrow> guarded n e'"
proof -
  assume g: "guarded (Suc n) e" and e: "env_next e = (True, e')"
  show "guarded n e'"
  proof (cases "all_succeed e")
    case True
    then show ?thesis using env_next_succeed [OF e] by simp
  next
    case False
    then obtain j f where j: "j \<le> Suc n" "e = replicate j True @ False # f" using g by (auto simp: guarded_def)
    then obtain k where k: "j = Suc k" using e by (cases j) auto
    then have "e' = replicate k True @ False # f" using j e by simp
    then show ?thesis using j(1) k by (auto simp: guarded_def)
  qed
qed

lemma guarded_0_step: "guarded 0 e \<Longrightarrow> env_next e = (True, e') \<Longrightarrow> all_succeed e'"
  using env_next_succeed [of e True e'] by (auto simp: guarded_def)

lemma ensure_capacity_guarded:
  assumes "table_ensure_capacity b e = (True, b', e')" and "guarded 1 e"
  shows "guarded 1 e'"
proof (cases "bk_size b < bk_capacity b")
  case True
  then show ?thesis using assms by (simp add: table_ensure_capacity_def)
next
  case False
  then have "env_next e = (True, e')"
    using assms(1) by (auto simp: table_ensure_capacity_def Let_def split: prod.splits if_splits)
  then have "guarded 0 e'" using assms(2) guarded_step [of 0 e e'] by simp
  then show ?thesis by (rule guarded_mono) simp
qed

lemma index_insert_guarded:
  assumes "bptree_entries ix es" and "k \<notin> fst ` set es" and "guarded 0 e"
  shows "\<exists>ok ix' e'. bptree_insert (Some ix) k v e = Some (ok, Some ix', e') \<and>
    bptree_entries ix' (if ok then ins_entry k v es else es) \<and> (all_succeed e \<longrightarrow> ok \<and> all_succeed e')"
proof (cases "all_succeed e")
  case True
  then obtain t' e' where "bptree_insert (Some ix) k v e = Some (True, Some t', e')"
    "bptree_entries t' (ins_entry k v es)" "all_succeed e'" using bp.ix_insert_new [OF assms(1,2)] by blast
  then show ?thesis by (intro exI [of _ True] exI [of _ t'] exI [of _ e']) simp
next
  case False
  then obtain f where e: "e = False # f" using assms(3) by (auto simp: guarded_def)
  obtain t1 e1 where "bptree_insert (Some ix) k v [] = Some (True, Some t1, e1)" "bptree_entries t1 (ins_entry k v es)"
    using bp.ix_insert_new [OF assms(1,2), of "[]" v] by auto
  with bptree_insert_first_failure [OF assms(1,2), of v f]
  consider "bptree_insert (Some ix) k v e = Some (False, Some ix, f)"
    | "bptree_insert (Some ix) k v e = Some (True, Some t1, False # f)" "bptree_entries t1 (ins_entry k v es)"
    unfolding e by auto
  then show ?thesis
  proof cases
    case 1
    then show ?thesis using assms(1) False by (intro exI [of _ False] exI [of _ ix] exI [of _ f]) simp
  next
    case 2
    then show ?thesis using False by (intro exI [of _ True] exI [of _ t1] exI [of _ "False # f"]) simp
  qed
qed

text \<open>The critical section on the bucket together with the unlock behind it.\<close>

lemma bucket_fresh:
  assumes "table_rows t pss us" and "i < 16"
    and "set es = (\<lambda>p. (rid (rec_heap t) p, Some p)) ` set (pss ! i)"
  shows "next_id t \<notin> fst ` set es"
proof
  assume "next_id t \<in> fst ` set es"
  then obtain p where p: "p \<in> set (pss ! i)" "rid (rec_heap t) p = next_id t" unfolding assms(3) by auto
  then obtain u where "u \<in> set us" "rec_id u = next_id t" using rows_user [OF assms(1,2) p(1)] by (auto simp: rid_def)
  then show False using assms(1) by (auto simp: table_rows_def users_ok_def)
qed

text \<open>The end of the critical section: the record is allocated and the index has answered.\<close>

lemma insert_commit:
  assumes t: "table_rows t pss us" and n: "next_id t < INT_MAX" and i: "i = table_bucket_index_for_id (next_id t)" "i < 16"
    and b: "bucket_ok (rec_heap t) i b (pss ! i)" "length (pss ! i) < length (bk_rows b)"
    and es: "pk_index b = Some ix" "set es = (\<lambda>p. (rid (rec_heap t) p, Some p)) ` set (pss ! i)"
    and ix: "bptree_entries ix' (if ok then ins_entry (next_id t) (Some (rec_brk t)) es else es)"
  shows "insert_result t us (new_record t name age) (if ok then Some (rec_brk t) else None)
    (if ok
     then t\<lparr>next_id := next_id t + 1,
       buckets := (buckets t)[i := b\<lparr>pk_index := Some ix', bk_rows := (bk_rows b)[length (pss ! i) := Some (rec_brk t)],
         bk_size := Suc (length (pss ! i))\<rparr>],
       rec_heap := (rec_heap t)(rec_brk t \<mapsto> new_record t name age), rec_brk := Suc (rec_brk t)\<rparr>
     else t\<lparr>next_id := next_id t + 1, buckets := (buckets t)[i := b\<lparr>pk_index := Some ix'\<rparr>], rec_brk := Suc (rec_brk t)\<rparr>)"
proof (cases ok)
  case True
  have hp: "rec_heap t (rec_brk t) = None" using t unfolding table_rows_def by (metis domIff less_irrefl)
  have r: "rec_id (new_record t name age) = next_id t" by (simp add: new_record_def)
  have "bucket_ok ((rec_heap t)(rec_brk t \<mapsto> new_record t name age)) i
      (b\<lparr>pk_index := Some ix', bk_rows := (bk_rows b)[length (pss ! i) := Some (rec_brk t)],
         bk_size := Suc (length (pss ! i))\<rparr>) (pss ! i @ [rec_brk t])"
    using bucket_ok_insert [OF b(1) _ es hp _ b(2), of ix' "new_record t name age"] ix True r i(1) by simp
  then show ?thesis using table_rows_insert [OF t i(2) refl r n] True
    by (auto simp: insert_result_def table_models_def)
next
  case False
  have "bucket_ok (rec_heap t) i (b\<lparr>pk_index := Some ix'\<rparr>) (pss ! i)"
    using b(1) ix es(2) False by (auto simp: bucket_ok_def)
  then show ?thesis using table_rows_keep [OF t i(2), of _ "next_id t + 1" "Suc (rec_brk t)"] n False
    by (auto simp: insert_result_def table_models_def)
qed

lemma table_update_order:
  "t\<lparr>next_id := n, rec_brk := p, buckets := B\<rparr> = t\<lparr>next_id := n, buckets := B, rec_brk := p\<rparr>"
  "t\<lparr>next_id := n, rec_heap := h, rec_brk := p, buckets := B\<rparr> =
   t\<lparr>next_id := n, buckets := B, rec_heap := h, rec_brk := p\<rparr>"
  "b\<lparr>pk_index := x, bk_lock := l\<rparr> = b\<lparr>bk_lock := l, pk_index := x\<rparr>"
  "b\<lparr>pk_index := x, bk_rows := rs, bk_size := m, bk_lock := l\<rparr> = b\<lparr>bk_lock := l, pk_index := x, bk_rows := rs, bk_size := m\<rparr>"
  by (cases t; cases b; simp)+

lemma insert_into_bucket_ok:
  assumes t: "table_rows t pss us" and n: "next_id t < INT_MAX" and i: "i = table_bucket_index_for_id (next_id t)"
    and g: "guarded 1 e"
  shows "\<exists>r t3 t4 e3. insert_into_bucket (write_locked (t\<lparr>next_id := next_id t + 1\<rparr>) i) i (next_id t) name age e = Some (r, t3, e3) \<and>
    bucket_unlock t3 i = Some t4 \<and> insert_result t us (new_record t name age) r t4 \<and>
    (all_succeed e \<longrightarrow> r \<noteq> None \<and> all_succeed e3)"
proof -
  let ?h = "rec_heap t" and ?b = "buckets t ! i" and ?ps = "pss ! i" and ?p = "rec_brk t" and ?r = "new_record t name age"
  let ?T = "write_locked (t\<lparr>next_id := next_id t + 1\<rparr>) i"
  have i16: "i < 16" unfolding i by (rule bucket_index_less)
  then have len: "i < length (buckets t)" and b: "bucket_ok ?h i ?b ?ps" using t by (simp_all add: table_rows_def)
  have hp: "?h ?p = None" using t unfolding table_rows_def by (metis domIff less_irrefl)
  have T: "rd (buckets ?T) i = Some (?b\<lparr>bk_lock := WriteLocked\<rparr>)" "length (buckets ?T) = length (buckets t)"
    using len by (simp_all add: write_locked_def put_bucket_def array_simps)
  obtain ok1 b1 e1 where c: "table_ensure_capacity (?b\<lparr>bk_lock := WriteLocked\<rparr>) e = (ok1, b1\<lparr>bk_lock := WriteLocked\<rparr>, e1)"
    and b1: "bucket_ok ?h i b1 ?ps" "ok1 \<longrightarrow> length ?ps < length (bk_rows b1)" and a1: "all_succeed e \<longrightarrow> ok1 \<and> all_succeed e1"
    using ensure_capacity_ok [OF b, of WriteLocked e] by blast
  obtain ok2 e2 where c2: "env_next e1 = (ok2, e2)" by (cases "env_next e1")
  have keep: "insert_result t us ?r None (put_bucket ?T i b')" if "bucket_ok ?h i b' ?ps" for b'
  proof -
    have "put_bucket ?T i b' = t\<lparr>next_id := next_id t + 1, buckets := (buckets t)[i := b'], rec_brk := rec_brk t\<rparr>"
      by (simp add: write_locked_def put_bucket_def)
    then show ?thesis using table_rows_keep [OF t i16 that, of "next_id t + 1" "rec_brk t"] n
      by (auto simp: insert_result_def table_models_def)
  qed
  have ul: "b1\<lparr>bk_lock := Unlocked\<rparr> = b1" using b1(1) by (simp add: bucket_ok_def)
  show ?thesis
  proof (cases "ok1 \<and> ok2")
    case False
    then have "\<exists>e3. insert_into_bucket ?T i (next_id t) name age e = Some (None, put_bucket ?T i (b1\<lparr>bk_lock := WriteLocked\<rparr>), e3)"
      using T(1) c c2 by (auto simp: insert_into_bucket_def split: bool.splits)
    moreover have "\<not> all_succeed e" using False a1 env_next_succeed [OF c2] by blast
    ultimately show ?thesis using keep [OF b1(1)] bucket_unlock_write [of i ?T "b1\<lparr>bk_lock := WriteLocked\<rparr>"] len T(2) ul by auto
  next
    case True
    have g2: "guarded 0 e2"
      using ensure_capacity_guarded [of _ e _ e1] c g c2 True guarded_step [of 0 e1 e2] by simp
    obtain ix es where ix: "pk_index b1 = Some ix" "bptree_entries ix es" "set es = (\<lambda>p. (rid ?h p, Some p)) ` set ?ps"
      using b1(1) by (auto simp: bucket_ok_def)
    obtain ok3 ix' e3 where ins: "bptree_insert (Some ix) (next_id t) (Some ?p) e2 = Some (ok3, Some ix', e3)"
      "bptree_entries ix' (if ok3 then ins_entry (next_id t) (Some ?p) es else es)" "all_succeed e2 \<longrightarrow> ok3 \<and> all_succeed e3"
      using index_insert_guarded [OF ix(2) bucket_fresh [OF t i16 ix(3)] g2] by blast
    let ?B = "if ok3 then b1\<lparr>pk_index := Some ix', bk_rows := (bk_rows b1)[length ?ps := Some ?p], bk_size := Suc (length ?ps)\<rparr>
      else b1\<lparr>pk_index := Some ix'\<rparr>"
    let ?F = "\<lambda>b. if ok3 then t\<lparr>next_id := next_id t + 1, buckets := (buckets t)[i := b],
        rec_heap := ?h(?p \<mapsto> ?r), rec_brk := Suc ?p\<rparr>
      else t\<lparr>next_id := next_id t + 1, buckets := (buckets t)[i := b], rec_brk := Suc ?p\<rparr>"
    have "?h(?p := None) = ?h" using hp by auto
    then have "insert_into_bucket ?T i (next_id t) name age e =
        Some (if ok3 then Some ?p else None, ?F (?B\<lparr>bk_lock := WriteLocked\<rparr>), e3)"
      using T(1) c c2 True ix(1) ins(1) b1 hp
      by (auto simp: insert_into_bucket_def Let_def new_record_def write_locked_def put_bucket_def array_simps bucket_ok_def
          table_update_order)
    moreover have "bucket_unlock (?F (?B\<lparr>bk_lock := WriteLocked\<rparr>)) i = Some (?F ?B)"
      using len ul by (auto simp: bucket_unlock_def array_simps put_bucket_def table_update_order)
    moreover have "insert_result t us ?r (if ok3 then Some ?p else None) (?F ?B)"
      using insert_commit [OF t n i i16 b1(1) _ ix(1,3) ins(2), of name age] b1(2) True by (cases ok3) simp_all
    moreover have "all_succeed e \<longrightarrow> ok3 \<and> all_succeed e3" using a1 env_next_succeed [OF c2] ins(3) by blast
    ultimately show ?thesis by (intro exI [of _ "if ok3 then Some ?p else None"] exI conjI) auto
  qed
qed

lemma take_next_id_eq:
  assumes "next_id_lock t = MutexFree" and "next_id t < INT_MAX" and "env_next e = (ok, e')"
  shows "take_next_id t e = Some (if ok then (Some (next_id t), t\<lparr>next_id := next_id t + 1\<rparr>, e') else (None, t, e'))"
proof -
  have "t\<lparr>next_id_lock := MutexFree\<rparr> = t" using assms(1) by (cases t) simp
  then have "t\<lparr>next_id := n, next_id_lock := MutexFree\<rparr> = t\<lparr>next_id := n\<rparr>" for n using assms(1) by (cases t) simp
  then show ?thesis using assms by (simp add: take_next_id_def pthread_mutex_lock_def)
qed

lemma table_insert_guarded:
  assumes t: "table_models t us" and n: "next_id t < INT_MAX" and g: "guarded 3 e"
  shows "\<exists>r t' e'. table_insert (Some t) (Some name) age e = Some (r, Some t', e') \<and>
    insert_result t us (new_record t name age) r t' \<and> (all_succeed e \<longrightarrow> r \<noteq> None \<and> all_succeed e')"
proof -
  obtain pss where rows: "table_rows t pss us" using t by (auto simp: table_models_def)
  define i where "i = table_bucket_index_for_id (next_id t)"
  let ?t1 = "t\<lparr>next_id := next_id t + 1\<rparr>"
  have i: "i < 16" unfolding i_def by (rule bucket_index_less)
  have m: "next_id_lock t = MutexFree" and len: "i < length (buckets t)" and l: "bk_lock (buckets t ! i) = Unlocked"
    using rows i by (auto simp: table_rows_def bucket_ok_def)
  obtain ok1 e1 where e1: "env_next e = (ok1, e1)" by (cases "env_next e")
  obtain ok2 e2 where e2: "env_next e1 = (ok2, e2)" by (cases "env_next e1")
  note take = take_next_id_eq [OF m n e1]
  have wr: "bucket_wrlock ?t1 i e1 = Some (ok2, if ok2 then write_locked ?t1 i else ?t1, e2)"
    using len l e2 by (intro bucket_wrlock_eq) simp_all
  have keep: "insert_result t us (new_record t name age) None t" using t by (simp add: insert_result_def)
  have keep1: "insert_result t us (new_record t name age) None ?t1"
    using table_rows_keep [OF rows i table_rows_bucket [OF rows i], of "next_id t + 1" "rec_brk t"] n
    by (auto simp: insert_result_def table_models_def)
  consider "\<not> ok1" | "ok1" "\<not> ok2" | "ok1" "ok2" by blast
  then show ?thesis
  proof cases
    case 1
    then show ?thesis using take keep env_next_succeed [OF e1] by (auto simp: table_insert_def)
  next
    case 2
    then show ?thesis using take wr keep1 env_next_succeed [OF e1] env_next_succeed [OF e2]
      by (auto simp: table_insert_def Let_def i_def)
  next
    case 3
    have "guarded 1 e2" using g e1 e2 3 guarded_step [of 2 e e1] guarded_step [of 1 e1 e2] by (simp add: numeral_eq_Suc)
    from insert_into_bucket_ok [OF rows n i_def this, of name age] show ?thesis
      using take wr 3 env_next_succeed [OF e1] env_next_succeed [OF e2]
      by (fastforce simp: table_insert_def Let_def i_def)
  qed
qed

end
