(* ===== verification/Table_Life.thy ===== *)
theory Table_Life
  imports Table_Correct
begin

text \<open>
  The whole life of a table: creation, the linear scan, destruction. The scan agrees with the
  index pointer for pointer, and destroying the table frees every record exactly once.
\<close>

section \<open>Linear scan\<close>

lemma scan_rows_loop_eq:
  assumes "bucket_ok h i b ps"
  shows "j \<le> length ps \<Longrightarrow>
    scan_rows_loop h (b\<lparr>bk_lock := l\<rparr>) k j = Some (find (\<lambda>p. rid h p = k) (drop j ps))"
proof (induction "length ps - j" arbitrary: j)
  case 0
  then show ?case using assms by (subst scan_rows_loop.simps) (simp add: bucket_ok_def)
next
  case (Suc d)
  then have j: "j < length ps" and d: "d = length ps - Suc j" by simp_all
  have size: "bk_size b = length ps" using assms by (simp add: bucket_ok_def)
  obtain r where r: "h (ps ! j) = Some r" using bucket_ok_record [OF assms, of "ps ! j"] j by auto
  have eq: "drop j ps = ps ! j # drop (Suc j) ps" using j by (simp add: Cons_nth_drop_Suc)
  show ?case unfolding eq
    using Suc.hyps(1) [OF d] j size r bucket_ok_rows [OF assms j]
    by (subst scan_rows_loop.simps) (simp add: rid_def)
qed

lemma find_concat_Cons: "find P (xs @ ys) = (case find P xs of None \<Rightarrow> find P ys | Some x \<Rightarrow> Some x)"
  by (induction xs) auto

lemma scan_buckets_loop_eq:
  assumes t: "table_rows t pss us"
  shows "i \<le> 16 \<Longrightarrow> all_succeed e \<Longrightarrow> \<exists>e'. scan_buckets_loop t k i e =
    Some (find (\<lambda>p. rid (rec_heap t) p = k) (concat (drop i pss)), t, e') \<and> all_succeed e'"
proof (induction "16 - i" arbitrary: i e)
  case 0
  then show ?case using t by (subst scan_buckets_loop.simps) (auto simp: TABLE_BUCKET_COUNT_def table_rows_def)
next
  case (Suc d)
  then have i: "i < 16" and d: "d = 16 - Suc i" by simp_all
  have len: "i < length (buckets t)" "i < length pss" using t i by (simp_all add: table_rows_def)
  note b = table_rows_bucket [OF t i]
  have l: "bk_lock (buckets t ! i) = Unlocked" using b by (simp add: bucket_ok_def)
  obtain e1 where e1: "env_next e = (True, e1)" "all_succeed e1"
    using Suc.prems(2) by (rule env_nextE)
  have eq: "concat (drop i pss) = pss ! i @ concat (drop (Suc i) pss)"
    using len(2) by (simp add: Cons_nth_drop_Suc [symmetric])
  have step: "scan_buckets_loop t k i e = (case find (\<lambda>p. rid (rec_heap t) p = k) (pss ! i) of
      Some p \<Rightarrow> Some (Some p, t, e1) | None \<Rightarrow> scan_buckets_loop t k (Suc i) e1)"
    using bucket_rdlock_eq [OF len(1) l e1(1)] bucket_unlock_read [OF len(1) l] read_locked_bucket [OF len(1)]
      scan_rows_loop_eq [OF b, of 0 "ReadLocked 1" k] i
    by (subst scan_buckets_loop.simps) (simp add: TABLE_BUCKET_COUNT_def)
  show ?case
  proof (cases "find (\<lambda>p. rid (rec_heap t) p = k) (pss ! i)")
    case None
    then show ?thesis using step Suc.hyps(1) [OF d _ e1(2)] i unfolding eq find_concat_Cons by simp
  next
    case (Some p)
    then show ?thesis using step e1(2) unfolding eq find_concat_Cons by simp
  qed
qed

text \<open>Two valid pointers to records of the same id are the same pointer.\<close>

lemma rid_inj:
  assumes "table_rows t pss us" and "rec_heap t p = Some u" and "rec_heap t q = Some v" and "rec_id u = rec_id v"
  shows "p = q"
proof -
  let ?f = "\<lambda>p. the (rec_heap t p)"
  have m: "mset (map ?f (concat pss)) = mset us" and ok: "users_ok us (next_id t)"
    and dom: "dom (rec_heap t) = set (concat pss)" using assms(1) by (simp_all add: table_rows_def)
  have "distinct (map ?f (concat pss))" using mset_eq_imp_distinct_iff [OF m] users_distinct(3) [OF ok] by simp
  then have inj: "inj_on ?f (set (concat pss))" by (simp only: distinct_map)
  have pq: "p \<in> set (concat pss)" "q \<in> set (concat pss)" using assms(2,3) dom by blast+
  have "?f p \<in> set us" "?f q \<in> set us" using pq unfolding table_rows_set [OF assms(1)] by blast+
  then have "?f p = ?f q" using users_distinct(2) [OF ok] assms(2-4) by (simp add: inj_on_def)
  then show ?thesis using inj_onD [OF inj _ pq] by blast
qed

lemma table_scan_by_id_ok:
  assumes "table_models t us" and "all_succeed e"
  shows "\<exists>r e'. table_scan_by_id (Some t) k e = Some (r, Some t, e') \<and> points_to (rec_heap t) r (user_with_id us k) \<and> all_succeed e'"
proof -
  obtain pss where t: "table_rows t pss us" using assms(1) by (auto simp: table_models_def)
  let ?h = "rec_heap t" and ?r = "find (\<lambda>p. rid (rec_heap t) p = k) (concat pss)"
  obtain e' where "scan_buckets_loop t k 0 e = Some (?r, t, e')" "all_succeed e'"
    using scan_buckets_loop_eq [OF t, of 0 e k] assms(2) by auto
  moreover have "points_to ?h ?r (user_with_id us k)"
  proof (cases ?r)
    case None
    then have "\<forall>u \<in> set us. rec_id u \<noteq> k" unfolding table_rows_set [OF t] by (auto simp: find_None_iff rid_def)
    then show ?thesis using None by (simp add: points_to_def user_with_id_None)
  next
    case (Some p)
    then have p: "p \<in> set (concat pss)" "rid ?h p = k" unfolding find_Some_iff using nth_mem by blast+
    then obtain u where u: "?h p = Some u" "u \<in> set us"
      using rows_denote_users(2) [OF t] unfolding table_rows_set [OF t] by force
    have "users_ok us (next_id t)" using t by (simp add: table_rows_def)
    then have "user_with_id us k = Some u" using user_with_id_Some [of us "next_id t" u] u p(2) by (simp add: rid_def)
    then show ?thesis using Some u(1) by (simp add: points_to_def)
  qed
  ultimately show ?thesis by (simp add: table_scan_by_id_def)
qed

lemma points_to_unique:
  assumes "table_models t us" and "points_to (rec_heap t) r x" and "points_to (rec_heap t) r' x"
  shows "r = r'"
proof -
  obtain pss where "table_rows t pss us" using assms(1) by (auto simp: table_models_def)
  then show ?thesis using assms(2,3) rid_inj [of t pss us] by (auto simp: points_to_def split: option.splits)
qed

section \<open>Creation\<close>

definition created_bucket :: TableBucket where
  "created_bucket = \<lparr>bk_lock = Unlocked, bk_rows = [], bk_size = 0, bk_capacity = 0,
     pk_index = Some \<lparr>root = None, nodes = Map.empty, brk = 0\<rparr>\<rparr>"

text \<open>The table while its buckets are set up, and when they are all there.\<close>

definition table_upto :: "nat \<Rightarrow> Table" where
  "table_upto i = \<lparr>next_id = 1, next_id_lock = MutexFree, next_id_lock_initialized = True, initialized_buckets = i,
     buckets = replicate i created_bucket @ replicate (16 - i) empty_bucket, rec_heap = Map.empty, rec_brk = 0\<rparr>"

lemma bucket_setup: "i < 16 \<Longrightarrow>
  (replicate i created_bucket @ replicate (16 - i) empty_bucket)[i := created_bucket] =
   replicate (Suc i) created_bucket @ replicate (16 - Suc i) empty_bucket"
  by (simp add: list_update_append Suc_diff_Suc [symmetric] replicate_append_same)

text \<open>A bucket without records whose lock is initialised; its index may be missing.\<close>

definition blank_bucket :: "TableBucket \<Rightarrow> bool" where
  "blank_bucket b \<longleftrightarrow> bk_lock b = Unlocked \<and> bk_size b = 0 \<and>
     (pk_index b = None \<or> pk_index b = Some \<lparr>root = None, nodes = Map.empty, brk = 0\<rparr>)"

lemma destroy_blank:
  "\<forall>j. i \<le> j \<and> j < initialized_buckets t \<longrightarrow> j < length (buckets t) \<and> blank_bucket (buckets t ! j) \<Longrightarrow>
   \<exists>t'. destroy_buckets_loop t i = Some t' \<and> next_id_lock t' = next_id_lock t"
proof (induction "initialized_buckets t - i" arbitrary: i t)
  case 0
  then show ?case by (subst destroy_buckets_loop.simps) simp
next
  case (Suc d)
  then have i: "i < initialized_buckets t" "i < length (buckets t)" "blank_bucket (buckets t ! i)" by auto
  then obtain b h where b: "destroy_bucket (buckets t ! i) (rec_heap t) = Some (b, h)"
    by (auto simp: destroy_bucket_def blank_bucket_def free_rows_loop.simps bptree_destroy_def bptree_destroy_node_def)
  let ?t = "(put_bucket t i b)\<lparr>rec_heap := h\<rparr>"
  have step: "destroy_buckets_loop t i = destroy_buckets_loop ?t (Suc i)"
    using i b by (subst destroy_buckets_loop.simps) (simp add: array_simps)
  have "\<forall>j. Suc i \<le> j \<and> j < initialized_buckets ?t \<longrightarrow> j < length (buckets ?t) \<and> blank_bucket (buckets ?t ! j)"
    using Suc.prems by (auto simp: put_bucket_def)
  then have "\<exists>t'. destroy_buckets_loop ?t (Suc i) = Some t' \<and> next_id_lock t' = next_id_lock ?t"
    using Suc.hyps by (intro Suc.hyps(1)) (simp_all add: put_bucket_def)
  then show ?case using step by (simp add: put_bucket_def)
qed

lemma table_destroy_blank:
  assumes "\<forall>j < initialized_buckets t. j < length (buckets t) \<and> blank_bucket (buckets t ! j)" and "next_id_lock t = MutexFree"
  shows "\<exists>h. table_destroy (Some t) = Some h"
proof -
  obtain t' where "destroy_buckets_loop t 0 = Some t'" "next_id_lock t' = MutexFree"
    using destroy_blank [of 0 t] assms by auto
  then show ?thesis by (simp add: table_destroy_def)
qed

text \<open>The set-up of the buckets ends with the complete table when no call fails, and otherwise with
  \<open>NULL\<close> after an orderly destruction of what was there.\<close>

lemma create_buckets_loop_ok:
  "i \<le> 16 \<Longrightarrow>
   \<exists>r e'. create_buckets_loop (table_upto i) i e = Some (r, e') \<and> (r = None \<or> r = Some (table_upto 16)) \<and>
     (all_succeed e \<longrightarrow> r \<noteq> None \<and> all_succeed e')"
proof (induction "16 - i" arbitrary: i e)
  case 0
  then show ?case by (subst create_buckets_loop.simps) (simp add: TABLE_BUCKET_COUNT_def table_upto_def)
next
  case (Suc d)
  then have i: "i < 16" and d: "d = 16 - Suc i" by simp_all
  obtain ok1 e1 where e1: "env_next e = (ok1, e1)" by (cases "env_next e")
  obtain ok2 e2 where e2: "env_next e1 = (ok2, e2)" by (cases "env_next e1")
  note succ = env_next_succeed [OF e1] env_next_succeed [OF e2]
  have b: "rd (buckets (table_upto i)) i = Some empty_bucket" using i by (simp add: table_upto_def rd_def nth_append)
  let ?t1 = "(put_bucket (table_upto i) i (empty_bucket\<lparr>bk_lock := Unlocked\<rparr>))\<lparr>initialized_buckets := i + 1\<rparr>"
  obtain h where h: "table_destroy (Some (table_upto i)) = Some h"
    using table_destroy_blank [of "table_upto i"] i
    by (auto simp: table_upto_def nth_append blank_bucket_def created_bucket_def)
  obtain h1 where h1: "table_destroy (Some ?t1) = Some h1"
    using table_destroy_blank [of ?t1] i
    by (auto simp: table_upto_def put_bucket_def nth_append nth_list_update blank_bucket_def created_bucket_def empty_bucket_def less_Suc_eq)
  have "ok1 \<Longrightarrow> ok2 \<Longrightarrow> create_buckets_loop (table_upto i) i e = create_buckets_loop (table_upto (Suc i)) (Suc i) e2"
    using e1 e2 b i bucket_setup [OF i]
    by (subst create_buckets_loop.simps)
       (simp add: TABLE_BUCKET_COUNT_def bptree_create_def Let_def put_bucket_def table_upto_def empty_bucket_def created_bucket_def)
  moreover have "\<not> (ok1 \<and> ok2) \<Longrightarrow> \<exists>e'. create_buckets_loop (table_upto i) i e = Some (None, e')"
    using e1 e2 b i h h1 by (subst create_buckets_loop.simps) (auto simp: TABLE_BUCKET_COUNT_def bptree_create_def Let_def)
  ultimately show ?case using Suc.hyps(1) [OF d, of e2] i succ by (cases "ok1 \<and> ok2") auto
qed

lemma table_upto_rows: "table_rows (table_upto 16) (replicate 16 []) []"
proof -
  have "bptree_entries \<lparr>root = None, nodes = Map.empty, brk = 0\<rparr> []"
    by (simp add: bptree_entries_def heap_ok_def)
  then have "bucket_ok Map.empty i created_bucket []" for i by (simp add: bucket_ok_def created_bucket_def)
  moreover have "concat (replicate 16 []) = []" by simp
  ultimately show ?thesis by (simp add: table_rows_def table_upto_def users_ok_def INT_MAX_def)
qed

lemma table_create_cases:
  "\<exists>r e'. table_create e = Some (r, e') \<and> (r = None \<or> r = Some (table_upto 16)) \<and>
     (all_succeed e \<longrightarrow> r \<noteq> None \<and> all_succeed e')"
proof -
  obtain ok1 e1 where e1: "env_next e = (ok1, e1)" by (cases "env_next e")
  obtain ok2 e2 where e2: "env_next e1 = (ok2, e2)" by (cases "env_next e1")
  note succ = env_next_succeed [OF e1] env_next_succeed [OF e2]
  have "ok1 \<Longrightarrow> ok2 \<Longrightarrow> table_create e = create_buckets_loop (table_upto 0) 0 e2"
    using e1 e2 by (simp add: table_create_def table_upto_def TABLE_BUCKET_COUNT_def)
  moreover have "\<not> (ok1 \<and> ok2) \<Longrightarrow> \<exists>e'. table_create e = Some (None, e')"
    using e1 e2 by (auto simp: table_create_def)
  ultimately show ?thesis using create_buckets_loop_ok [of 0 e2] succ by (cases "ok1 \<and> ok2") auto
qed

lemma table_upto_models: "table_models (table_upto 16) []" and table_upto_next [simp]: "next_id (table_upto 16) = 1"
  using table_upto_rows by (auto simp: table_models_def table_upto_def)

section \<open>Destruction\<close>

lemma free_rows_loop_ok:
  assumes "\<And>j. j < length ps \<Longrightarrow> rd_init (bk_rows b) j = Some (ps ! j)" and "bk_size b = length ps" and "distinct ps"
  shows "j \<le> length ps \<Longrightarrow> set (drop j ps) \<subseteq> dom h \<Longrightarrow> free_rows_loop b j h = Some (h |` (- set (drop j ps)))"
proof (induction "length ps - j" arbitrary: j h)
  case 0
  then show ?case using assms(2) by (subst free_rows_loop.simps) (simp add: restrict_map_def)
next
  case (Suc d)
  then have j: "j < length ps" and d: "d = length ps - Suc j" by simp_all
  have eq: "drop j ps = ps ! j # drop (Suc j) ps" using j by (simp add: Cons_nth_drop_Suc)
  then have "ps ! j \<notin> set (drop (Suc j) ps)" using assms(3) by (metis distinct.simps(2) distinct_drop)
  moreover obtain r where "h (ps ! j) = Some r" using Suc.prems(2) unfolding eq by auto
  moreover have "set (drop (Suc j) ps) \<subseteq> dom (h(ps ! j := None))" using Suc.prems(2) calculation(1) unfolding eq by auto
  ultimately have "free_rows_loop b j h = Some (h(ps ! j := None) |` (- set (drop (Suc j) ps)))"
    using Suc.hyps(1) [OF d] j assms(1,2) by (subst free_rows_loop.simps) simp
  also have "h(ps ! j := None) |` (- set (drop (Suc j) ps)) = h |` (- set (drop j ps))"
    unfolding eq by (auto simp: restrict_map_def fun_eq_iff)
  finally show ?case .
qed

text \<open>Destroying the buckets from index \<open>i\<close> on frees the records of these buckets.\<close>

lemma destroy_buckets_loop_ok:
  assumes "\<forall>i < 16. bucket_ok h0 i (bs ! i) (pss ! i)" and "length pss = 16" and "distinct (concat pss)"
  shows "i \<le> 16 \<Longrightarrow> length (buckets t) = 16 \<Longrightarrow> initialized_buckets t = 16 \<Longrightarrow>
    \<forall>j. i \<le> j \<and> j < 16 \<longrightarrow> buckets t ! j = bs ! j \<Longrightarrow>
    set (concat (drop i pss)) \<subseteq> dom (rec_heap t) \<Longrightarrow>
    \<exists>t'. destroy_buckets_loop t i = Some t' \<and> rec_heap t' = rec_heap t |` (- set (concat (drop i pss))) \<and>
      next_id_lock t' = next_id_lock t \<and> next_id_lock_initialized t' = next_id_lock_initialized t"
proof (induction "16 - i" arbitrary: i t)
  case 0
  then show ?case using assms(2) by (subst destroy_buckets_loop.simps) (simp add: restrict_map_def)
next
  case (Suc d)
  then have i: "i < 16" and d: "d = 16 - Suc i" by simp_all
  let ?b = "bs ! i" and ?ps = "pss ! i" and ?rest = "concat (drop (Suc i) pss)"
  have eq: "drop i pss = ?ps # drop (Suc i) pss" using i assms(2) by (simp add: Cons_nth_drop_Suc)
  have dist: "distinct (?ps @ ?rest)"
    using assms(3) append_take_drop_id [of i pss] unfolding eq by (metis concat.simps(2) concat_append distinct_append)
  have b: "bucket_ok h0 i ?b ?ps" using assms(1) i by blast
  then obtain ix es where ix: "pk_index ?b = Some ix" "bptree_entries ix es" by (auto simp: bucket_ok_def)
  have sub: "set ?ps \<subseteq> dom (rec_heap t)" "set ?rest \<subseteq> dom (rec_heap t)" using Suc.prems(5) unfolding eq by simp_all
  have free: "free_rows_loop ?b 0 (rec_heap t) = Some (rec_heap t |` (- set ?ps))"
    using free_rows_loop_ok [OF bucket_ok_rows [OF b], of 0 "rec_heap t"] b dist sub(1) by (simp add: bucket_ok_def)
  have l: "bk_lock ?b = Unlocked" using b by (simp add: bucket_ok_def)
  obtain b' where db: "destroy_bucket ?b (rec_heap t) = Some (b', rec_heap t |` (- set ?ps))"
    using free ix(1) bptree_destroy_entries [OF ix(2)] l by (simp add: destroy_bucket_def)
  let ?t = "(put_bucket t i b')\<lparr>rec_heap := rec_heap t |` (- set ?ps)\<rparr>"
  have step: "destroy_buckets_loop t i = destroy_buckets_loop ?t (Suc i)"
    using i Suc.prems db by (subst destroy_buckets_loop.simps) (simp add: array_simps)
  have "set ?rest \<subseteq> dom (rec_heap ?t)" using sub(2) dist by (auto simp: dom_restrict simp del: set_concat)
  then obtain t' where "destroy_buckets_loop ?t (Suc i) = Some t'" "rec_heap t' = rec_heap ?t |` (- set ?rest)"
    "next_id_lock t' = next_id_lock t" "next_id_lock_initialized t' = next_id_lock_initialized t"
    using Suc.hyps(1) [OF d, of ?t] i Suc.prems by (auto simp: put_bucket_def nth_list_update)
  moreover have "rec_heap ?t |` (- set ?rest) = rec_heap t |` (- set (concat (drop i pss)))"
    unfolding eq by (simp add: Int_commute)
  ultimately show ?case using step by simp
qed

lemma table_destroy_ok:
  assumes "table_models t us"
  shows "table_destroy (Some t) = Some Map.empty"
proof -
  obtain pss where t: "table_rows t pss us" using assms by (auto simp: table_models_def)
  then have dom: "dom (rec_heap t) = set (concat pss)" by (simp add: table_rows_def)
  obtain t' where "destroy_buckets_loop t 0 = Some t'" "rec_heap t' = rec_heap t |` (- set (concat pss))"
    "next_id_lock t' = next_id_lock t" "next_id_lock_initialized t' = next_id_lock_initialized t"
    using destroy_buckets_loop_ok [of "rec_heap t" "buckets t" pss 0 t] t dom by (auto simp: table_rows_def)
  moreover have "rec_heap t |` (- set (concat pss)) = Map.empty"
    using dom by (intro ext) (auto simp: restrict_map_def simp del: set_concat)
  ultimately show ?thesis using t by (simp add: table_destroy_def table_rows_def)
qed

end
