(* ===== verification/Table_Props.thy ===== *)
theory Table_Props
  imports Table_Life
begin

text \<open>
  The properties of the users table: what every operation does to the list of users that the
  table stands for, on success and on failure, and the invariant over all runs.
\<close>

section \<open>Condition queries\<close>

text \<open>The result of a query: an array of valid pointers to exactly the expected users, or the
  failure value with an empty array.\<close>

definition query_result :: "Table \<Rightarrow> Record list \<Rightarrow> bool \<Rightarrow> RecordArray \<Rightarrow> bool" where
  "query_result t us ok ra \<longleftrightarrow>
     (if ok then \<exists>ps. array_view ra ps \<and> denotes (rec_heap t) ps us else ra_cells ra = [] \<and> ra_count ra = 0)"

lemma collect_filtered_result:
  assumes "table_models t us"
  shows "\<exists>ok ra e'. collect_filtered t test e = Some (ok, ra, Some t, e') \<and>
    query_result t (filter test us) ok ra \<and> (all_succeed e \<longrightarrow> ok \<and> all_succeed e')"
proof -
  obtain ok ra e' ps where c: "collect_filtered t test e = Some (ok, ra, Some t, e')"
    "if ok then array_view ra ps \<and> denotes (rec_heap t) ps (filter test us) else ra_cells ra = [] \<and> ra_count ra = 0"
    "all_succeed e \<longrightarrow> ok \<and> all_succeed e'" using collect_filtered_ok [OF assms, of test e] by blast
  then have "query_result t (filter test us) ok ra" by (cases ok) (auto simp: query_result_def)
  then show ?thesis using c by blast
qed

lemma distinct_one: "set xs = {x} \<Longrightarrow> distinct xs \<Longrightarrow> xs = [x]"
proof (cases xs)
  case (Cons y ys)
  assume "set xs = {x}" and d: "distinct xs"
  then have "y = x" "set ys \<subseteq> {x}" using Cons by auto
  then have "ys = []" using d Cons by (cases ys) auto
  then show ?thesis using Cons \<open>y = x\<close> by simp
qed simp

text \<open>Equality on the id goes through the index; it means the same as filtering.\<close>

lemma filter_id_eq:
  assumes "users_ok us n"
  shows "filter (\<lambda>u. rec_id u = k) us = (case user_with_id us k of None \<Rightarrow> [] | Some u \<Rightarrow> [u])"
proof (cases "\<exists>u \<in> set us. rec_id u = k")
  case False
  then have "filter (\<lambda>u. rec_id u = k) us = []" by (auto simp: filter_empty_conv)
  then show ?thesis using False user_with_id_None [of us k] by simp
next
  case True
  then obtain u where u: "u \<in> set us" "rec_id u = k" by blast
  have d: "distinct us" and inj: "inj_on rec_id (set us)" using users_distinct [OF assms] by simp_all
  have "set (filter (\<lambda>u. rec_id u = k) us) = {u}" using u inj by (auto dest: inj_onD)
  moreover have "distinct (filter (\<lambda>u. rec_id u = k) us)" using d by simp
  ultimately have "filter (\<lambda>u. rec_id u = k) us = [u]" by (rule distinct_one)
  then show ?thesis using user_with_id_Some [OF assms u(1)] u(2) by simp
qed

text \<open>The meaning of the comparisons, independent of the code.\<close>

primrec compared :: "TableComparison \<Rightarrow> int \<Rightarrow> int \<Rightarrow> bool" where
  "compared TABLE_COMPARISON_EQ = (=)"
| "compared TABLE_COMPARISON_LT = (<)"
| "compared TABLE_COMPARISON_LE = (\<le>)"
| "compared TABLE_COMPARISON_GT = (>)"
| "compared TABLE_COMPARISON_GE = (\<ge>)"

lemma table_compare_int_compared [simp]: "table_compare_int x c y \<longleftrightarrow> compared c x y"
  by (cases c) simp_all

lemma id_condition_result:
  assumes "table_models t us"
  shows "\<exists>ok ra e' ws. table_find_by_id_condition (Some t) c k e = Some (ok, ra, Some t, e') \<and>
    (ok \<longrightarrow> query_result t ws True ra) \<and>
    (all_succeed e \<longrightarrow> ok \<and> all_succeed e' \<and> ws = filter (\<lambda>u. compared c (rec_id u) k) us)"
proof (cases "c = TABLE_COMPARISON_EQ")
  case False
  let ?f = "\<lambda>u. compared c (rec_id u) k"
  obtain ok ra e' where "collect_filtered t ?f e = Some (ok, ra, Some t, e')" "query_result t (filter ?f us) ok ra"
    "all_succeed e \<longrightarrow> ok \<and> all_succeed e'" using collect_filtered_result [OF assms, of ?f e] by blast
  then show ?thesis using False
    by (intro exI [of _ ok] exI [of _ ra] exI [of _ e'] exI [of _ "filter ?f us"])
      (cases ok; simp add: table_find_by_id_condition_def)
next
  case True
  obtain pss where "table_rows t pss us" using assms by (auto simp: table_models_def)
  then have ok: "users_ok us (next_id t)" by (simp add: table_rows_def)
  obtain ok1 e1 where e1: "env_next e = (ok1, e1)" by (cases "env_next e")
  obtain r where r: "table_find_by_id (Some t) k e = Some (r, Some t, e1)"
    "if ok1 then points_to (rec_heap t) r (user_with_id us k) else r = None"
    using table_find_by_id_ok [OF assms e1] by blast
  show ?thesis
  proof (cases r)
    case None
    then have "table_find_by_id_condition (Some t) c k e = Some (True, empty_array, Some t, e1)"
      using r(1) True by (simp add: table_find_by_id_condition_def)
    moreover have "query_result t [] True empty_array"
      unfolding query_result_def by (auto intro!: exI [of _ "[]"])
    moreover have "filter (\<lambda>u. compared c (rec_id u) k) us = []" if ok1
      using r(2) that None True filter_id_eq [OF ok, of k] by (simp add: points_to_def)
    ultimately show ?thesis using env_next_succeed [OF e1] by (intro exI [of _ True] exI [of _ empty_array] exI) auto
  next
    case (Some p)
    then have ok1 and u: "\<exists>u. rec_heap t p = Some u \<and> user_with_id us k = Some u"
      using r(2) by (auto simp: points_to_def split: if_splits)
    obtain ok2 ra e2 where a: "table_append_record empty_array p e1 = Some (ok2, ra, e2)"
      "array_view ra (if ok2 then [p] else [])" "all_succeed e1 \<longrightarrow> ok2 \<and> all_succeed e2"
      using ra.gr_step [OF array_view_empty, of p e1, unfolded append_Nil] by blast
    then have "table_find_by_id_condition (Some t) c k e = Some (ok2, ra, Some t, e2)"
      using r(1) True Some by (simp add: table_find_by_id_condition_def)
    moreover have "denotes (rec_heap t) [p] (filter (\<lambda>u. rec_id u = k) us)"
      using u filter_id_eq [OF ok, of k] by (auto simp: denotes_def)
    then have "query_result t (filter (\<lambda>u. rec_id u = k) us) True ra" if ok2
      using a(2) that by (auto simp: query_result_def)
    ultimately show ?thesis using env_next_succeed [OF e1] a(3) True
      by (intro exI [of _ ok2] exI [of _ ra] exI [of _ e2] exI [of _ "filter (\<lambda>u. rec_id u = k) us"]) auto
  qed
qed

section \<open>Runs\<close>

text \<open>One call on a table by some client, with any outcome of the library calls it makes (for an
  insertion: with at most the harmless failures).\<close>

inductive table_step :: "Table \<Rightarrow> Table \<Rightarrow> bool" where
  step_insert: "next_id t < INT_MAX \<Longrightarrow> guarded 3 e \<Longrightarrow>
    table_insert (Some t) (Some name) age e = Some (r, Some t', e') \<Longrightarrow> table_step t t'"
| step_find: "table_find_by_id (Some t) k e = Some (r, Some t', e') \<Longrightarrow> table_step t t'"
| step_collect: "table_collect_all (Some t) e = Some (ok, ra, Some t', e') \<Longrightarrow> table_step t t'"
| step_by_id: "table_find_by_id_condition (Some t) c k e = Some (ok, ra, Some t', e') \<Longrightarrow> table_step t t'"
| step_by_age: "table_find_by_age_condition (Some t) c k e = Some (ok, ra, Some t', e') \<Longrightarrow> table_step t t'"
| step_by_name: "table_find_by_name_matches (Some t) (Some name) e = Some (ok, ra, Some t', e') \<Longrightarrow> table_step t t'"

inductive_cases table_stepE: "table_step t t'"

lemma table_step_models:
  assumes "table_step t t'" and "table_models t us"
  shows "\<exists>vs. table_models t' (us @ vs) \<and> next_id t \<le> next_id t'"
  using assms(1)
proof (cases rule: table_step.cases)
  case (step_insert e name age r e')
  then show ?thesis using table_insert_guarded [OF assms(2), of e name age]
    by (auto simp: insert_result_def split: option.splits intro: exI [of _ "[]"])
next
  case (step_find k e r e')
  obtain ok e1 where "env_next e = (ok, e1)" by (cases "env_next e")
  then show ?thesis using table_find_by_id_ok [OF assms(2), of e ok e1 k] step_find assms(2) by (auto intro: exI [of _ "[]"])
next
  case (step_collect e ok ra e')
  then show ?thesis using collect_all_sorted_ok [OF assms(2), of e] assms(2)
    by (auto simp: table_collect_all_def intro: exI [of _ "[]"])
next
  case (step_by_id c k e ok ra e')
  then show ?thesis using id_condition_result [OF assms(2), of c k e] assms(2) by (auto intro: exI [of _ "[]"])
next
  case (step_by_age c k e ok ra e')
  then have "t' = t" using collect_filtered_result [OF assms(2), of "\<lambda>u. compared c (rec_age u) k" e]
    by (auto simp: table_find_by_age_condition_def)
  then show ?thesis using assms(2) by (auto intro: exI [of _ "[]"])
next
  case (step_by_name name e ok ra e')
  then have "t' = t" using collect_filtered_result [OF assms(2), of "\<lambda>u. rec_name u = name" e]
    by (auto simp: table_find_by_name_matches_def)
  then show ?thesis using assms(2) by (auto intro: exI [of _ "[]"])
qed

inductive table_reach :: "Table \<Rightarrow> bool" where
  reach_create: "table_create e = Some (Some t, e') \<Longrightarrow> table_reach t"
| reach_step: "table_reach t \<Longrightarrow> table_step t t' \<Longrightarrow> table_reach t'"

lemma table_reach_models: "table_reach t \<Longrightarrow> \<exists>us. table_models t us"
proof (induction rule: table_reach.induct)
  case (reach_create e t e')
  then show ?case using table_create_cases [of e] table_upto_models by auto
next
  case (reach_step t t')
  then show ?case using table_step_models by blast
qed

section \<open>Sample tables\<close>

text \<open>A client that inserts a list of users.\<close>

fun insert_users :: "Table option \<Rightarrow> (string \<times> int) list \<Rightarrow> env \<Rightarrow> (Table option \<times> env) option" where
  "insert_users t [] e = Some (t, e)"
| "insert_users t ((name, age) # xs) e = do { (r, t', e') \<leftarrow> table_insert t (Some name) age e; insert_users t' xs e' }"

text \<open>What the specification makes of it: consecutive ids.\<close>

fun numbered :: "int \<Rightarrow> (string \<times> int) list \<Rightarrow> Record list" where
  "numbered n [] = []"
| "numbered n ((name, age) # xs) =
     \<lparr>rec_id = n, rec_name = bounded RECORD_NAME_SIZE name, rec_age = age\<rparr> # numbered (n + 1) xs"

lemma insert_users_models:
  "table_models t us \<Longrightarrow> next_id t + int (length xs) \<le> INT_MAX \<Longrightarrow> all_succeed e \<Longrightarrow>
   \<exists>t' e'. insert_users (Some t) xs e = Some (Some t', e') \<and> table_models t' (us @ numbered (next_id t) xs) \<and>
     next_id t' = next_id t + int (length xs) \<and> all_succeed e'"
proof (induction xs arbitrary: t us e)
  case Nil
  then show ?case by simp
next
  case (Cons x xs)
  obtain name age where x: "x = (name, age)" by (cases x)
  have n: "next_id t < INT_MAX" using Cons.prems(2) by simp
  obtain p t1 e1 where i: "table_insert (Some t) (Some name) age e = Some (Some p, Some t1, e1)"
    "insert_result t us (new_record t name age) (Some p) t1" "all_succeed e1"
    using table_insert_guarded [OF Cons.prems(1) n guarded_all [OF Cons.prems(3)], of name age] Cons.prems(3) by auto
  then have t1: "table_models t1 (us @ [new_record t name age])" "next_id t1 = next_id t + 1" by (simp_all add: insert_result_def)
  obtain t' e' where "insert_users (Some t1) xs e1 = Some (Some t', e')"
    "table_models t' ((us @ [new_record t name age]) @ numbered (next_id t1) xs)"
    "next_id t' = next_id t1 + int (length xs)" "all_succeed e'"
    using Cons.IH [OF t1(1) _ i(3)] t1(2) Cons.prems(2) by auto
  then show ?case using i(1) x t1(2) by (simp add: new_record_def)
qed

abbreviation sample_users :: "Record list" where
  "sample_users \<equiv> [\<lparr>rec_id = 1, rec_name = ''Alice'', rec_age = 20\<rparr>, \<lparr>rec_id = 2, rec_name = ''Bob'', rec_age = 31\<rparr>,
     \<lparr>rec_id = 3, rec_name = ''Alice'', rec_age = 45\<rparr>]"

lemma sample_table: "\<exists>t. table_models t sample_users \<and> next_id t = 4"
proof -
  obtain t e' where "table_models t ([] @ numbered 1 [(''Alice'', 20), (''Bob'', 31), (''Alice'', 45)])" "next_id t = 4"
    using insert_users_models [OF table_upto_models, of "[(''Alice'', 20), (''Bob'', 31), (''Alice'', 45)]" "[]"]
    by (auto simp: INT_MAX_def)
  then show ?thesis by (auto simp: bounded_def RECORD_NAME_SIZE_def)
qed

section \<open>Properties\<close>

text \<open>C3: Inserting into a table that stands for the users \<open>us\<close>, with no failing library call,
  returns a valid pointer to a record with the next id, the name cut to 63 characters and the
  age, and the table then stands for \<open>us\<close> followed by that user; every lock is free again and the
  whole store invariant holds.\<close>

theorem table_insert_appends:
  assumes "table_models t us" and "next_id t < INT_MAX" and "all_succeed e"
  shows "\<exists>p t' e'. table_insert (Some t) (Some name) age e = Some (Some p, Some t', e') \<and>
    rec_heap t' p = Some \<lparr>rec_id = next_id t, rec_name = take 63 name, rec_age = age\<rparr> \<and>
    table_models t' (us @ [\<lparr>rec_id = next_id t, rec_name = take 63 name, rec_age = age\<rparr>]) \<and>
    next_id t' = next_id t + 1"
proof -
  have r: "new_record t name age = \<lparr>rec_id = next_id t, rec_name = take 63 name, rec_age = age\<rparr>"
    by (simp add: new_record_def bounded_def RECORD_NAME_SIZE_def)
  show ?thesis using table_insert_guarded [OF assms(1,2) guarded_all [OF assms(3)], of name age] assms(3)
    unfolding r by (auto simp: insert_result_def)
qed

theorem table_insert_appends_witness:
  "\<exists>t t' p e'. table_models t sample_users \<and>
     table_insert (Some t) (Some ''Dora'') 9 [] = Some (Some p, Some t', e') \<and>
     table_models t' (sample_users @ [\<lparr>rec_id = 4, rec_name = ''Dora'', rec_age = 9\<rparr>])"
proof -
  obtain t where t: "table_models t sample_users" "next_id t = 4" using sample_table by blast
  then show ?thesis using table_insert_appends [OF t(1), of "[]" "''Dora''" 9] by (auto simp: INT_MAX_def)
qed

text \<open>A failure among the first four library calls of an insertion (the two locks, the growth
  of the row array, the record, the first node of the index) is harmless: the call returns,
  and if it returns \<open>NULL\<close> the table stands for the same users as before, with all locks free.\<close>

theorem table_insert_early_failure:
  assumes "table_models t us" and "next_id t < INT_MAX" and "k \<le> 3"
  shows "\<exists>r t' e'. table_insert (Some t) (Some name) age (replicate k True @ False # e) = Some (r, Some t', e') \<and>
    (case r of None \<Rightarrow> table_models t' us
     | Some p \<Rightarrow> table_models t' (us @ [\<lparr>rec_id = next_id t, rec_name = take 63 name, rec_age = age\<rparr>]))"
proof -
  have "guarded 3 (replicate k True @ False # e)" using assms(3) by (auto simp: guarded_def)
  from table_insert_guarded [OF assms(1,2) this, of name age] show ?thesis
    by (fastforce simp: insert_result_def new_record_def bounded_def RECORD_NAME_SIZE_def split: option.splits)
qed

theorem table_insert_early_failure_witness:
  "\<exists>t r t' e'. table_models t sample_users \<and>
     table_insert (Some t) (Some ''Dora'') 9 [True, True, False] = Some (r, Some t', e') \<and>
     (case r of None \<Rightarrow> table_models t' sample_users
      | Some p \<Rightarrow> table_models t' (sample_users @ [\<lparr>rec_id = 4, rec_name = ''Dora'', rec_age = 9\<rparr>]))"
proof -
  obtain t where t: "table_models t sample_users" "next_id t = 4" using sample_table by blast
  have "replicate 2 True @ [False] = [True, True, False]" "take 63 ''Dora'' = ''Dora''" by (simp_all add: numeral_2_eq_2)
  moreover have "next_id t < INT_MAX" using t(2) by (simp add: INT_MAX_def)
  from table_insert_early_failure [OF t(1) this, of 2 "''Dora''" 9 "[]"] calculation t(2)
  have "\<exists>r t' e'. table_insert (Some t) (Some ''Dora'') 9 [True, True, False] = Some (r, Some t', e') \<and>
    (case r of None \<Rightarrow> table_models t' sample_users
     | Some p \<Rightarrow> table_models t' (sample_users @ [\<lparr>rec_id = 4, rec_name = ''Dora'', rec_age = 9\<rparr>]))"
    by (simp only:)
  with t(1) show ?thesis by blast
qed

text \<open>A lookup by id through the bucket's B+ tree returns a valid pointer to the user with that
  id, or \<open>NULL\<close> when there is none, or \<open>NULL\<close> when the lock cannot be taken; the table is unchanged.\<close>

theorem table_find_by_id_spec:
  assumes "table_models t us" and "env_next e = (ok, e')"
  shows "\<exists>r. table_find_by_id (Some t) k e = Some (r, Some t, e') \<and>
    (if ok then points_to (rec_heap t) r (user_with_id us k) else r = None)"
  using assms by (rule table_find_by_id_ok)

theorem table_find_by_id_spec_witness:
  "\<exists>t r e'. table_models t sample_users \<and> table_find_by_id (Some t) 2 [] = Some (r, Some t, e') \<and>
     points_to (rec_heap t) r (Some \<lparr>rec_id = 2, rec_name = ''Bob'', rec_age = 31\<rparr>)"
proof -
  obtain t where t: "table_models t sample_users" using sample_table by blast
  from table_find_by_id_spec [OF t, of "[]" True "[]" 2] show ?thesis using t by (auto simp: user_with_id_def)
qed

text \<open>The indexed lookup and the linear scan over all buckets return the same pointer.\<close>

theorem table_find_scan_agree:
  assumes "table_models t us" and "all_succeed e1" and "all_succeed e2"
  shows "\<exists>r e1' e2'. table_find_by_id (Some t) k e1 = Some (r, Some t, e1') \<and>
    table_scan_by_id (Some t) k e2 = Some (r, Some t, e2')"
proof -
  obtain e1' where e: "env_next e1 = (True, e1')" using assms(2) by (rule env_nextE)
  obtain r where "table_find_by_id (Some t) k e1 = Some (r, Some t, e1')"
    "points_to (rec_heap t) r (user_with_id us k)" using table_find_by_id_ok [OF assms(1) e] by auto
  moreover obtain r' e2' where "table_scan_by_id (Some t) k e2 = Some (r', Some t, e2')"
    "points_to (rec_heap t) r' (user_with_id us k)" using table_scan_by_id_ok [OF assms(1,3)] by blast
  ultimately show ?thesis using points_to_unique [OF assms(1)] by blast
qed

theorem table_find_scan_agree_witness:
  "\<exists>t r e1' e2'. table_models t sample_users \<and> table_find_by_id (Some t) 3 [] = Some (r, Some t, e1') \<and>
     table_scan_by_id (Some t) 3 [] = Some (r, Some t, e2')"
proof -
  obtain t where t: "table_models t sample_users" using sample_table by blast
  from table_find_scan_agree [OF t, of "[]" "[]" 3] show ?thesis using t by auto
qed

text \<open>Collecting all records gives valid pointers to exactly the users in increasing order of
  id, whatever the order in the buckets; when a lock or a reallocation fails it returns 0 with
  an empty array. In every case all locks are free afterwards and the table is unchanged.\<close>

theorem table_collect_all_sorted_users:
  assumes "table_models t us"
  shows "\<exists>ok ra e'. table_collect_all (Some t) e = Some (ok, ra, Some t, e') \<and> query_result t us ok ra \<and>
    sorted_wrt (\<lambda>u v. rec_id u < rec_id v) us \<and> (all_succeed e \<longrightarrow> ok)"
proof -
  obtain ok ra e' ps where "table_collect_all_sorted (Some t) e = Some (ok, ra, Some t, e')"
    "if ok then array_view ra ps \<and> denotes (rec_heap t) ps us else ra_cells ra = [] \<and> ra_count ra = 0"
    "all_succeed e \<longrightarrow> ok \<and> all_succeed e'" using collect_all_sorted_ok [OF assms] by blast
  moreover from this(2) have "query_result t us ok ra" by (cases ok) (auto simp: query_result_def)
  moreover have "sorted_wrt (\<lambda>u v. rec_id u < rec_id v) us"
    using assms by (auto simp: table_models_def table_rows_def users_ok_def)
  ultimately show ?thesis unfolding table_collect_all_def by blast
qed

theorem table_collect_all_sorted_users_witness:
  "\<exists>t ra e' ps. table_models t sample_users \<and> table_collect_all (Some t) [] = Some (True, ra, Some t, e') \<and>
     array_view ra ps \<and> denotes (rec_heap t) ps sample_users"
proof -
  obtain t where t: "table_models t sample_users" using sample_table by blast
  from table_collect_all_sorted_users [OF t, of "[]"] show ?thesis using t by (auto simp: query_result_def)
qed

text \<open>C20: The id condition query selects exactly the users whose id satisfies the comparison, in
  id order, for each of the five comparisons; the equality case goes through the index and
  means the same as filtering the full scan.\<close>

theorem table_find_by_id_condition_filters:
  assumes "table_models t us" and "all_succeed e"
  shows "\<exists>ra e'. table_find_by_id_condition (Some t) c k e = Some (True, ra, Some t, e') \<and>
    query_result t (filter (\<lambda>u. compared c (rec_id u) k) us) True ra"
  using id_condition_result [OF assms(1), of c k e] assms(2) by auto

theorem table_find_by_id_condition_filters_witness:
  "\<exists>t ra e' ra' e''. table_models t sample_users \<and>
     table_find_by_id_condition (Some t) TABLE_COMPARISON_GE 2 [] = Some (True, ra, Some t, e') \<and>
     query_result t (tl sample_users) True ra \<and>
     table_find_by_id_condition (Some t) TABLE_COMPARISON_EQ 1 [] = Some (True, ra', Some t, e'') \<and>
     query_result t [hd sample_users] True ra'"
proof -
  obtain t where t: "table_models t sample_users" using sample_table by blast
  from table_find_by_id_condition_filters [OF t, of "[]" TABLE_COMPARISON_GE 2]
    table_find_by_id_condition_filters [OF t, of "[]" TABLE_COMPARISON_EQ 1]
  show ?thesis using t by auto
qed

text \<open>The age condition query selects exactly the users whose age satisfies the comparison, in
  id order, and the name query exactly the users with that name.\<close>

theorem table_condition_queries_filter:
  assumes "table_models t us" and "all_succeed e"
  shows "\<exists>ra e' ra' e''. table_find_by_age_condition (Some t) c a e = Some (True, ra, Some t, e') \<and>
    query_result t (filter (\<lambda>u. compared c (rec_age u) a) us) True ra \<and>
    table_find_by_name_matches (Some t) (Some name) e = Some (True, ra', Some t, e'') \<and>
    query_result t (filter (\<lambda>u. rec_name u = name) us) True ra'"
  using collect_filtered_result [OF assms(1), of "\<lambda>u. compared c (rec_age u) a" e]
    collect_filtered_result [OF assms(1), of "\<lambda>u. rec_name u = name" e] assms(2)
  by (auto simp: table_find_by_age_condition_def table_find_by_name_matches_def)

theorem table_condition_queries_filter_witness:
  "\<exists>t ra e' ra' e''. table_models t sample_users \<and>
     table_find_by_age_condition (Some t) TABLE_COMPARISON_GT 30 [] = Some (True, ra, Some t, e') \<and>
     query_result t (tl sample_users) True ra \<and>
     table_find_by_name_matches (Some t) (Some ''Bob'') [] = Some (True, ra', Some t, e'') \<and>
     query_result t [sample_users ! 1] True ra'"
proof -
  obtain t where t: "table_models t sample_users" using sample_table by blast
  from table_condition_queries_filter [OF t, of "[]" TABLE_COMPARISON_GT 30 "''Bob''"] show ?thesis using t by auto
qed

text \<open>Whatever library calls fail, creating a table returns and is all or nothing: either \<open>NULL\<close>,
  after an orderly destruction of the part that was set up, or an empty table whose first id
  is 1; without failures it is the latter.\<close>

theorem table_create_all_or_nothing:
  "\<exists>r e'. table_create e = Some (r, e') \<and>
     (case r of None \<Rightarrow> \<not> all_succeed e | Some t \<Rightarrow> table_models t [] \<and> next_id t = 1)"
  using table_create_cases [of e] table_upto_models by fastforce

text \<open>Every table that can be reached from its creation by insertions and queries, under any
  failures of the library calls (for insertions, the harmless ones), satisfies the store
  invariant for some list of users.\<close>

theorem table_invariant_reachable:
  assumes "table_reach t"
  shows "\<exists>us. table_models t us"
  using assms by (rule table_reach_models)

theorem table_invariant_reachable_witness:
  "\<exists>t us. table_reach t \<and> table_models t us \<and> us \<noteq> []"
proof -
  obtain e0 where c: "table_create [] = Some (Some (table_upto 16), e0)" using table_create_cases [of "[]"] by auto
  obtain p t e' where i: "table_insert (Some (table_upto 16)) (Some ''Ann'') 7 [] = Some (Some p, Some t, e')" "rec_heap t p \<noteq> None"
    using table_insert_guarded [OF table_upto_models, of "[]" "''Ann''" 7] by (auto simp: INT_MAX_def insert_result_def)
  have "table_reach t"
    using reach_step [OF reach_create [OF c] step_insert [OF _ _ i(1)]] by (simp add: INT_MAX_def)
  moreover from table_invariant_reachable [OF this] obtain us where us: "table_models t us" by blast
  moreover have "us \<noteq> []"
  proof
    assume "us = []"
    then obtain pss where "table_rows t pss []" using us by (auto simp: table_models_def)
    then have "concat pss = []" "dom (rec_heap t) = set (concat pss)" unfolding table_rows_def by (auto simp del: set_concat)
    then have "dom (rec_heap t) = {}" by (simp only: list.set)
    then show False using i(2) by simp
  qed
  ultimately show ?thesis by blast
qed

text \<open>C32: Destroying an intact table frees every record, every index node and every row array
  exactly once, destroys only initialised, unlocked locks, and leaves no record allocated.\<close>

theorem table_destroy_frees_all:
  assumes "table_models t us"
  shows "table_destroy (Some t) = Some Map.empty"
  using assms by (rule table_destroy_ok)

theorem table_destroy_frees_all_witness:
  "\<exists>t. table_models t sample_users \<and> table_destroy (Some t) = Some Map.empty"
  using sample_table table_destroy_frees_all by blast

end
