(* ===== verification/Sql_Exec.thy ===== *)
theory Sql_Exec
  imports Sql_Engine Sql_Props Table_Props
begin

text \<open>
  What executing a statement means: an abstract database (the next id and the list of users)
  with the answer of every statement, and the proof that \<open>sql_execute\<close> on the text of a statement
  implements it, on top of the contracts of the parser and of the table.
\<close>

section \<open>The abstract database\<close>

datatype answer = Inserted Record | Rows "Record list" | Bye

fun db_exec :: "stmt \<Rightarrow> int \<times> Record list \<Rightarrow> answer \<times> int \<times> Record list" where
  "db_exec (St_Insert name age) (n, us) =
     (let u = \<lparr>rec_id = n, rec_name = name, rec_age = age\<rparr> in (Inserted u, n + 1, us @ [u]))"
| "db_exec St_All (n, us) = (Rows us, n, us)"
| "db_exec (St_Id c k) (n, us) = (Rows (filter (\<lambda>u. compared c (rec_id u) k) us), n, us)"
| "db_exec (St_Name name) (n, us) = (Rows (filter (\<lambda>u. rec_name u = name) us), n, us)"
| "db_exec (St_Age c a) (n, us) = (Rows (filter (\<lambda>u. compared c (rec_age u) a) us), n, us)"
| "db_exec St_Exit (n, us) = (Bye, n, us)"

text \<open>The concrete table stands for an abstract database, and a result for an answer.\<close>

definition db_rep :: "Table \<Rightarrow> int \<times> Record list \<Rightarrow> bool" where
  "db_rep t db \<longleftrightarrow> next_id t = fst db \<and> table_models t (snd db)"

definition head_option :: "'a list \<Rightarrow> 'a option" where
  "head_option xs = (case xs of [] \<Rightarrow> None | x # _ \<Rightarrow> Some x)"

fun answers :: "Table \<Rightarrow> SQLResult \<Rightarrow> answer \<Rightarrow> bool" where
  "answers t r (Inserted u) \<longleftrightarrow>
     sr_status r = SQL_STATUS_OK \<and> sr_action r = SQL_ACTION_INSERT \<and> sr_inserted_id r = rec_id u \<and>
     sr_row_count r = 1 \<and> points_to (rec_heap t) (sr_record r) (Some u)"
| "answers t r (Rows vs) \<longleftrightarrow>
     sr_status r = (if vs = [] then SQL_STATUS_NOT_FOUND else SQL_STATUS_OK) \<and> sr_action r = SQL_ACTION_SELECT_ROWS \<and>
     sr_row_count r = length vs \<and> query_result t vs True (result_array r) \<and>
     points_to (rec_heap t) (sr_record r) (head_option vs)"
| "answers t r Bye \<longleftrightarrow> sr_status r = SQL_STATUS_EXIT"

section \<open>Insertions\<close>

lemma execute_insert_ok:
  assumes "table_models t us" and "next_id t < INT_MAX" and "guarded 3 e" and "cmd_type c = SQL_COMMAND_INSERT"
  shows "\<exists>r t' e' p. sql_execute_insert_plan (Some t) (Some c) e = Some (r, Some t', e') \<and>
    insert_result t us (new_record t (cmd_name c) (int_value c)) p t' \<and>
    (case p of None \<Rightarrow> r = sql_make_result SQL_STATUS_ERROR SQL_ACTION_NONE
     | Some q \<Rightarrow> answers t' r (Inserted (new_record t (cmd_name c) (int_value c)))) \<and>
    (all_succeed e \<longrightarrow> p \<noteq> None \<and> all_succeed e')"
proof -
  let ?u = "new_record t (cmd_name c) (int_value c)"
  obtain p t' e' where i: "table_insert (Some t) (Some (cmd_name c)) (int_value c) e = Some (p, Some t', e')"
    "insert_result t us ?u p t'" "all_succeed e \<longrightarrow> p \<noteq> None \<and> all_succeed e'"
    using table_insert_guarded [OF assms(1-3)] by blast
  show ?thesis
  proof (cases p)
    case None
    then have "sql_execute_insert_plan (Some t) (Some c) e = Some (sql_make_result SQL_STATUS_ERROR SQL_ACTION_NONE, Some t', e')"
      using i(1) assms(4) by (simp add: sql_execute_insert_plan_def Let_def)
    then show ?thesis using i None by (intro exI conjI) (assumption | simp)+
  next
    case (Some q)
    then have h: "rec_heap t' q = Some ?u" using i(2) by (simp add: insert_result_def)
    let ?r = "(sql_make_result SQL_STATUS_ERROR SQL_ACTION_NONE)\<lparr>sr_status := SQL_STATUS_OK, sr_action := SQL_ACTION_INSERT,
      sr_record := Some q, sr_inserted_id := rec_id ?u, sr_row_count := 1\<rparr>"
    have "sql_execute_insert_plan (Some t) (Some c) e = Some (?r, Some t', e')"
      using i(1) assms(4) Some h by (simp add: sql_execute_insert_plan_def Let_def)
    moreover have "answers t' ?r (Inserted ?u)" using h by (simp add: points_to_def)
    ultimately show ?thesis using i Some by (intro exI [of _ ?r] exI [of _ t'] exI [of _ e'] exI [of _ p]) simp
  qed
qed

section \<open>Selections\<close>

text \<open>The users that a selection asks for.\<close>

definition selected :: "SQLCommand \<Rightarrow> Record list \<Rightarrow> Record list option" where
  "selected c us =
     (case cmd_type c of
        SQL_COMMAND_SELECT_ALL \<Rightarrow> Some us
      | SQL_COMMAND_SELECT_BY_ID \<Rightarrow> Some (filter (\<lambda>u. compared (cmd_comparison c) (rec_id u) (int_value c)) us)
      | SQL_COMMAND_SELECT_BY_NAME \<Rightarrow> Some (filter (\<lambda>u. rec_name u = text_value c) us)
      | SQL_COMMAND_SELECT_BY_AGE \<Rightarrow> Some (filter (\<lambda>u. compared (cmd_comparison c) (rec_age u) (int_value c)) us)
      | _ \<Rightarrow> None)"

lemma collect_all_result:
  assumes "table_models t us"
  shows "\<exists>ok ra e'. table_collect_all (Some t) e = Some (ok, ra, Some t, e') \<and> query_result t us ok ra \<and>
    (all_succeed e \<longrightarrow> ok \<and> all_succeed e')"
proof -
  obtain ok ra e' ps where c: "table_collect_all_sorted (Some t) e = Some (ok, ra, Some t, e')"
    "if ok then array_view ra ps \<and> denotes (rec_heap t) ps us else ra_cells ra = [] \<and> ra_count ra = 0"
    "all_succeed e \<longrightarrow> ok \<and> all_succeed e'" using collect_all_sorted_ok [OF assms] by blast
  then have "query_result t us ok ra" by (cases ok) (auto simp: query_result_def)
  then show ?thesis using c unfolding table_collect_all_def by blast
qed

text \<open>Whatever fails, a query that reports success delivers valid pointers to users of the table;
  if nothing fails it delivers exactly the selected users.\<close>

lemma select_rows_result:
  assumes "table_models t us" and "selected c us = Some vs"
  shows "\<exists>ok ra e' ws. select_rows (Some t) c e = Some (Some (ok, ra, Some t, e')) \<and>
    (ok \<longrightarrow> query_result t ws True ra) \<and> (all_succeed e \<longrightarrow> ok \<and> all_succeed e' \<and> ws = vs)"
proof (cases "cmd_type c")
  case SQL_COMMAND_SELECT_ALL
  obtain ok ra e' where "table_collect_all (Some t) e = Some (ok, ra, Some t, e')" "query_result t us ok ra"
    "all_succeed e \<longrightarrow> ok \<and> all_succeed e'" using collect_all_result [OF assms(1)] by blast
  then show ?thesis using assms(2) SQL_COMMAND_SELECT_ALL
    by (intro exI [of _ ok] exI [of _ ra] exI [of _ e'] exI [of _ us]) (cases ok; simp add: select_rows_def selected_def)
next
  case SQL_COMMAND_SELECT_BY_ID
  obtain ok ra e' ws where "table_find_by_id_condition (Some t) (cmd_comparison c) (int_value c) e = Some (ok, ra, Some t, e')"
    "ok \<longrightarrow> query_result t ws True ra"
    "all_succeed e \<longrightarrow> ok \<and> all_succeed e' \<and> ws = filter (\<lambda>u. compared (cmd_comparison c) (rec_id u) (int_value c)) us"
    using id_condition_result [OF assms(1)] by blast
  then show ?thesis using assms(2) SQL_COMMAND_SELECT_BY_ID
    by (intro exI [of _ ok] exI [of _ ra] exI [of _ e'] exI [of _ ws]) (simp add: select_rows_def selected_def)
next
  case SQL_COMMAND_SELECT_BY_NAME
  obtain ok ra e' where "collect_filtered t (\<lambda>u. rec_name u = text_value c) e = Some (ok, ra, Some t, e')"
    "query_result t (filter (\<lambda>u. rec_name u = text_value c) us) ok ra" "all_succeed e \<longrightarrow> ok \<and> all_succeed e'"
    using collect_filtered_result [OF assms(1)] by blast
  then show ?thesis using assms(2) SQL_COMMAND_SELECT_BY_NAME
    by (intro exI [of _ ok] exI [of _ ra] exI [of _ e'] exI [of _ vs])
      (cases ok; simp add: select_rows_def selected_def table_find_by_name_matches_def)
next
  case SQL_COMMAND_SELECT_BY_AGE
  let ?f = "\<lambda>u. compared (cmd_comparison c) (rec_age u) (int_value c)"
  obtain ok ra e' where "collect_filtered t ?f e = Some (ok, ra, Some t, e')"
    "query_result t (filter ?f us) ok ra" "all_succeed e \<longrightarrow> ok \<and> all_succeed e'"
    using collect_filtered_result [OF assms(1)] by blast
  then show ?thesis using assms(2) SQL_COMMAND_SELECT_BY_AGE
    by (intro exI [of _ ok] exI [of _ ra] exI [of _ e'] exI [of _ vs])
      (cases ok; simp add: select_rows_def selected_def table_find_by_age_condition_def)
qed (use assms(2) in \<open>simp_all add: selected_def\<close>)

lemma query_result_first:
  assumes "query_result t vs True ra"
  shows "ra_count ra = length vs" and "vs \<noteq> [] \<Longrightarrow> \<exists>p. rd_init (ra_cells ra) 0 = Some p \<and> rec_heap t p = Some (hd vs)"
proof -
  obtain ps where ps: "array_view ra ps" "denotes (rec_heap t) ps vs" using assms by (auto simp: query_result_def)
  then have len: "length ps = length vs" by (intro denotes_length)
  then show "ra_count ra = length vs" using ps(1) by (simp add: array_view_def)
  assume "vs \<noteq> []"
  then obtain p qs v ws where p: "ps = p # qs" "vs = v # ws" using len by (metis list.exhaust length_0_conv)
  have "take (length ps) (ra_cells ra) = Some p # map Some qs" using ps(1) p(1) by (simp add: array_view_def)
  then obtain rest where "ra_cells ra = Some p # rest" by (cases "ra_cells ra"; cases "length ps") auto
  moreover have "rec_heap t p = Some v" using ps(2) p by (simp add: denotes_def)
  ultimately show "\<exists>p. rd_init (ra_cells ra) 0 = Some p \<and> rec_heap t p = Some (hd vs)"
    using p by (simp add: rd_init_def rd_def)
qed

lemma execute_select_ok:
  assumes "table_models t us" and "selected c us = Some vs"
  shows "\<exists>r e' ws. sql_execute_select_plan (Some t) (Some c) e = Some (r, Some t, e') \<and>
    (answers t r (Rows ws) \<or> sr_action r = SQL_ACTION_NONE) \<and> sr_error_message r = [] \<and>
    (all_succeed e \<longrightarrow> answers t r (Rows vs) \<and> all_succeed e')"
proof -
  obtain ok ra e' ws where s: "select_rows (Some t) c e = Some (Some (ok, ra, Some t, e'))"
    "ok \<longrightarrow> query_result t ws True ra" "all_succeed e \<longrightarrow> ok \<and> all_succeed e' \<and> ws = vs"
    using select_rows_result [OF assms] by blast
  let ?r1 = "(sql_make_result SQL_STATUS_ERROR SQL_ACTION_NONE)\<lparr>sr_records := ra_cells ra, sr_row_count := ra_count ra\<rparr>"
  show ?thesis
  proof (cases ok)
    case False
    then have "sql_execute_select_plan (Some t) (Some c) e = Some (?r1, Some t, e')"
      using s(1) by (simp add: sql_execute_select_plan_def Let_def)
    then show ?thesis using False s(3) by (intro exI [of _ ?r1] exI [of _ e']) (simp add: sql_make_result_def)
  next
    case True
    then have q: "query_result t ws True ra" using s(2) by simp
    note count = query_result_first(1) [OF q]
    obtain first where f: "(if ra_count ra > 0 then do { p \<leftarrow> rd_init (ra_cells ra) 0; Some (Some p) } else Some None) = Some first"
      "points_to (rec_heap t) first (head_option ws)"
      using query_result_first [OF q] by (cases ws) (auto simp: points_to_def head_option_def)
    let ?r = "?r1\<lparr>sr_record := first, sr_status := (if ra_count ra = 0 then SQL_STATUS_NOT_FOUND else SQL_STATUS_OK),
       sr_action := SQL_ACTION_SELECT_ROWS\<rparr>"
    have "sql_execute_select_plan (Some t) (Some c) e = Some (?r, Some t, e')"
      using s(1) True f(1) by (simp add: sql_execute_select_plan_def Let_def split del: if_split)
    moreover have "answers t ?r (Rows ws)"
      using q f(2) count by (auto simp: result_array_def query_result_def array_view_def)
    moreover have "sr_error_message ?r = []" by (simp add: sql_make_result_def)
    ultimately show ?thesis using s(3) by blast
  qed
qed

section \<open>Whole statements\<close>

text \<open>Execution never goes wrong: for every command that the parser can produce, with any
  harmless failures, the call returns and the table stands for the users it had before,
  possibly followed by one new user.\<close>

lemma execute_plan_safe:
  assumes "table_models t us" and "next_id t < INT_MAX" and "guarded 3 e"
  shows "\<exists>r t' e' vs. sql_execute_plan (Some t) (Some c) e = Some (r, Some t', e') \<and> table_models t' (us @ vs) \<and>
    next_id t \<le> next_id t' \<and> length vs \<le> 1 \<and>
    (sr_action r = SQL_ACTION_SELECT_ROWS \<longrightarrow> (\<exists>ws. answers t' r (Rows ws))) \<and>
    (all_succeed e \<longrightarrow> all_succeed e' \<and> next_id t' \<le> next_id t + 1)"
proof (cases "selected c us")
  case None
  show ?thesis
  proof (cases "cmd_type c = SQL_COMMAND_INSERT")
    case True
    obtain r t' e' p where i: "sql_execute_insert_plan (Some t) (Some c) e = Some (r, Some t', e')"
      "insert_result t us (new_record t (cmd_name c) (int_value c)) p t'"
      "case p of None \<Rightarrow> r = sql_make_result SQL_STATUS_ERROR SQL_ACTION_NONE
       | Some q \<Rightarrow> answers t' r (Inserted (new_record t (cmd_name c) (int_value c)))"
      "all_succeed e \<longrightarrow> p \<noteq> None \<and> all_succeed e'" using execute_insert_ok [OF assms True] by blast
    then have x: "sql_execute_plan (Some t) (Some c) e = Some (r, Some t', e')" using True by (simp add: sql_execute_plan_def)
    have a: "sr_action r \<noteq> SQL_ACTION_SELECT_ROWS" using i(3) by (cases p) (simp_all add: sql_make_result_def)
    show ?thesis
    proof (cases p)
      case None
      then show ?thesis using x a i by (intro exI [of _ r] exI [of _ t'] exI [of _ e'] exI [of _ "[]"]) (simp add: insert_result_def)
    next
      case (Some q)
      then show ?thesis using x a i
        by (intro exI [of _ r] exI [of _ t'] exI [of _ e'] exI [of _ "[new_record t (cmd_name c) (int_value c)]"])
          (simp add: insert_result_def)
    qed
  next
    case False
    then have "\<exists>st. sql_execute_plan (Some t) (Some c) e = Some (sql_make_result st SQL_ACTION_NONE, Some t, e)"
      using None by (cases "cmd_type c") (auto simp: sql_execute_plan_def selected_def)
    then show ?thesis using assms(1) by (fastforce simp: sql_make_result_def intro: exI [of _ "[]"])
  qed
next
  case (Some vs)
  obtain r e' ws where s: "sql_execute_select_plan (Some t) (Some c) e = Some (r, Some t, e')"
    "answers t r (Rows ws) \<or> sr_action r = SQL_ACTION_NONE" "all_succeed e \<longrightarrow> all_succeed e'"
    using execute_select_ok [OF assms(1) Some] by blast
  have "sql_execute_plan (Some t) (Some c) e = Some (r, Some t, e')"
    using s(1) Some by (cases "cmd_type c") (simp_all add: sql_execute_plan_def selected_def)
  then show ?thesis using s assms(1)
    by (intro exI [of _ r] exI [of _ t] exI [of _ e'] exI [of _ "[]"]) (auto simp del: answers.simps)
qed

text \<open>A rejected text is answered without touching the table.\<close>

lemma execute_rejected:
  assumes "rejected (sql_parse (Some s))"
  shows "sql_execute table (Some s) e =
    Some ((sql_make_result (pr_status (sql_parse (Some s))) SQL_ACTION_NONE)
      \<lparr>sr_error_code := pr_error_code (sql_parse (Some s)), sr_sql_state := pr_sql_state (sql_parse (Some s)),
       sr_error_message := pr_error_message (sql_parse (Some s))\<rparr>, table, e)"
proof -
  have "length (pr_sql_state (sql_parse (Some s))) < SQL_SQLSTATE_SIZE" "length (pr_error_message (sql_parse (Some s))) < SQL_ERROR_MESSAGE_SIZE"
    "\<not> parsed (sql_parse (Some s))" using assms by (auto simp: rejected_def syntax_message_def SQL_SQLSTATE_SIZE_def SQL_ERROR_MESSAGE_SIZE_def)
  then show ?thesis by (simp add: sql_execute_def bounded_id Let_def)
qed

lemma db_exec_Bye: "fst (db_exec st db) = Bye \<longleftrightarrow> st = St_Exit"
  by (cases st; cases db) (auto simp: Let_def)

lemma execute_render:
  assumes "stmt_ok st" and "list_all isspace w" and "st \<noteq> St_Exit"
  shows "sql_execute table (Some (render st @ w)) e = sql_execute_plan table (Some (stmt_command st)) e"
proof -
  have "parsed (sql_parse (Some (render st @ w)))" "command (sql_parse (Some (render st @ w))) = stmt_command st"
    using sql_parse_render [OF assms(1,2)] by simp_all
  moreover have "cmd_type (stmt_command st) \<noteq> SQL_COMMAND_EXIT" using assms(3) by (cases st) (simp_all add: empty_command_def)
  ultimately show ?thesis by (simp add: sql_execute_def Let_def split: option.splits)
qed

text \<open>The statement that a command of the parser stands for.\<close>

definition command_stmt :: "SQLCommand \<Rightarrow> stmt" where
  "command_stmt c =
     (case cmd_type c of
        SQL_COMMAND_INSERT \<Rightarrow> St_Insert (cmd_name c) (int_value c)
      | SQL_COMMAND_SELECT_ALL \<Rightarrow> St_All
      | SQL_COMMAND_SELECT_BY_ID \<Rightarrow> St_Id (cmd_comparison c) (int_value c)
      | SQL_COMMAND_SELECT_BY_NAME \<Rightarrow> St_Name (text_value c)
      | SQL_COMMAND_SELECT_BY_AGE \<Rightarrow> St_Age (cmd_comparison c) (int_value c)
      | _ \<Rightarrow> St_Exit)"

lemma command_stmt_command [simp]: "command_stmt (stmt_command st) = st"
  by (cases st) (simp_all add: command_stmt_def empty_command_def)

lemma command_stmt_exit:
  "cmd_type c \<noteq> SQL_COMMAND_NONE \<Longrightarrow> command_stmt c = St_Exit \<longleftrightarrow> cmd_type c = SQL_COMMAND_EXIT"
  by (cases "cmd_type c") (simp_all add: command_stmt_def)

lemma command_selected: "selected c us = Some vs \<Longrightarrow> db_exec (command_stmt c) (n, us) = (Rows vs, n, us)"
  by (cases "cmd_type c") (auto simp: selected_def command_stmt_def)

text \<open>The execution of any accepted command implements its statement.\<close>

lemma execute_plan_refines:
  assumes "cmd_type c \<noteq> SQL_COMMAND_NONE" and "cmd_type c \<noteq> SQL_COMMAND_EXIT" and "length (cmd_name c) \<le> 63"
    and "db_rep t (n, us)" and "n < INT_MAX" and "all_succeed e"
  shows "\<exists>r t' e'. sql_execute_plan (Some t) (Some c) e = Some (r, Some t', e') \<and>
    answers t' r (fst (db_exec (command_stmt c) (n, us))) \<and> db_rep t' (snd (db_exec (command_stmt c) (n, us))) \<and> all_succeed e'"
proof -
  have t: "table_models t us" "next_id t = n" using assms(4) by (simp_all add: db_rep_def)
  show ?thesis
  proof (cases "cmd_type c = SQL_COMMAND_INSERT")
    case True
    let ?u = "\<lparr>rec_id = n, rec_name = cmd_name c, rec_age = int_value c\<rparr>"
    have u: "new_record t (cmd_name c) (int_value c) = ?u"
      using assms(3) t(2) by (simp add: new_record_def RECORD_NAME_SIZE_def bounded_id)
    obtain r t' e' p where i: "sql_execute_insert_plan (Some t) (Some c) e = Some (r, Some t', e')"
      "insert_result t us ?u (Some p) t'" "answers t' r (Inserted ?u)" "all_succeed e'"
      using execute_insert_ok [OF t(1) _ guarded_all [OF assms(6)] True] assms(5,6) t(2) unfolding u by fastforce
    then show ?thesis using True t(2)
      by (intro exI [of _ r] exI [of _ t'] exI [of _ e'])
        (simp add: sql_execute_plan_def command_stmt_def db_rep_def insert_result_def Let_def)
  next
    case False
    then obtain vs where vs: "selected c us = Some vs" using assms(1,2) by (cases "cmd_type c") (auto simp: selected_def)
    obtain r e' where s: "sql_execute_select_plan (Some t) (Some c) e = Some (r, Some t, e')" "answers t r (Rows vs)" "all_succeed e'"
      using execute_select_ok [OF t(1) vs, of e] assms(6) by blast
    have "sql_execute_plan (Some t) (Some c) e = Some (r, Some t, e')"
      using s(1) vs by (cases "cmd_type c") (simp_all add: sql_execute_plan_def selected_def)
    then show ?thesis using s command_selected [OF vs, of n] assms(4) by (simp del: answers.simps)
  qed
qed

lemma execute_refines:
  assumes "stmt_ok st" and "list_all isspace w" and "db_rep t (n, us)" and "n < INT_MAX" and "all_succeed e"
  shows "\<exists>r t' e'. sql_execute (Some t) (Some (render st @ w)) e = Some (r, Some t', e') \<and>
    answers t' r (fst (db_exec st (n, us))) \<and> db_rep t' (snd (db_exec st (n, us))) \<and> all_succeed e'"
proof (cases "st = St_Exit")
  case True
  then have "parsed (sql_parse (Some (render st @ w)))" "command (sql_parse (Some (render st @ w))) = stmt_command St_Exit"
    using sql_parse_render [OF assms(1,2)] by simp_all
  then show ?thesis using True assms(3,5) by (simp add: sql_execute_def sql_execute_plan_def Let_def sql_make_result_def del: render.simps)
next
  case False
  then have c: "cmd_type (stmt_command st) \<noteq> SQL_COMMAND_NONE" "cmd_type (stmt_command st) \<noteq> SQL_COMMAND_EXIT"
    "length (cmd_name (stmt_command st)) \<le> 63"
    using assms(1) by (cases st; simp add: empty_command_def name_ok_def)+
  show ?thesis unfolding execute_render [OF assms(1,2) False] using execute_plan_refines [OF c assms(3-5)] by simp
qed

end
