(* ===== verification/Repl_Props.thy ===== *)
theory Repl_Props
  imports Sql_Exec
begin

text \<open>
  The properties of statement execution and of the interactive loop: \<open>sql_execute\<close> implements the
  abstract database, and the whole program, given a script of statements on its input, prints
  the answers of that database and frees everything.
\<close>

section \<open>Output\<close>

fun print_answer :: "answer \<Rightarrow> string" where
  "print_answer (Inserted u) = ''Inserted row with id = '' @ show_int (rec_id u) @ [CHR 0x0A]"
| "print_answer (Rows []) = ''Not found'' @ [CHR 0x0A]"
| "print_answer (Rows vs) = concat (map (\<lambda>u. table_print_record (Some u)) vs)"
| "print_answer Bye = []"

text \<open>The dialogue that a script of statements leads to.\<close>

fun transcript :: "stmt list \<Rightarrow> int \<times> Record list \<Rightarrow> string" where
  "transcript [] db = ''sql> ''"
| "transcript (st # sts) db =
     (if st = St_Exit then ''sql> ''
      else ''sql> '' @ print_answer (fst (db_exec st db)) @ transcript sts (snd (db_exec st db)))"

lemma print_records_loop_denotes:
  "denotes h ps vs \<Longrightarrow> print_records_loop h ps = Some (concat (map (\<lambda>u. table_print_record (Some u)) vs))"
proof (induction ps arbitrary: vs)
  case (Cons p ps)
  then obtain v ws where "vs = v # ws" "h p = Some v" "denotes h ps ws" by (cases vs) (auto simp: denotes_def)
  then show ?case using Cons.IH by simp
qed (simp add: denotes_def)

lemma print_rows:
  assumes "query_result t vs True (result_array r)" and "vs \<noteq> []"
  shows "table_print_records (rec_heap t) (result_array r) = Some (length vs, concat (map (\<lambda>u. table_print_record (Some u)) vs))"
proof -
  obtain ps where ps: "array_view (result_array r) ps" "denotes (rec_heap t) ps vs" using assms(1) by (auto simp: query_result_def)
  then have "length ps = length vs" by (intro denotes_length)
  then have "ra_cells (result_array r) \<noteq> []" "ra_count (result_array r) = length vs"
    using ps(1) assms(2) by (auto simp: array_view_def)
  then show ?thesis using array_view_cells [OF ps(1)] print_records_loop_denotes [OF ps(2)]
    by (simp add: table_print_records_def)
qed

lemma print_answers:
  assumes "answers t r a" and "a \<noteq> Bye"
  shows "print_result (rec_heap t) r = Some (print_answer a)"
proof (cases a)
  case (Inserted u)
  then show ?thesis using assms by (simp add: print_result_def)
next
  case (Rows vs)
  then show ?thesis
  proof (cases vs)
    case (Cons v ws)
    then show ?thesis using assms Rows print_rows [of t vs r] by (simp add: print_result_def)
  qed (use assms Rows in \<open>simp add: print_result_def\<close>)
qed (use assms in simp)

lemma print_result_safe:
  assumes "sr_action r = SQL_ACTION_SELECT_ROWS \<longrightarrow> (\<exists>ws. answers t r (Rows ws))"
  shows "\<exists>out. print_result (rec_heap t) r = Some out"
proof (cases "sr_action r = SQL_ACTION_SELECT_ROWS")
  case True
  then show ?thesis using assms print_answers [of t r] by blast
next
  case False
  then show ?thesis by (simp add: print_result_def)
qed

section \<open>Lines\<close>

lemma line_length_le: "line_length n s \<le> length s"
  by (induction n s rule: line_length.induct) auto

lemma line_length_line: "CHR 0x0A \<notin> set l \<Longrightarrow> length l < n \<Longrightarrow> line_length n (l @ CHR 0x0A # rest) = length l + 1"
proof (induction l arbitrary: n)
  case Nil
  then show ?case by (cases n) auto
next
  case (Cons c l)
  then show ?case by (cases n) auto
qed

lemma fgets_line:
  assumes "CHR 0x0A \<notin> set l" and "length l < 255"
  shows "fgets INPUT_BUFFER_SIZE (l @ CHR 0x0A # rest) = Some (l @ [CHR 0x0A], rest)"
  using line_length_line [OF assms] by (simp add: fgets_def INPUT_BUFFER_SIZE_def)

lemma show_int_chars: "c \<in> set (show_int k) \<Longrightarrow> isdigit c \<or> c = CHR ''-''"
  using show_nat_digits by (fastforce simp: show_int_def split: if_splits)

lemma render_short: "stmt_ok st \<Longrightarrow> length (render st) < 255"
proof (cases st)
  case (St_Id c k)
  moreover assume "stmt_ok st"
  ultimately show ?thesis using show_int_length [of k] by (cases c) simp_all
next
  case (St_Age c k)
  moreover assume "stmt_ok st"
  ultimately show ?thesis using show_int_length [of k] by (cases c) simp_all
next
  case (St_Insert name age)
  moreover assume "stmt_ok st"
  ultimately show ?thesis using show_int_length [of age] by (simp add: name_ok_def)
qed (simp_all add: name_ok_def)

lemma show_int_no_control: "code c < 32 \<Longrightarrow> c \<notin> set (show_int k)"
  using show_int_chars [of c k] by (auto simp: isdigit_def)

lemma cmp_text_no_control: "code c < 32 \<Longrightarrow> c \<notin> set (cmp_text cmp)"
  by (cases cmp) auto

lemma render_no_NUL: "stmt_ok st \<Longrightarrow> NUL \<notin> set (render st)"
  using show_int_no_control [of NUL] cmp_text_no_control [of NUL] by (cases st) (simp_all add: name_ok_def)

section \<open>The loop\<close>

lemma execute_safe:
  assumes "table_models t us" and "next_id t < INT_MAX" and "guarded 3 e"
  shows "\<exists>r t' e' vs. sql_execute (Some t) (Some s) e = Some (r, Some t', e') \<and> table_models t' (us @ vs) \<and>
    next_id t \<le> next_id t' \<and> length vs \<le> 1 \<and>
    (sr_action r = SQL_ACTION_SELECT_ROWS \<longrightarrow> (\<exists>ws. answers t' r (Rows ws))) \<and>
    (all_succeed e \<longrightarrow> all_succeed e' \<and> next_id t' \<le> next_id t + 1)"
proof (cases "parsed (sql_parse (Some s))")
  case False
  then have "\<exists>r. sql_execute (Some t) (Some s) e = Some (r, Some t, e) \<and> sr_action r = SQL_ACTION_NONE"
    by (simp add: sql_execute_def Let_def sql_make_result_def)
  then show ?thesis using assms(1) by (fastforce intro: exI [of _ "[]"])
next
  case True
  let ?c = "command (sql_parse (Some s))"
  obtain r t' e' vs where p: "sql_execute_plan (Some t) (Some ?c) e = Some (r, Some t', e')" "table_models t' (us @ vs)"
    "next_id t \<le> next_id t'" "length vs \<le> 1" "sr_action r = SQL_ACTION_SELECT_ROWS \<longrightarrow> (\<exists>ws. answers t' r (Rows ws))"
    "all_succeed e \<longrightarrow> all_succeed e' \<and> next_id t' \<le> next_id t + 1"
    using execute_plan_safe [OF assms] by blast
  show ?thesis
  proof (cases "cmd_type ?c = SQL_COMMAND_EXIT")
    case False
    then show ?thesis using p True by (intro exI [of _ r] exI [of _ t'] exI [of _ e'] exI [of _ vs])
      (simp add: sql_execute_def Let_def del: answers.simps)
  next
    case ex: True
    then have "r = sql_make_result SQL_STATUS_EXIT SQL_ACTION_NONE" using p(1) by (simp add: sql_execute_plan_def)
    then show ?thesis using p True ex
      by (intro exI [of _ "r\<lparr>sr_status := SQL_STATUS_EXIT\<rparr>"] exI [of _ t'] exI [of _ e'] exI [of _ vs])
        (simp add: sql_execute_def Let_def sql_make_result_def del: answers.simps)
  qed
qed

lemma repl_loop_safe:
  "table_models t us \<Longrightarrow> next_id t + int (length stdin) \<le> INT_MAX \<Longrightarrow> all_succeed e \<Longrightarrow>
   \<exists>out t' e' vs. repl_loop t stdin e = Some (out, t', e') \<and> table_models t' vs"
proof (induction "length stdin" arbitrary: t us stdin e rule: less_induct)
  case less
  show ?case
  proof (cases "stdin = []")
    case True
    then show ?thesis using less.prems by (subst repl_loop.simps) (auto simp: fgets_def)
  next
    case False
    define n where "n = line_length 255 stdin"
    have n: "0 < n" "n \<le> length stdin" using False line_length_pos [of 255 stdin] line_length_le unfolding n_def by simp_all
    have f: "fgets INPUT_BUFFER_SIZE stdin = Some (take n stdin, drop n stdin)"
      using False by (simp add: fgets_def INPUT_BUFFER_SIZE_def n_def)
    have id: "next_id t < INT_MAX" using less.prems(2) n by linarith
    obtain r t1 e1 vs where x: "sql_execute (Some t) (Some (takeWhile (\<lambda>c. c \<noteq> NUL) (take n stdin))) e = Some (r, Some t1, e1)"
      "table_models t1 (us @ vs)" "sr_action r = SQL_ACTION_SELECT_ROWS \<longrightarrow> (\<exists>ws. answers t1 r (Rows ws))"
      "all_succeed e1" "next_id t1 \<le> next_id t + 1"
      using execute_safe [OF less.prems(1) id guarded_all [OF less.prems(3)]] less.prems(3) by blast
    obtain out where out: "print_result (rec_heap t1) r = Some out" using print_result_safe [OF x(3)] by blast
    have "length (drop n stdin) < length stdin" "next_id t1 + int (length (drop n stdin)) \<le> INT_MAX"
      using n x(5) less.prems(2) by simp_all
    from less.hyps [OF this(1) x(2) this(2) x(4)] show ?thesis
      using f x(1,2) out by (subst repl_loop.simps) (auto split: if_splits)
  qed
qed

section \<open>Scripts\<close>

definition script :: "stmt list \<Rightarrow> string" where
  "script sts = concat (map (\<lambda>st. render st @ [CHR 0x0A]) sts)"

definition line_ok :: "stmt \<Rightarrow> bool" where
  "line_ok st \<longleftrightarrow> stmt_ok st \<and> CHR 0x0A \<notin> set (render st)"

lemma answers_Bye: "answers t r a \<Longrightarrow> sr_status r = SQL_STATUS_EXIT \<longleftrightarrow> a = Bye"
  by (cases a) auto

lemma db_exec_next: "n \<le> fst (snd (db_exec st (n, us))) \<and> fst (snd (db_exec st (n, us))) \<le> n + 1"
  by (cases st) (auto simp: Let_def)

lemma repl_loop_script:
  "\<forall>st \<in> set sts. line_ok st \<Longrightarrow> db_rep t db \<Longrightarrow> fst db + int (length sts) \<le> INT_MAX \<Longrightarrow> all_succeed e \<Longrightarrow>
   \<exists>t' e' vs. repl_loop t (script sts) e = Some (transcript sts db, t', e') \<and> table_models t' vs"
proof (induction sts arbitrary: t db e)
  case Nil
  then show ?case by (subst repl_loop.simps) (auto simp: fgets_def script_def db_rep_def)
next
  case (Cons st sts)
  obtain n us where db: "db = (n, us)" by (cases db)
  have st: "stmt_ok st" "CHR 0x0A \<notin> set (render st)" using Cons.prems(1) by (simp_all add: line_ok_def)
  let ?line = "render st @ [CHR 0x0A]"
  have f: "fgets INPUT_BUFFER_SIZE (script (st # sts)) = Some (?line, script sts)"
    using fgets_line [OF st(2) render_short [OF st(1)], of "script sts"] by (simp add: script_def)
  have "\<forall>c \<in> set ?line. c \<noteq> NUL" using render_no_NUL [OF st(1)] by auto
  then have line: "takeWhile (\<lambda>c. c \<noteq> NUL) ?line = ?line" by (simp only: takeWhile_eq_all_conv)
  have "list_all isspace [CHR 0x0A]" "n < INT_MAX" using Cons.prems(3) db by (simp_all add: isspace_def)
  then obtain r t1 e1 where x: "sql_execute (Some t) (Some ?line) e = Some (r, Some t1, e1)"
    "answers t1 r (fst (db_exec st db))" "db_rep t1 (snd (db_exec st db))" "all_succeed e1"
    using execute_refines [OF st(1) _ _ _ Cons.prems(4), of "[CHR 0x0A]" t n us] Cons.prems(2) db by (auto simp del: answers.simps)
  show ?case
  proof (cases "st = St_Exit")
    case True
    then have "sr_status r = SQL_STATUS_EXIT" using answers_Bye [OF x(2)] db_exec_Bye [of st db] by simp
    then show ?thesis using f x(1,3) line True by (subst repl_loop.simps) (auto simp: db_rep_def)
  next
    case False
    then have ne: "fst (db_exec st db) \<noteq> Bye" by (simp add: db_exec_Bye)
    have p: "print_result (rec_heap t1) r = Some (print_answer (fst (db_exec st db)))" by (rule print_answers [OF x(2) ne])
    have "fst (snd (db_exec st db)) + int (length sts) \<le> INT_MAX" using db_exec_next [of n st us] Cons.prems(3) db by simp
    from Cons.IH [OF _ x(3) this x(4)] Cons.prems(1) show ?thesis
      using f x(1) line False p answers_Bye [OF x(2)] ne by (subst repl_loop.simps) auto
  qed
qed

lemma table_create_succeeds:
  assumes "all_succeed e"
  shows "\<exists>t e'. table_create e = Some (Some t, e') \<and> db_rep t (1, []) \<and> all_succeed e'"
  using table_create_cases [of e] assms table_upto_models by (auto simp: db_rep_def)

section \<open>Properties\<close>

text \<open>Refinement: executing the text of a statement on a table that stands for an abstract
  database returns exactly the answer of that database (the inserted record, the selected users
  in id order with a pointer to the first one, or the exit status) and leaves a table that
  stands for the next abstract state.\<close>

theorem sql_execute_refines_database:
  assumes "stmt_ok st" and "list_all isspace w" and "db_rep t (n, us)" and "n < INT_MAX" and "all_succeed e"
  shows "\<exists>r t' e'. sql_execute (Some t) (Some (render st @ w)) e = Some (r, Some t', e') \<and>
    answers t' r (fst (db_exec st (n, us))) \<and> db_rep t' (snd (db_exec st (n, us)))"
  using execute_refines [OF assms] by blast

theorem sql_execute_refines_database_witness:
  "\<exists>t r t' e'. db_rep t (4, sample_users) \<and>
     sql_execute (Some t) (Some ''SELECT * FROM users WHERE age > 30;'') [] = Some (r, Some t', e') \<and>
     answers t' r (Rows (tl sample_users)) \<and> db_rep t' (4, sample_users)"
proof -
  obtain t where t: "db_rep t (4, sample_users)" using sample_table by (auto simp: db_rep_def)
  have "stmt_ok (St_Age TABLE_COMPARISON_GT 30)" by (simp add: number_ok_def INT_MIN_def INT_MAX_def)
  moreover have "render (St_Age TABLE_COMPARISON_GT 30) @ [] = ''SELECT * FROM users WHERE age > 30;''"
    by (simp add: show_int_def show_nat.simps digit_chars)
  ultimately show ?thesis
    using sql_execute_refines_database [of "St_Age TABLE_COMPARISON_GT 30" "[]" t 4 sample_users "[]"] t
    by (auto simp: INT_MAX_def simp del: answers.simps render.simps)
qed

text \<open>A text that the parser rejects never reaches the table: the result carries the parser's
  code, SQLSTATE and complete message, and neither the table nor any lock is touched.\<close>

theorem sql_execute_rejects_untouched:
  assumes "rejected (sql_parse (Some s))"
  shows "\<exists>r. sql_execute table (Some s) e = Some (r, table, e) \<and> sr_action r = SQL_ACTION_NONE \<and>
    sr_error_code r = pr_error_code (sql_parse (Some s)) \<and> sr_sql_state r = pr_sql_state (sql_parse (Some s)) \<and>
    sr_error_message r = pr_error_message (sql_parse (Some s)) \<and> sr_error_message r \<noteq> []"
  using execute_rejected [OF assms] rejected_message [OF assms] by (simp add: sql_make_result_def)

theorem sql_execute_rejects_untouched_witness:
  "\<exists>r. sql_execute None (Some ''DROP TABLE users;'') [False] = Some (r, None, [False]) \<and> sr_error_code r = 1064"
proof -
  have p: "\<not> parsed (sql_parse (Some ''DROP TABLE users;''))" "pr_error_code (sql_parse (Some ''DROP TABLE users;'')) = 1064"
    by code_simp+
  then have "rejected (sql_parse (Some ''DROP TABLE users;''))"
    using sql_parse_outcome [of "''DROP TABLE users;''"] by (auto simp: accepted_def)
  from sql_execute_rejects_untouched [OF this, of None "[False]"] show ?thesis using p(2) by auto
qed

text \<open>C34: Whatever text is executed, with at most the harmless failures, the call returns and keeps
  the store invariant: the users are those from before, possibly followed by one new user, and
  a result that says it selected rows really holds an array of valid pointers.\<close>

theorem sql_execute_keeps_invariant:
  assumes "table_models t us" and "next_id t < INT_MAX" and "guarded 3 e"
  shows "\<exists>r t' e' vs. sql_execute (Some t) (Some s) e = Some (r, Some t', e') \<and> table_models t' (us @ vs) \<and> length vs \<le> 1 \<and>
    (sr_action r = SQL_ACTION_SELECT_ROWS \<longrightarrow> (\<exists>ws. answers t' r (Rows ws)))"
  using execute_safe [OF assms, of s] by blast

theorem sql_execute_keeps_invariant_witness:
  "\<exists>t r t' e' vs. table_models t sample_users \<and>
     sql_execute (Some t) (Some ''SELECT * FROM users;'') [True, False] = Some (r, Some t', e') \<and>
     table_models t' (sample_users @ vs)"
proof -
  obtain t where t: "table_models t sample_users" "next_id t = 4" using sample_table by blast
  have "guarded 3 [True, False]" unfolding guarded_def by (intro disjI2 exI [of _ 1] exI [of _ "[]"]) simp
  then show ?thesis using sql_execute_keeps_invariant [OF t(1), of "[True, False]"] t by (force simp: INT_MAX_def)
qed

text \<open>C25: The interactive program on a script of statements, one per line, with no failing library
  call: it exits with 0, prints the banner and exactly the dialogue of the abstract database
  (up to the first EXIT), and every record is freed.\<close>

theorem repl_prints_transcript:
  assumes "\<forall>st \<in> set sts. line_ok st" and "int (length sts) < INT_MAX" and "all_succeed e"
  shows "repl_main (script sts) e = Some (0, banner @ transcript sts (1, []), Map.empty)"
proof -
  obtain t e1 where c: "table_create e = Some (Some t, e1)" "db_rep t (1, [])" "all_succeed e1"
    using table_create_succeeds [OF assms(3)] by blast
  have "fst (1 :: int, [] :: Record list) + int (length sts) \<le> INT_MAX" using assms(2) by simp
  then obtain t' e' vs where r: "repl_loop t (script sts) e1 = Some (transcript sts (1, []), t', e')" "table_models t' vs"
    using repl_loop_script [OF assms(1) c(2) _ c(3)] by blast
  have "table_destroy (Some t') = Some Map.empty" using r(2) by (rule table_destroy_ok)
  then show ?thesis using c(1) r(1) by (simp add: repl_main_def)
qed

theorem repl_prints_transcript_witness:
  "repl_main (script [St_Insert ''Kim'' 33, St_Id TABLE_COMPARISON_EQ 1, St_Id TABLE_COMPARISON_GT 1, St_Exit]) [] =
   Some (0, banner @ ''sql> Inserted row with id = 1'' @ CHR 0x0A # ''sql> id=1, name='' @ CHR 0x27 # ''Kim'' @ CHR 0x27 #
     '', age=33'' @ CHR 0x0A # ''sql> Not found'' @ CHR 0x0A # ''sql> '', Map.empty)"
proof -
  let ?sts = "[St_Insert ''Kim'' 33, St_Id TABLE_COMPARISON_EQ 1, St_Id TABLE_COMPARISON_GT 1, St_Exit]"
  have "\<forall>st \<in> set ?sts. line_ok st"
    by (simp add: line_ok_def name_ok_def number_ok_def INT_MIN_def INT_MAX_def show_int_no_control)
  from repl_prints_transcript [OF this, of "[]"] show ?thesis
    by (simp add: INT_MAX_def Let_def show_int_def show_nat.simps digit_chars table_print_record_def)
qed

text \<open>C35: The interactive program terminates properly on every input shorter than the range of ids,
  whatever is typed, lines too long for the buffer and zero bytes included: when the table cannot
  be created it exits with 1 and prints nothing; otherwise, if no library call fails behind the
  creation, it exits with 0 behind the banner and its output, and has freed every record.\<close>

theorem repl_main_returns:
  assumes "int (length stdin) < INT_MAX" and "table_create e = Some (tbl, e1)" and "all_succeed e1"
  shows "case tbl of
      None \<Rightarrow> repl_main stdin e = Some (1, [], Map.empty)
    | Some t \<Rightarrow> \<exists>out. repl_main stdin e = Some (0, banner @ out, Map.empty)"
proof (cases tbl)
  case None
  then show ?thesis using assms(2) by (simp add: repl_main_def)
next
  case (Some t)
  then have t: "t = table_upto 16" using table_create_cases [of e] assms(2) by auto
  have "table_models t []" "next_id t + int (length stdin) \<le> INT_MAX"
    using table_upto_models table_upto_next assms(1) by (simp_all add: t)
  from repl_loop_safe [OF this assms(3)] obtain out t' e' vs where r: "repl_loop t stdin e1 = Some (out, t', e')" "table_models t' vs"
    by blast
  have "table_destroy (Some t') = Some Map.empty" using r(2) by (rule table_destroy_ok)
  then show ?thesis using assms(2) Some r(1) by (simp add: repl_main_def)
qed

theorem repl_main_returns_witness:
  "(\<exists>out. repl_main (replicate 600 (CHR ''a'') @ [NUL]) [] = Some (0, banner @ out, Map.empty)) \<and>
   repl_main ''EXIT;'' [True, False] = Some (1, [], Map.empty)"
proof
  obtain t e1 where "table_create [] = Some (Some t, e1)" "all_succeed e1" using table_create_cases [of "[]"] by auto
  then show "\<exists>out. repl_main (replicate 600 (CHR ''a'') @ [NUL]) [] = Some (0, banner @ out, Map.empty)"
    using repl_main_returns [of "replicate 600 (CHR ''a'') @ [NUL]" "[]" "Some t" e1] by (simp add: INT_MAX_def)
  have "table_create [True, False] = Some (None, [])" by (simp add: table_create_def)
  then show "repl_main ''EXIT;'' [True, False] = Some (1, [], Map.empty)"
    using repl_main_returns [of "''EXIT;''" "[True, False]" None "[]"] by (simp add: INT_MAX_def)
qed

end
