(* ===== verification/Json_Buffer.thy ===== *)
theory Json_Buffer
  imports C_Strings
begin

text \<open>
  The text buffer of the JSON writer (\<^verbatim>\<open>server/json_util.c\<close>). The buffer is an array of cells with a
  length and a capacity; sizes are \<open>size_t\<close> values that wrap at 64 bits. The operations report
  failure by their first component, as the code returns 0.

  \<open>json_buffer_appendf\<close> takes the formatted text: the formats of the program (\<open>%d\<close>, \<open>%zu\<close>,
  \<open>\\u%04x\<close>) are applied at its call sites.
\<close>

section \<open>Sizes\<close>

definition SIZE_RANGE :: nat where "SIZE_RANGE = 2 ^ 64"

definition size_add :: "nat \<Rightarrow> nat \<Rightarrow> nat" where
  "size_add a b = (a + b) mod SIZE_RANGE"

definition size_mul :: "nat \<Rightarrow> nat \<Rightarrow> nat" where
  "size_mul a b = (a * b) mod SIZE_RANGE"

section \<open>The buffer\<close>

record JsonBuffer =
  jb_data :: "char option list option"
  jb_len :: nat
  jb_cap :: nat

type_synonym json_result = "(bool \<times> JsonBuffer option \<times> env) option"

text \<open>Doubling until the request fits; \<open>None\<close> is a loop that never ends, which the wrap-around of
  the doubling makes possible for requests beyond half of the address space.\<close>

partial_function (option) reserve_loop :: "nat \<Rightarrow> nat \<Rightarrow> nat option" where
  "reserve_loop new_cap required =
     (if new_cap < required then reserve_loop (size_mul new_cap 2) required else Some new_cap)"

definition json_buffer_reserve :: "JsonBuffer option \<Rightarrow> nat \<Rightarrow> env \<Rightarrow> json_result" where
  "json_buffer_reserve buffer extra e =
     (case buffer of
        None \<Rightarrow> Some (False, None, e)
      | Some b \<Rightarrow>
          let required = size_add (size_add (jb_len b) extra) 1 in
          if required \<le> jb_cap b then Some (True, Some b, e)
          else do { new_cap \<leftarrow> reserve_loop (if jb_cap b = 0 then 128 else jb_cap b) required;
                    case env_next e of (ok, e') \<Rightarrow>
                      if ok
                      then Some (True, Some (b\<lparr>jb_data := Some (grow_cells (case jb_data b of None \<Rightarrow> [] | Some cells \<Rightarrow> cells) new_cap),
                                               jb_cap := new_cap\<rparr>), e')
                      else Some (False, Some b, e') })"

text \<open>A write of consecutive characters (\<open>memcpy\<close>, \<open>vsnprintf\<close>); outside of the array it is undefined.\<close>

definition write_text :: "char option list \<Rightarrow> nat \<Rightarrow> string \<Rightarrow> char option list option" where
  "write_text cells i s =
     (if i + length s \<le> length cells then Some (take i cells @ map Some s @ drop (i + length s) cells) else None)"

text \<open>The text and a terminating zero behind the present text.\<close>

definition put_text :: "JsonBuffer \<Rightarrow> string \<Rightarrow> JsonBuffer option" where
  "put_text b s =
     do { cells \<leftarrow> jb_data b;
          cells' \<leftarrow> write_text cells (jb_len b) s;
          cells'' \<leftarrow> wr cells' (jb_len b + length s) (Some NUL);
          Some (b\<lparr>jb_data := Some cells'', jb_len := jb_len b + length s\<rparr>) }"

definition json_buffer_init :: "JsonBuffer option \<Rightarrow> nat \<Rightarrow> env \<Rightarrow> json_result" where
  "json_buffer_init buffer initial_capacity e =
     (case buffer of
        None \<Rightarrow> Some (False, None, e)
      | Some _ \<Rightarrow>
          let cap = (if initial_capacity = 0 then 128 else initial_capacity) in
          case env_next e of (ok, e') \<Rightarrow>
            if \<not> ok then Some (False, Some \<lparr>jb_data = None, jb_len = 0, jb_cap = 0\<rparr>, e')
            else do { cells \<leftarrow> wr (replicate cap None) 0 (Some NUL);
                      Some (True, Some \<lparr>jb_data = Some cells, jb_len = 0, jb_cap = cap\<rparr>, e') })"

definition json_buffer_append :: "JsonBuffer option \<Rightarrow> string option \<Rightarrow> env \<Rightarrow> json_result" where
  "json_buffer_append buffer text e =
     (case (buffer, text) of
        (Some _, Some s) \<Rightarrow>
          do { (ok, buffer', e') \<leftarrow> json_buffer_reserve buffer (length s) e;
               if \<not> ok then Some (False, buffer', e')
               else do { b \<leftarrow> buffer'; b' \<leftarrow> put_text b s; Some (True, Some b', e') } }
      | _ \<Rightarrow> Some (False, buffer, e))"

text \<open>\<open>vsnprintf\<close> reports a text longer than an \<open>int\<close> by a negative result.\<close>

definition json_buffer_appendf :: "JsonBuffer option \<Rightarrow> string option \<Rightarrow> env \<Rightarrow> json_result" where
  "json_buffer_appendf buffer formatted e =
     (case (buffer, formatted) of
        (Some _, Some s) \<Rightarrow>
          if INT_MAX < int (length s) then Some (False, buffer, e)
          else do { (ok, buffer', e') \<leftarrow> json_buffer_reserve buffer (length s) e;
                    if \<not> ok then Some (False, buffer', e')
                    else do { b \<leftarrow> buffer'; b' \<leftarrow> put_text b s; Some (True, Some b', e') } }
      | _ \<Rightarrow> Some (False, buffer, e))"

text \<open>One character as it is: a reservation and two stores.\<close>

definition json_push_char :: "JsonBuffer option \<Rightarrow> char \<Rightarrow> env \<Rightarrow> json_result" where
  "json_push_char buffer c e =
     do { (ok, buffer', e') \<leftarrow> json_buffer_reserve buffer 1 e;
          if \<not> ok then Some (False, buffer', e')
          else do { b \<leftarrow> buffer';
                    cells \<leftarrow> jb_data b;
                    cells' \<leftarrow> wr cells (jb_len b) (Some c);
                    cells'' \<leftarrow> wr cells' (jb_len b + 1) (Some NUL);
                    Some (True, Some (b\<lparr>jb_data := Some cells'', jb_len := jb_len b + 1\<rparr>), e') } }"

text \<open>The hexadecimal digits of \<open>%04x\<close>.\<close>

definition hex_digit :: "nat \<Rightarrow> char" where
  "hex_digit d = (if d < 10 then digit d else char_of (87 + d))"

definition hex4 :: "nat \<Rightarrow> string" where
  "hex4 n = [hex_digit (n div 4096 mod 16), hex_digit (n div 256 mod 16), hex_digit (n div 16 mod 16), hex_digit (n mod 16)]"

definition json_put_char :: "JsonBuffer option \<Rightarrow> char \<Rightarrow> env \<Rightarrow> json_result" where
  "json_put_char buffer c e =
     (if c = CHR 0x5C then json_buffer_append buffer (Some [CHR 0x5C, CHR 0x5C]) e
      else if c = CHR 0x22 then json_buffer_append buffer (Some [CHR 0x5C, CHR 0x22]) e
      else if c = CHR 0x08 then json_buffer_append buffer (Some [CHR 0x5C, CHR ''b'']) e
      else if c = CHR 0x0C then json_buffer_append buffer (Some [CHR 0x5C, CHR ''f'']) e
      else if c = CHR 0x0A then json_buffer_append buffer (Some [CHR 0x5C, CHR ''n'']) e
      else if c = CHR 0x0D then json_buffer_append buffer (Some [CHR 0x5C, CHR ''r'']) e
      else if c = CHR 0x09 then json_buffer_append buffer (Some [CHR 0x5C, CHR ''t'']) e
      else if code c < 0x20 then json_buffer_appendf buffer (Some (CHR 0x5C # CHR ''u'' # hex4 (code c))) e
      else json_push_char buffer c e)"

fun json_string_loop :: "JsonBuffer option \<Rightarrow> string \<Rightarrow> env \<Rightarrow> json_result" where
  "json_string_loop buffer [] e = json_buffer_append buffer (Some [CHR 0x22]) e"
| "json_string_loop buffer (c # cs) e =
     do { (ok, buffer', e') \<leftarrow> json_put_char buffer c e;
          if \<not> ok then Some (False, buffer', e') else json_string_loop buffer' cs e' }"

definition json_buffer_append_json_string :: "JsonBuffer option \<Rightarrow> string option \<Rightarrow> env \<Rightarrow> json_result" where
  "json_buffer_append_json_string buffer text e =
     (case (buffer, text) of
        (Some _, Some s) \<Rightarrow>
          do { (ok, buffer', e') \<leftarrow> json_buffer_append buffer (Some [CHR 0x22]) e;
               if \<not> ok then Some (False, buffer', e') else json_string_loop buffer' s e' }
      | _ \<Rightarrow> Some (False, buffer, e))"

definition json_buffer_destroy :: "JsonBuffer option \<Rightarrow> JsonBuffer option" where
  "json_buffer_destroy buffer =
     (case buffer of None \<Rightarrow> None | Some b \<Rightarrow> Some (b\<lparr>jb_data := None, jb_len := 0, jb_cap := 0\<rparr>))"

definition json_buffer_detach :: "JsonBuffer option \<Rightarrow> char option list option \<times> JsonBuffer option" where
  "json_buffer_detach buffer =
     (case buffer of None \<Rightarrow> (None, None)
      | Some b \<Rightarrow> (jb_data b, Some (b\<lparr>jb_data := None, jb_len := 0, jb_cap := 0\<rparr>)))"

text \<open>The C string at the start of an array: the characters before the first zero.\<close>

fun c_string :: "char option list \<Rightarrow> string option" where
  "c_string [] = None"
| "c_string (None # cells) = None"
| "c_string (Some c # cells) = (if c = NUL then Some [] else do { s \<leftarrow> c_string cells; Some (c # s) })"

text \<open>Writers in sequence: \<open>f && g\<close>, with an early return at the first failure.\<close>

definition json_then :: "(JsonBuffer option \<Rightarrow> env \<Rightarrow> json_result) \<Rightarrow> (JsonBuffer option \<Rightarrow> env \<Rightarrow> json_result) \<Rightarrow>
    JsonBuffer option \<Rightarrow> env \<Rightarrow> json_result" where
  "json_then f g buffer e =
     do { (ok, buffer', e') \<leftarrow> f buffer e; if \<not> ok then Some (False, buffer', e') else g buffer' e' }"

end
