(* ===== verification/Api_Query.thy ===== *)
theory Api_Query
  imports Json_Buffer Sql_Engine
begin

text \<open>
  The query interface behind the HTTP front end (\<^verbatim>\<open>server/api.c\<close>): a statement in, a status and a
  JSON body out. The rows of a result are read through the record heap of the table after the
  execution.
\<close>

section \<open>Names\<close>

definition api_action_name :: "SQLAction \<Rightarrow> string" where
  "api_action_name action =
     (case action of SQL_ACTION_INSERT \<Rightarrow> ''insert'' | SQL_ACTION_SELECT_ROWS \<Rightarrow> ''select'' | SQL_ACTION_NONE \<Rightarrow> ''none'')"

definition api_status_name :: "SQLStatus \<Rightarrow> string" where
  "api_status_name status =
     (case status of
        SQL_STATUS_SYNTAX_ERROR \<Rightarrow> ''syntax_error''
      | SQL_STATUS_QUERY_ERROR \<Rightarrow> ''query_error''
      | SQL_STATUS_NOT_FOUND \<Rightarrow> ''not_found''
      | SQL_STATUS_ERROR \<Rightarrow> ''internal_error''
      | SQL_STATUS_EXIT \<Rightarrow> ''exit_not_supported''
      | SQL_STATUS_OK \<Rightarrow> ''ok'')"

text \<open>The texts of the program, with \<open>'\<close> for the quotation mark of C.\<close>

definition json_text :: "string \<Rightarrow> string" where
  "json_text s = map (\<lambda>c. if c = CHR 0x27 then CHR 0x22 else c) s"

abbreviation q1 :: string where "q1 \<equiv> [CHR 0x27]"

section \<open>Building the body\<close>

definition api_append_record :: "Record \<Rightarrow> JsonBuffer option \<Rightarrow> env \<Rightarrow> json_result" where
  "api_append_record rec =
     json_then (\<lambda>b. json_buffer_appendf b (Some (json_text (''{'' @ q1 @ ''id'' @ q1 @ '':'') @ show_int (rec_id rec)
                     @ json_text ('','' @ q1 @ ''name'' @ q1 @ '':''))))
    (json_then (\<lambda>b. json_buffer_append_json_string b (Some (rec_name rec)))
               (\<lambda>b. json_buffer_appendf b (Some (json_text ('','' @ q1 @ ''age'' @ q1 @ '':'') @ show_int (rec_age rec) @ ''}''))))"

text \<open>The loop over the rows, from \<open>index\<close> on, with \<open>n\<close> rows to go.\<close>

fun api_rows_loop :: "(nat \<rightharpoonup> Record) \<Rightarrow> nat option list \<Rightarrow> nat \<Rightarrow> nat \<Rightarrow> JsonBuffer option \<Rightarrow> env \<Rightarrow> json_result" where
  "api_rows_loop h cells index 0 b e = Some (True, b, e)"
| "api_rows_loop h cells index (Suc n) b e =
     do { (ok, b1, e1) \<leftarrow> (if index > 0 then json_buffer_append b (Some '','') e else Some (True, b, e));
          if \<not> ok then Some (False, b1, e1)
          else do { p \<leftarrow> rd_init cells index;
                    rec \<leftarrow> h p;
                    (ok2, b2, e2) \<leftarrow> api_append_record rec b1 e1;
                    if \<not> ok2 then Some (False, b2, e2) else api_rows_loop h cells (index + 1) n b2 e2 } }"

definition api_build_success_response :: "(nat \<rightharpoonup> Record) \<Rightarrow> SQLResult \<Rightarrow> JsonBuffer option \<Rightarrow> env \<Rightarrow> json_result" where
  "api_build_success_response h r =
     json_then (\<lambda>b. json_buffer_append b (Some (json_text (''{'' @ q1 @ ''ok'' @ q1 @ '':true,'' @ q1 @ ''action'' @ q1 @ '':''))))
    (json_then (\<lambda>b. json_buffer_append_json_string b (Some (api_action_name (sr_action r))))
      (if sr_action r = SQL_ACTION_INSERT
       then (\<lambda>b. json_buffer_appendf b (Some (json_text ('','' @ q1 @ ''inserted_id'' @ q1 @ '':'') @ show_int (sr_inserted_id r)
                     @ json_text ('','' @ q1 @ ''row_count'' @ q1 @ '':'') @ show_nat (sr_row_count r) @ ''}'')))
       else json_then (\<lambda>b. json_buffer_appendf b (Some (json_text ('','' @ q1 @ ''row_count'' @ q1 @ '':'') @ show_nat (sr_row_count r)
                     @ json_text ('','' @ q1 @ ''rows'' @ q1 @ '':[''))))
           (json_then (api_rows_loop h (sr_records r) 0 (sr_row_count r))
                      (\<lambda>b. json_buffer_append b (Some '']}'')))))"

definition api_build_error_response :: "SQLResult \<Rightarrow> JsonBuffer option \<Rightarrow> env \<Rightarrow> json_result" where
  "api_build_error_response r =
     json_then (\<lambda>b. json_buffer_append b (Some (json_text (''{'' @ q1 @ ''ok'' @ q1 @ '':false,'' @ q1 @ ''status'' @ q1 @ '':''))))
    (json_then (\<lambda>b. json_buffer_append_json_string b (Some (api_status_name (sr_status r))))
    (json_then (\<lambda>b. json_buffer_appendf b (Some (json_text ('','' @ q1 @ ''error_code'' @ q1 @ '':'') @ show_int (sr_error_code r)
                     @ json_text ('','' @ q1 @ ''sql_state'' @ q1 @ '':''))))
    (json_then (\<lambda>b. json_buffer_append_json_string b (Some (sr_sql_state r)))
    (json_then (\<lambda>b. json_buffer_append b (Some (json_text ('','' @ q1 @ ''message'' @ q1 @ '':''))))
    (json_then (\<lambda>b. json_buffer_append_json_string b
                  (Some (if sr_error_message r \<noteq> [] then sr_error_message r else ''Unknown SQL error'')))
               (\<lambda>b. json_buffer_append b (Some ''}'')))))))"

definition internal_error_body :: string where
  "internal_error_body =
     json_text (''{'' @ q1 @ ''ok'' @ q1 @ '':false,'' @ q1 @ ''status'' @ q1 @ '':'' @ q1 @ ''internal_error'' @ q1 @ '',''
       @ q1 @ ''message'' @ q1 @ '':'' @ q1 @ ''Internal database error'' @ q1 @ ''}'')"

definition exit_not_supported_body :: string where
  "exit_not_supported_body =
     json_text (''{'' @ q1 @ ''ok'' @ q1 @ '':false,'' @ q1 @ ''status'' @ q1 @ '':'' @ q1 @ ''exit_not_supported'' @ q1 @ '',''
       @ q1 @ ''message'' @ q1 @ '':'' @ q1 @ ''EXIT and QUIT are not supported over HTTP'' @ q1 @ ''}'')"

section \<open>Queries\<close>

record ApiResult =
  http_status :: int
  api_body :: "char option list option"

text \<open>The end of each branch of \<open>api_handle_query\<close>: a buffer is initialised, the body is built, and
  the buffer is detached into the result or destroyed.\<close>

definition api_finish :: "(JsonBuffer option \<Rightarrow> env \<Rightarrow> json_result) \<Rightarrow> int \<Rightarrow> env \<Rightarrow> (bool \<times> ApiResult \<times> env) option" where
  "api_finish build status e =
     do { (ok, b, e1) \<leftarrow> json_buffer_init (Some \<lparr>jb_data = None, jb_len = 0, jb_cap = 0\<rparr>) 256 e;
          if \<not> ok then Some (False, \<lparr>http_status = 500, api_body = None\<rparr>, e1)
          else do { (ok2, b2, e2) \<leftarrow> build b e1;
                    if \<not> ok2 then Some (False, \<lparr>http_status = status, api_body = None\<rparr>, e2)
                    else case json_buffer_detach b2 of (body, _) \<Rightarrow>
                           Some (body \<noteq> None, \<lparr>http_status = status, api_body = body\<rparr>, e2) } }"

definition api_handle_query ::
    "Table option \<Rightarrow> string option \<Rightarrow> ApiResult option \<Rightarrow> env \<Rightarrow> (bool \<times> ApiResult option \<times> Table option \<times> env) option" where
  "api_handle_query table sql result e =
     (case result of
        None \<Rightarrow> Some (False, None, table, e)
      | Some _ \<Rightarrow>
          (case (table, sql) of
             (Some t, Some s) \<Rightarrow>
               let pr = sql_parse (Some s) in
               if \<not> parsed pr then
                 do { (ok, res, e') \<leftarrow>
                        (if pr_status pr = SQL_STATUS_ERROR
                         then api_finish (\<lambda>b. json_buffer_append b (Some internal_error_body)) 500 e
                         else api_finish (api_build_error_response
                                ((sql_make_result (pr_status pr) SQL_ACTION_NONE)
                                   \<lparr>sr_error_code := pr_error_code pr, sr_sql_state := bounded SQL_SQLSTATE_SIZE (pr_sql_state pr),
                                    sr_error_message := bounded SQL_ERROR_MESSAGE_SIZE (pr_error_message pr)\<rparr>)) 200 e);
                      Some (ok, Some res, table, e') }
               else if cmd_type (command pr) = SQL_COMMAND_EXIT then
                 do { (ok, res, e') \<leftarrow> api_finish (\<lambda>b. json_buffer_append b (Some exit_not_supported_body)) 400 e;
                      Some (ok, Some res, table, e') }
               else
                 do { (r, tbl, e1) \<leftarrow> sql_execute_plan table (Some (command pr)) e;
                      t' \<leftarrow> tbl;
                      (ok, res, e') \<leftarrow>
                        (if sr_status r = SQL_STATUS_OK \<or> sr_status r = SQL_STATUS_NOT_FOUND
                         then api_finish (api_build_success_response (rec_heap t') r) 200 e1
                         else if sr_status r = SQL_STATUS_ERROR
                         then api_finish (\<lambda>b. json_buffer_append b (Some internal_error_body)) 500 e1
                         else api_finish (api_build_error_response r) 200 e1);
                      Some (ok, Some res, tbl, e') }
           | _ \<Rightarrow> Some (False, Some \<lparr>http_status = 500, api_body = None\<rparr>, table, e)))"

definition api_result_destroy :: "ApiResult option \<Rightarrow> ApiResult option" where
  "api_result_destroy result =
     (case result of None \<Rightarrow> None | Some r \<Rightarrow> Some (r\<lparr>api_body := None, http_status := 0\<rparr>))"

end
