(* ===== verification/Json_Correct.thy ===== *)
theory Json_Correct
  imports Json_Buffer
begin

text \<open>
  The contract of the JSON writer: every writer either adds its whole text behind the present
  one, or reports a failed allocation and leaves some text and a valid buffer. Writers compose,
  and the escaped strings can be read back.
\<close>

section \<open>The contract\<close>

text \<open>The buffer holds a text: the text and a zero behind it are initialised and inside the array.\<close>

definition json_holds :: "JsonBuffer option \<Rightarrow> string \<Rightarrow> bool" where
  "json_holds buffer s \<longleftrightarrow>
     (\<exists>cells. buffer = Some \<lparr>jb_data = Some cells, jb_len = length s, jb_cap = length cells\<rparr> \<and>
        length s < length cells \<and> take (length s + 1) cells = map Some s @ [Some NUL])"

text \<open>Texts up to a quarter of the address space, for which no size wraps.\<close>

definition TEXT_LIMIT :: nat where "TEXT_LIMIT = 2 ^ 62"

locale json_writer =
  fixes jw_run :: "JsonBuffer option \<Rightarrow> env \<Rightarrow> json_result" and jw_text :: string
  assumes jw_step: "json_holds b s \<Longrightarrow> length s + length jw_text < TEXT_LIMIT \<Longrightarrow>
    \<exists>ok b' s' e'. jw_run b e = Some (ok, b', e') \<and> json_holds b' s' \<and> (ok \<longrightarrow> s' = s @ jw_text) \<and>
      (all_succeed e \<longrightarrow> ok \<and> all_succeed e')"
begin

lemma jw_succeeds:
  assumes "json_holds b s" and "length s + length jw_text < TEXT_LIMIT" and "all_succeed e"
  shows "\<exists>b' e'. jw_run b e = Some (True, b', e') \<and> json_holds b' (s @ jw_text) \<and> all_succeed e'"
  using jw_step [OF assms(1,2), of e] assms(3) by auto

end

text \<open>A property of writers that needs no buffer: sequences.\<close>

lemma json_writer_then:
  assumes "json_writer f s" and "json_writer g t"
  shows "json_writer (json_then f g) (s @ t)"
proof
  fix b r e
  assume b: "json_holds b r" and len: "length r + length (s @ t) < TEXT_LIMIT"
  obtain ok b1 r1 e1 where f: "f b e = Some (ok, b1, e1)" "json_holds b1 r1" "ok \<longrightarrow> r1 = r @ s"
    "all_succeed e \<longrightarrow> ok \<and> all_succeed e1"
    using json_writer.jw_step [OF assms(1) b, of e] len by auto
  show "\<exists>ok b' s' e'. json_then f g b e = Some (ok, b', e') \<and> json_holds b' s' \<and> (ok \<longrightarrow> s' = r @ s @ t) \<and>
      (all_succeed e \<longrightarrow> ok \<and> all_succeed e')"
  proof (cases ok)
    case False
    then show ?thesis using f by (auto simp: json_then_def)
  next
    case True
    then obtain ok2 b2 r2 e2 where "g b1 e1 = Some (ok2, b2, e2)" "json_holds b2 r2" "ok2 \<longrightarrow> r2 = (r @ s) @ t"
      "all_succeed e1 \<longrightarrow> ok2 \<and> all_succeed e2"
      using json_writer.jw_step [OF assms(2), of b1 "r @ s" e1] f(2,3) len by auto
    then show ?thesis using f(1,4) True
      by (intro exI [of _ ok2] exI [of _ b2] exI [of _ r2] exI [of _ e2]) (simp add: json_then_def)
  qed
qed

lemma json_thenI: "json_writer f s \<Longrightarrow> json_writer g t \<Longrightarrow> u = s @ t \<Longrightarrow> json_writer (json_then f g) u"
  by (simp add: json_writer_then)

lemma json_writer_ext: "json_writer f s \<Longrightarrow> (\<And>b e. g b e = f b e) \<Longrightarrow> json_writer g s"
  by (simp add: json_writer_def)

section \<open>Reserving\<close>

lemma reserve_loop_ok:
  "0 < c \<Longrightarrow> required \<le> 2 ^ 63 \<Longrightarrow> \<exists>n. reserve_loop c required = Some n \<and> required \<le> n \<and> c \<le> n"
proof (induction "required - c" arbitrary: c rule: less_induct)
  case less
  show ?case
  proof (cases "c < required")
    case False
    then show ?thesis by (subst reserve_loop.simps) simp
  next
    case True
    have m: "size_mul c 2 = 2 * c" using True less.prems(2) by (simp add: size_mul_def SIZE_RANGE_def)
    have "required - size_mul c 2 < required - c" "0 < size_mul c 2" using True less.prems(1) m by simp_all
    from less.hyps [OF this less.prems(2)] obtain n where "reserve_loop (size_mul c 2) required = Some n" "required \<le> n" "2 * c \<le> n"
      using m by auto
    then show ?thesis using True by (subst reserve_loop.simps) simp
  qed
qed

lemma reserve_ok:
  assumes "json_holds b s" and "length s + n < TEXT_LIMIT"
  shows "\<exists>ok b' e'. json_buffer_reserve b n e = Some (ok, b', e') \<and> json_holds b' s \<and>
    (ok \<longrightarrow> (\<exists>cells. b' = Some \<lparr>jb_data = Some cells, jb_len = length s, jb_cap = length cells\<rparr> \<and> length s + n < length cells \<and>
       take (length s) cells = map Some s)) \<and>
    (all_succeed e \<longrightarrow> ok \<and> all_succeed e')"
proof -
  obtain cells where b: "b = Some \<lparr>jb_data = Some cells, jb_len = length s, jb_cap = length cells\<rparr>"
    "length s < length cells" "take (length s + 1) cells = map Some s @ [Some NUL]" using assms(1) by (auto simp: json_holds_def)
  have t: "take (length s) cells = map Some s"
    using arg_cong [OF b(3), of "take (length s)"] by (simp add: min_def del: take_Suc)
  have req: "size_add (size_add (length s) n) 1 = length s + n + 1"
    using assms(2) by (simp add: size_add_def SIZE_RANGE_def TEXT_LIMIT_def)
  show ?thesis
  proof (cases "length s + n + 1 \<le> length cells")
    case True
    then have "json_buffer_reserve b n e = Some (True, b, e)" using b(1) req by (simp add: json_buffer_reserve_def)
    then show ?thesis using True b(1) t assms(1) by auto
  next
    case False
    obtain ok e' where e: "env_next e = (ok, e')" by (cases "env_next e")
    have "0 < length cells" "length s + n + 1 \<le> 2 ^ 63" using b(2) assms(2) by (auto simp: TEXT_LIMIT_def)
    then obtain c where c: "reserve_loop (length cells) (length s + n + 1) = Some c" "length s + n + 1 \<le> c" "length cells \<le> c"
      using reserve_loop_ok by blast
    let ?b = "\<lparr>jb_data = Some (grow_cells cells c), jb_len = length s, jb_cap = c\<rparr>"
    have "cells \<noteq> []" using b(2) by auto
    then have r: "json_buffer_reserve b n e = Some (if ok then (True, Some ?b, e') else (False, b, e'))"
      using b(1) req False c(1) e by (simp add: json_buffer_reserve_def Let_def)
    have "json_holds (Some ?b) s" using b c by (simp add: json_holds_def)
    then show ?thesis using r assms(1) env_next_succeed [OF e] c t b(2)
      by (cases ok) (auto intro!: exI [of _ "grow_cells cells c"])
  qed
qed

section \<open>The writers\<close>

lemma put_text_ok:
  assumes "b = \<lparr>jb_data = Some cells, jb_len = length s, jb_cap = length cells\<rparr>" and "length s + length x < length cells"
    and "take (length s) cells = map Some s"
  shows "\<exists>b'. put_text b x = Some b' \<and> json_holds (Some b') (s @ x)"
proof -
  let ?c = "take (length s) cells @ map Some x @ drop (length s + length x) cells"
  have w: "write_text cells (length s) x = Some ?c" "length ?c = length cells" using assms(2) by (simp_all add: write_text_def)
  then have "put_text b x = Some (b\<lparr>jb_data := Some (?c[length s + length x := Some NUL]), jb_len := length s + length x\<rparr>)"
    using assms(1,2) by (simp add: put_text_def array_simps del: length_append)
  moreover have "take (length s + length x) ?c = map Some (s @ x)" using assms(2,3) by simp
  then have "take (length s + length x + 1) (?c[length s + length x := Some NUL]) = map Some (s @ x) @ [Some NUL]"
    using assms(2) w(2) take_Suc_update [of "length s + length x" ?c "Some NUL"] by simp
  ultimately show ?thesis using assms(1,2) w(2) by (simp add: json_holds_def)
qed

interpretation ap: json_writer "\<lambda>b e. json_buffer_append b (Some x) e" x for x
proof
  fix b s e
  assume "json_holds b s" and "length s + length x < TEXT_LIMIT"
  from reserve_ok [OF this, of e] obtain ok b' e' where r: "json_buffer_reserve b (length x) e = Some (ok, b', e')"
    "json_holds b' s" "ok \<longrightarrow> (\<exists>cells. b' = Some \<lparr>jb_data = Some cells, jb_len = length s, jb_cap = length cells\<rparr> \<and>
      length s + length x < length cells \<and> take (length s) cells = map Some s)" "all_succeed e \<longrightarrow> ok \<and> all_succeed e'"
    by blast
  obtain b0 where b: "b = Some b0" using \<open>json_holds b s\<close> by (auto simp: json_holds_def)
  show "\<exists>ok b' s' e'. json_buffer_append b (Some x) e = Some (ok, b', e') \<and> json_holds b' s' \<and>
      (ok \<longrightarrow> s' = s @ x) \<and> (all_succeed e \<longrightarrow> ok \<and> all_succeed e')"
  proof (cases ok)
    case False
    then show ?thesis using r b by (auto simp: json_buffer_append_def)
  next
    case True
    then obtain b1 b2 where "b' = Some b1" "put_text b1 x = Some b2" "json_holds (Some b2) (s @ x)"
      using r(3) put_text_ok by blast
    then show ?thesis using r(1,4) b True by (auto simp: json_buffer_append_def)
  qed
qed

lemma appendf_append: "int (length x) \<le> INT_MAX \<Longrightarrow> json_buffer_appendf b (Some x) e = json_buffer_append b (Some x) e"
  by (cases b) (simp_all add: json_buffer_appendf_def json_buffer_append_def)

lemma appendf_writer: "int (length x) \<le> INT_MAX \<Longrightarrow> json_writer (\<lambda>b e. json_buffer_appendf b (Some x) e) x"
  using json_writer_ext [OF ap.json_writer_axioms, of "\<lambda>b. json_buffer_appendf b (Some x)" x] appendf_append by blast

text \<open>Storing one character is the same as appending it.\<close>

lemma put_text_char:
  "put_text b [c] = do { cells \<leftarrow> jb_data b; cells' \<leftarrow> wr cells (jb_len b) (Some c); cells'' \<leftarrow> wr cells' (jb_len b + 1) (Some NUL);
     Some (b\<lparr>jb_data := Some cells'', jb_len := jb_len b + 1\<rparr>) }"
  by (cases "jb_data b") (auto simp: put_text_def write_text_def wr_def upd_conv_take_nth_drop)

lemma push_char_append: "json_push_char b c e = json_buffer_append b (Some [c]) e"
proof (cases b)
  case (Some b')
  then show ?thesis unfolding json_push_char_def json_buffer_append_def by (simp add: put_text_char cong: if_cong)
qed (simp add: json_push_char_def json_buffer_append_def json_buffer_reserve_def)

section \<open>Escaping\<close>

text \<open>What is written for one character, and for a string.\<close>

definition json_escape_char :: "char \<Rightarrow> string" where
  "json_escape_char c =
     (if c = CHR 0x5C then [CHR 0x5C, CHR 0x5C]
      else if c = CHR 0x22 then [CHR 0x5C, CHR 0x22]
      else if c = CHR 0x08 then [CHR 0x5C, CHR ''b'']
      else if c = CHR 0x0C then [CHR 0x5C, CHR ''f'']
      else if c = CHR 0x0A then [CHR 0x5C, CHR ''n'']
      else if c = CHR 0x0D then [CHR 0x5C, CHR ''r'']
      else if c = CHR 0x09 then [CHR 0x5C, CHR ''t'']
      else if code c < 0x20 then CHR 0x5C # CHR ''u'' # hex4 (code c)
      else [c])"

definition json_escape :: "string \<Rightarrow> string" where
  "json_escape s = concat (map json_escape_char s)"

definition json_quote :: "string \<Rightarrow> string" where
  "json_quote s = CHR 0x22 # json_escape s @ [CHR 0x22]"

lemma json_put_char_append: "json_put_char b c e = json_buffer_append b (Some (json_escape_char c)) e"
  unfolding json_put_char_def json_escape_char_def
  by (simp add: push_char_append appendf_append hex4_def INT_MAX_def)

lemma string_loop_writer: "json_writer (\<lambda>b e. json_string_loop b s e) (json_escape s @ [CHR 0x22])"
proof (induction s)
  case Nil
  show ?case using ap.json_writer_axioms [of "[CHR 0x22]"] by (simp add: json_escape_def)
next
  case (Cons c s)
  have "json_writer (json_then (\<lambda>b e. json_buffer_append b (Some (json_escape_char c)) e) (\<lambda>b e. json_string_loop b s e))
      (json_escape_char c @ json_escape s @ [CHR 0x22])"
    by (rule json_writer_then [OF ap.json_writer_axioms Cons.IH])
  then have "json_writer (json_then (\<lambda>b e. json_buffer_append b (Some (json_escape_char c)) e) (\<lambda>b e. json_string_loop b s e))
      (json_escape (c # s) @ [CHR 0x22])" by (simp add: json_escape_def)
  then show ?case
    by (rule json_writer_ext) (simp add: json_then_def json_put_char_append cong: if_cong)
qed

interpretation js: json_writer "\<lambda>b e. json_buffer_append_json_string b (Some x) e" "json_quote x" for x
proof -
  have "json_writer (json_then (\<lambda>b e. json_buffer_append b (Some [CHR 0x22]) e) (\<lambda>b e. json_string_loop b x e))
      ([CHR 0x22] @ json_escape x @ [CHR 0x22])"
    by (rule json_writer_then [OF ap.json_writer_axioms string_loop_writer])
  then have w: "json_writer (json_then (\<lambda>b e. json_buffer_append b (Some [CHR 0x22]) e) (\<lambda>b e. json_string_loop b x e)) (json_quote x)"
    by (simp add: json_quote_def)
  show "json_writer (\<lambda>b e. json_buffer_append_json_string b (Some x) e) (json_quote x)"
  proof (rule json_writer.intro)
    fix b s e
    assume a: "json_holds b s" "length s + length (json_quote x) < TEXT_LIMIT"
    obtain b0 where "b = Some b0" using a(1) by (auto simp: json_holds_def)
    then have "json_buffer_append_json_string b (Some x) e =
        json_then (\<lambda>b e. json_buffer_append b (Some [CHR 0x22]) e) (\<lambda>b e. json_string_loop b x e) b e"
      by (simp add: json_buffer_append_json_string_def json_then_def cong: if_cong)
    then show "\<exists>ok b' s' e'. json_buffer_append_json_string b (Some x) e = Some (ok, b', e') \<and> json_holds b' s' \<and>
        (ok \<longrightarrow> s' = s @ json_quote x) \<and> (all_succeed e \<longrightarrow> ok \<and> all_succeed e')"
      using json_writer.jw_step [OF w a, of e] by simp
  qed
qed

section \<open>The life of a buffer\<close>

lemma json_init_ok:
  assumes "0 < n"
  shows "\<exists>ok b' e'. json_buffer_init (Some b) n e = Some (ok, Some b', e') \<and> (ok \<longrightarrow> json_holds (Some b') []) \<and>
    (all_succeed e \<longrightarrow> ok \<and> all_succeed e')"
proof -
  obtain ok e' where e: "env_next e = (ok, e')" by (cases "env_next e")
  have "take (Suc 0) ((replicate n None)[0 := Some NUL]) = [Some NUL]" using assms by (cases n) simp_all
  then show ?thesis using assms e env_next_succeed [OF e]
    by (cases ok) (auto simp: json_buffer_init_def json_holds_def wr_def)
qed

text \<open>The text of a detached buffer, read as a C string; a zero in it would cut it short.\<close>

lemma c_string_take: "take (length s + 1) cells = map Some s @ [Some NUL] \<Longrightarrow> NUL \<notin> set s \<Longrightarrow> c_string cells = Some s"
proof (induction s arbitrary: cells)
  case Nil
  then show ?case by (cases cells) auto
next
  case (Cons c s)
  then show ?case by (cases cells) auto
qed

lemma detach_holds:
  assumes "json_holds b s" and "NUL \<notin> set s"
  shows "\<exists>cells b'. json_buffer_detach b = (Some cells, b') \<and> c_string cells = Some s"
  using assms c_string_take by (auto simp: json_holds_def json_buffer_detach_def)

section \<open>Reading strings back\<close>

text \<open>The reader of a JSON string behind its opening quote: the string and the rest behind the
  closing quote. \<open>None\<close> for a text that is no JSON string: an unknown escape, a control
  character, a missing quote.\<close>

definition hex_value :: "char \<Rightarrow> nat option" where
  "hex_value c =
     (if isdigit c then Some (code c - 48)
      else if 97 \<le> code c \<and> code c \<le> 102 then Some (code c - 87) else None)"

definition simple_escape :: "char \<Rightarrow> char option" where
  "simple_escape c =
     (if c = CHR 0x5C \<or> c = CHR 0x22 then Some c
      else if c = CHR ''b'' then Some (CHR 0x08) else if c = CHR ''f'' then Some (CHR 0x0C)
      else if c = CHR ''n'' then Some (CHR 0x0A) else if c = CHR ''r'' then Some (CHR 0x0D)
      else if c = CHR ''t'' then Some (CHR 0x09) else None)"

fun json_read :: "string \<Rightarrow> (string \<times> string) option" where
  "json_read [] = None"
| "json_read (c # s) =
     (if c = CHR 0x22 then Some ([], s)
      else if code c < 0x20 then None
      else if c \<noteq> CHR 0x5C then do { (t, rest) \<leftarrow> json_read s; Some (c # t, rest) }
      else case s of
             CHR ''u'' # h3 # h2 # h1 # h0 # s' \<Rightarrow>
               do { a \<leftarrow> hex_value h3; b \<leftarrow> hex_value h2; d \<leftarrow> hex_value h1; f \<leftarrow> hex_value h0;
                    (t, rest) \<leftarrow> json_read s';
                    Some (char_of (4096 * a + 256 * b + 16 * d + f) # t, rest) }
           | x # s' \<Rightarrow> do { y \<leftarrow> simple_escape x; (t, rest) \<leftarrow> json_read s'; Some (y # t, rest) }
           | [] \<Rightarrow> None)"

lemma hex_value_digit: "d < 16 \<Longrightarrow> hex_value (hex_digit d) = Some d"
  by (auto simp: hex_value_def hex_digit_def isdigit_def digit_code)

lemma json_read_plain:
  "\<not> code c < 0x20 \<Longrightarrow> c \<noteq> CHR 0x22 \<Longrightarrow> c \<noteq> CHR 0x5C \<Longrightarrow> json_read s = Some (t, rest) \<Longrightarrow>
   json_read (c # s) = Some (c # t, rest)"
  by simp

lemma json_read_hex:
  assumes "code c < 0x20" and "json_read s = Some (t, rest)"
  shows "json_read (CHR 0x5C # CHR ''u'' # hex4 (code c) @ s) = Some (c # t, rest)"
proof -
  have d: "code c div 4096 = 0" "code c div 256 = 0" "code c div 16 < 16" "code c mod 16 < 16" using assms(1) by simp_all
  have "16 * (code c div 16) + code c mod 16 = code c" by simp
  then show ?thesis using assms(2) d by (simp add: hex4_def hex_value_digit)
qed

lemma json_read_char:
  assumes "json_read s = Some (t, rest)"
  shows "json_read (json_escape_char c @ s) = Some (c # t, rest)"
proof -
  consider (special) "c \<in> {CHR 0x5C, CHR 0x22, CHR 0x08, CHR 0x0C, CHR 0x0A, CHR 0x0D, CHR 0x09}"
    | (other) "c \<notin> {CHR 0x5C, CHR 0x22, CHR 0x08, CHR 0x0C, CHR 0x0A, CHR 0x0D, CHR 0x09}" by blast
  then show ?thesis
  proof cases
    case special
    then show ?thesis using assms by (auto simp: json_escape_char_def simple_escape_def)
  next
    case other
    then show ?thesis using json_read_hex [OF _ assms, of c] json_read_plain [OF _ _ _ assms, of c]
      by (cases "code c < 0x20") (simp_all add: json_escape_char_def)
  qed
qed

lemma json_read_escape: "json_read (json_escape s @ CHR 0x22 # rest) = Some (s, rest)"
proof (induction s)
  case (Cons c s)
  then show ?case using json_read_char [OF Cons.IH, of c] by (simp add: json_escape_def)
qed (simp add: json_escape_def)

text \<open>An escaped string contains no control character and no zero, so it is one line of text.\<close>

lemma hex_digit_code: "d < 16 \<Longrightarrow> 0x20 \<le> code (hex_digit d)"
  by (auto simp: hex_digit_def digit_code)

lemma json_escape_char_printable: "x \<in> set (json_escape_char c) \<Longrightarrow> 0x20 \<le> code x"
  by (auto simp: json_escape_char_def hex4_def hex_digit_code split: if_splits)

lemma json_quote_printable: "x \<in> set (json_quote s) \<Longrightarrow> 0x20 \<le> code x"
  using json_escape_char_printable by (auto simp: json_quote_def json_escape_def)

lemma json_quote_no_NUL: "NUL \<notin> set (json_quote s)"
  using json_quote_printable [of NUL s] by auto

end
