(* ===== verification/Api_Props.thy ===== *)
theory Api_Props
  imports Api_Query Json_Correct Sql_Exec
begin

text \<open>
  The properties of the JSON writer and of the query interface: the body of a response is
  exactly the JSON text of the answer of the abstract database.
\<close>

section \<open>The expected bodies\<close>

definition record_json :: "Record \<Rightarrow> string" where
  "record_json u = json_text (''{'' @ q1 @ ''id'' @ q1 @ '':'') @ show_int (rec_id u) @ json_text ('','' @ q1 @ ''name'' @ q1 @ '':'')
     @ json_quote (rec_name u) @ json_text ('','' @ q1 @ ''age'' @ q1 @ '':'') @ show_int (rec_age u) @ ''}''"

definition more_json :: "Record list \<Rightarrow> string" where
  "more_json us = concat (map (\<lambda>u. CHR '','' # record_json u) us)"

fun rows_json :: "Record list \<Rightarrow> string" where
  "rows_json [] = []"
| "rows_json (u # us) = record_json u @ more_json us"

fun answer_json :: "answer \<Rightarrow> string" where
  "answer_json (Inserted u) =
     json_text (''{'' @ q1 @ ''ok'' @ q1 @ '':true,'' @ q1 @ ''action'' @ q1 @ '':'' @ q1 @ ''insert'' @ q1 @ '','' @ q1 @ ''inserted_id'' @ q1 @ '':'')
     @ show_int (rec_id u) @ json_text ('','' @ q1 @ ''row_count'' @ q1 @ '':1}'')"
| "answer_json (Rows vs) =
     json_text (''{'' @ q1 @ ''ok'' @ q1 @ '':true,'' @ q1 @ ''action'' @ q1 @ '':'' @ q1 @ ''select'' @ q1 @ '','' @ q1 @ ''row_count'' @ q1 @ '':'')
     @ show_nat (length vs) @ json_text ('','' @ q1 @ ''rows'' @ q1 @ '':['') @ rows_json vs @ '']}''"
| "answer_json Bye = exit_not_supported_body"

definition error_json :: "SQLStatus \<Rightarrow> int \<Rightarrow> string \<Rightarrow> string \<Rightarrow> string" where
  "error_json status error state message =
     json_text (''{'' @ q1 @ ''ok'' @ q1 @ '':false,'' @ q1 @ ''status'' @ q1 @ '':'') @ json_quote (api_status_name status)
     @ json_text ('','' @ q1 @ ''error_code'' @ q1 @ '':'') @ show_int error @ json_text ('','' @ q1 @ ''sql_state'' @ q1 @ '':'')
     @ json_quote state @ json_text ('','' @ q1 @ ''message'' @ q1 @ '':'') @ json_quote message @ ''}''"

text \<open>Users as C values: 32-bit numbers and names of at most 63 characters.\<close>

definition user_fits :: "Record \<Rightarrow> bool" where
  "user_fits u \<longleftrightarrow> number_ok (rec_id u) \<and> number_ok (rec_age u) \<and> length (rec_name u) \<le> 63"

section \<open>Writers of the interface\<close>

lemma json_text_simps [simp]:
  "json_text [] = []" "json_text (c # s) = (if c = CHR 0x27 then CHR 0x22 else c) # json_text s"
  by (simp_all add: json_text_def)

text \<open>Texts that are short enough for \<open>vsnprintf\<close>.\<close>

lemma appendf_short: "length x \<le> 1000 \<Longrightarrow> json_writer (\<lambda>b. json_buffer_appendf b (Some x)) x"
  by (rule appendf_writer) (simp add: INT_MAX_def)

lemmas writers = ap.json_writer_axioms js.json_writer_axioms appendf_short

lemma record_writer:
  assumes "user_fits u"
  shows "json_writer (api_append_record u) (record_json u)"
proof -
  have l: "length (show_int (rec_id u)) \<le> 11" "length (show_int (rec_age u)) \<le> 11"
    using assms show_int_length by (auto simp: user_fits_def)
  show ?thesis unfolding api_append_record_def record_json_def using l
    by (intro json_thenI [OF appendf_short json_thenI [OF js.json_writer_axioms appendf_short refl]]) simp_all
qed

lemma rows_step_writer:
  assumes "rd_init cells i = Some p" and "h p = Some u" and "user_fits u"
    and "json_writer (api_rows_loop h cells (i + 1) n) s"
  shows "json_writer (api_rows_loop h cells i (Suc n)) ((if i > 0 then '','' else []) @ record_json u @ s)"
proof -
  let ?row = "json_then (api_append_record u) (api_rows_loop h cells (i + 1) n)"
  have row: "json_writer ?row (record_json u @ s)" by (rule json_writer_then [OF record_writer [OF assms(3)] assms(4)])
  show ?thesis
  proof (cases "i > 0")
    case True
    have eq: "api_rows_loop h cells i (Suc n) b e = json_then (\<lambda>b. json_buffer_append b (Some '','')) ?row b e" for b e
      using True assms(1,2) by (simp add: json_then_def cong: if_cong)
    have "json_writer (json_then (\<lambda>b. json_buffer_append b (Some '','')) ?row) ('','' @ record_json u @ s)"
      by (rule json_writer_then [OF ap.json_writer_axioms row])
    from json_writer_ext [OF this eq] show ?thesis using True by (simp only: if_True)
  next
    case False
    then have eq: "api_rows_loop h cells i (Suc n) b e = ?row b e" for b e
      using assms(1,2) by (simp add: json_then_def cong: if_cong)
    from json_writer_ext [OF row eq] show ?thesis using False by (simp only: if_False append_Nil)
  qed
qed

lemma rows_nothing: "json_writer (api_rows_loop h cells i 0) []"
  by standard auto

lemma rows_more_writer:
  assumes "\<And>j. j < length vs \<Longrightarrow> \<exists>p. rd_init cells j = Some p \<and> h p = Some (vs ! j)" and "\<forall>u \<in> set vs. user_fits u"
  shows "i + n = length vs \<Longrightarrow> 0 < i \<Longrightarrow> json_writer (api_rows_loop h cells i n) (more_json (drop i vs))"
proof (induction n arbitrary: i)
  case 0
  then show ?case using rows_nothing by (simp add: more_json_def del: api_rows_loop.simps)
next
  case (Suc n)
  obtain p where "rd_init cells i = Some p" "h p = Some (vs ! i)" using assms(1) [of i] Suc.prems by auto
  from rows_step_writer [OF this _ Suc.IH] Suc.prems assms(2) show ?case
    by (simp add: more_json_def Cons_nth_drop_Suc [symmetric] del: api_rows_loop.simps)
qed

lemma rows_writer:
  assumes "query_result t vs True (result_array r)" and "\<forall>u \<in> set vs. user_fits u"
  shows "json_writer (api_rows_loop (rec_heap t) (sr_records r) 0 (length vs)) (rows_json vs)"
proof -
  obtain ps where ps: "array_view (result_array r) ps" "denotes (rec_heap t) ps vs" using assms(1) by (auto simp: query_result_def)
  then have len: "length ps = length vs" "length ps \<le> length (sr_records r)" "take (length ps) (sr_records r) = map Some ps"
    by (auto simp: denotes_length array_view_def result_array_def)
  have row: "\<exists>p. rd_init (sr_records r) j = Some p \<and> rec_heap t p = Some (vs ! j)" if "j < length vs" for j
  proof -
    have "sr_records r ! j = take (length ps) (sr_records r) ! j" using that len(1) by simp
    then have "sr_records r ! j = Some (ps ! j)" using that len(1) unfolding len(3) by simp
    then show ?thesis using that len denotes_nth [OF ps(2) that] by (simp add: array_simps)
  qed
  show ?thesis
  proof (cases vs)
    case Nil
    then show ?thesis using rows_nothing by (simp del: api_rows_loop.simps)
  next
    case (Cons u us)
    obtain p where p: "rd_init (sr_records r) 0 = Some p" "rec_heap t p = Some u" using row [of 0] Cons by auto
    have "json_writer (api_rows_loop (rec_heap t) (sr_records r) (0 + 1) (length us)) (more_json us)"
      using rows_more_writer [OF row assms(2), of 1 "length us"] Cons by (simp del: api_rows_loop.simps)
    from rows_step_writer [OF p _ this] show ?thesis
      using Cons assms(2) by (simp del: api_rows_loop.simps)
  qed
qed

section \<open>Responses\<close>

lemma api_finish_ok:
  assumes "json_writer build s" and "length s < TEXT_LIMIT" and "NUL \<notin> set s"
  shows "\<exists>ok res e'. api_finish build status e = Some (ok, res, e') \<and>
    (if ok then http_status res = status \<and> (\<exists>cells. api_body res = Some cells \<and> c_string cells = Some s)
     else api_body res = None \<and> http_status res \<in> {status, 500}) \<and>
    (all_succeed e \<longrightarrow> ok \<and> all_succeed e')"
proof -
  obtain ok b e1 where i: "json_buffer_init (Some \<lparr>jb_data = None, jb_len = 0, jb_cap = 0\<rparr>) 256 e = Some (ok, Some b, e1)"
    "ok \<longrightarrow> json_holds (Some b) []" "all_succeed e \<longrightarrow> ok \<and> all_succeed e1"
    using json_init_ok [of 256 "\<lparr>jb_data = None, jb_len = 0, jb_cap = 0\<rparr>" e] by auto
  show ?thesis
  proof (cases ok)
    case False
    then show ?thesis using i by (auto simp: api_finish_def)
  next
    case True
    obtain ok2 b2 s2 e2 where w: "build (Some b) e1 = Some (ok2, b2, e2)" "json_holds b2 s2" "ok2 \<longrightarrow> s2 = s"
      "all_succeed e1 \<longrightarrow> ok2 \<and> all_succeed e2"
      using json_writer.jw_step [OF assms(1) i(2) [rule_format, OF True], of e1] assms(2) by auto
    show ?thesis
    proof (cases ok2)
      case False
      then show ?thesis using i(1,3) w True by (auto simp: api_finish_def)
    next
      case ok2: True
      then obtain cells b3 where "json_buffer_detach b2 = (Some cells, b3)" "c_string cells = Some s"
        using detach_holds [OF w(2)] w(3) assms(3) by auto
      then show ?thesis using i(1,3) w(1,4) True ok2 by (auto simp: api_finish_def)
    qed
  qed
qed

lemma insert_response_writer:
  assumes "answers t r (Inserted u)" and "user_fits u"
  shows "json_writer (api_build_success_response (rec_heap t) r) (answer_json (Inserted u))"
proof -
  have "length (show_int (rec_id u)) \<le> 11" using assms(2) show_int_length by (simp add: user_fits_def)
  moreover have "show_nat 1 = ''1''" by (simp add: show_nat.simps digit_chars)
  ultimately show ?thesis
    unfolding api_build_success_response_def
    using assms(1)
    by (intro json_thenI [OF ap.json_writer_axioms json_thenI [OF js.json_writer_axioms _ refl]])
      (auto simp: api_action_name_def json_quote_def json_escape_def json_escape_char_def intro!: appendf_short)
qed

lemma rows_response_writer:
  assumes "answers t r (Rows vs)" and "\<forall>u \<in> set vs. user_fits u" and "length vs < 10 ^ 20"
  shows "json_writer (api_build_success_response (rec_heap t) r) (answer_json (Rows vs))"
proof -
  have "length (show_nat (length vs)) \<le> 20" using show_nat_length [of "length vs" 19] assms(3) by simp
  moreover have "json_writer (api_rows_loop (rec_heap t) (sr_records r) 0 (length vs)) (rows_json vs)"
    using rows_writer [OF _ assms(2)] assms(1) by simp
  ultimately show ?thesis
    unfolding api_build_success_response_def
    using assms(1)
    by (auto intro!: json_thenI [OF ap.json_writer_axioms json_thenI [OF js.json_writer_axioms
          json_thenI [OF appendf_short json_thenI [OF _ ap.json_writer_axioms refl] refl] refl]]
        simp: api_action_name_def json_quote_def json_escape_def json_escape_char_def)
qed

lemma error_response_writer:
  assumes "number_ok (sr_error_code r)" and "sr_error_message r \<noteq> []"
  shows "json_writer (api_build_error_response r)
    (error_json (sr_status r) (sr_error_code r) (sr_sql_state r) (sr_error_message r))"
proof -
  have "length (show_int (sr_error_code r)) \<le> 11" using assms(1) by (rule show_int_length)
  then show ?thesis
    unfolding api_build_error_response_def error_json_def
    using assms(2)
    by (intro json_thenI [OF ap.json_writer_axioms json_thenI [OF js.json_writer_axioms json_thenI [OF appendf_short
          json_thenI [OF js.json_writer_axioms json_thenI [OF ap.json_writer_axioms
            json_thenI [OF js.json_writer_axioms ap.json_writer_axioms refl] refl] refl] refl] refl]]) simp_all
qed

section \<open>Sizes\<close>

lemma json_escape_length: "length (json_escape s) \<le> 6 * length s"
proof (induction s)
  case (Cons c s)
  have "length (json_escape_char c) \<le> 6" by (simp add: json_escape_char_def hex4_def)
  then show ?case using Cons by (simp add: json_escape_def)
qed (simp add: json_escape_def)

lemma record_json_length:
  assumes "user_fits u"
  shows "length (record_json u) \<le> 500"
proof -
  have "length (json_escape (rec_name u)) \<le> 378" using json_escape_length [of "rec_name u"] assms by (simp add: user_fits_def)
  moreover have "length (show_int (rec_id u)) \<le> 11" "length (show_int (rec_age u)) \<le> 11"
    using assms show_int_length by (auto simp: user_fits_def)
  ultimately show ?thesis by (simp add: record_json_def json_quote_def)
qed

lemma more_json_length: "\<forall>u \<in> set vs. user_fits u \<Longrightarrow> length (more_json vs) \<le> 501 * length vs"
proof (induction vs)
  case (Cons v vs)
  then show ?case using record_json_length [of v] by (simp add: more_json_def)
qed (simp add: more_json_def)

lemma rows_json_length: "\<forall>u \<in> set vs. user_fits u \<Longrightarrow> length (rows_json vs) \<le> 501 * length vs"
  using record_json_length more_json_length [of "tl vs"] by (cases vs) fastforce+

lemma users_count:
  assumes "users_ok us n"
  shows "length us < 2 ^ 31"
proof -
  have "distinct us" "inj_on rec_id (set us)" using users_distinct [OF assms] by simp_all
  then have "length us = card (rec_id ` set us)" by (simp add: card_image distinct_card)
  also have "\<dots> \<le> card {1 ..< n}" using assms by (intro card_mono) (auto simp: users_ok_def)
  also have "\<dots> < 2 ^ 31" using assms by (auto simp: users_ok_def INT_MAX_def nat_less_iff)
  finally show ?thesis .
qed

lemma rows_size:
  assumes "users_ok us n" and "\<forall>u \<in> set us. user_fits u"
  shows "length (answer_json (Rows (filter P us))) < TEXT_LIMIT" and "length (filter P us) < 10 ^ 20"
proof -
  have l: "length (filter P us) < 2 ^ 31" using users_count [OF assms(1)] length_filter_le [of P us] by linarith
  then show "length (filter P us) < 10 ^ 20" by simp
  have "length (show_nat (length (filter P us))) \<le> 20"
    using show_nat_length [of "length (filter P us)" 19] l by simp
  moreover have "length (rows_json (filter P us)) \<le> 501 * length (filter P us)"
    using assms(2) by (intro rows_json_length) auto
  ultimately show "length (answer_json (Rows (filter P us))) < TEXT_LIMIT" using l by (simp add: TEXT_LIMIT_def)
qed

section \<open>Queries\<close>

lemma show_int_no_NUL: "NUL \<notin> set (show_int k)" and show_nat_no_NUL: "NUL \<notin> set (show_nat n)"
  using show_nat_digits by (fastforce simp: show_int_def isdigit_def split: if_splits)+

lemma record_json_no_NUL: "NUL \<notin> set (record_json u)"
  using show_int_no_NUL json_quote_no_NUL by (simp add: record_json_def)

lemma rows_json_no_NUL: "NUL \<notin> set (rows_json vs)"
  using record_json_no_NUL by (cases vs) (auto simp: more_json_def)

lemma answer_json_no_NUL: "NUL \<notin> set (answer_json a)"
  using show_int_no_NUL show_nat_no_NUL rows_json_no_NUL by (cases a) (simp_all add: exit_not_supported_body_def)

lemma error_json_no_NUL: "NUL \<notin> set (error_json status err state message)"
  using show_int_no_NUL json_quote_no_NUL by (simp add: error_json_def)

lemma db_exec_rows:
  assumes "fst (db_exec st (n, us)) = Rows vs"
  shows "snd (db_exec st (n, us)) = (n, us) \<and> (\<exists>P. vs = filter P us)"
proof (cases st)
  case St_All
  then have "vs = filter (\<lambda>_. True) us" using assms by simp
  then show ?thesis using St_All by (intro conjI exI [of _ "\<lambda>_. True"]) simp_all
qed (use assms in \<open>auto simp: Let_def\<close>)

text \<open>The answer to an accepted command, behind a successful execution of its plan.\<close>

lemma api_success:
  assumes "parsed (sql_parse (Some s))" and "command (sql_parse (Some s)) = c" and "cmd_type c \<noteq> SQL_COMMAND_EXIT"
    and "sql_execute_plan (Some t) (Some c) e = Some (r, Some t', e1)"
    and "json_writer (api_build_success_response (rec_heap t') r) b" and "length b < TEXT_LIMIT" and "NUL \<notin> set b"
    and "sr_status r \<in> {SQL_STATUS_OK, SQL_STATUS_NOT_FOUND}" and "all_succeed e1"
  shows "\<exists>cells e'. api_handle_query (Some t) (Some s) (Some r0) e =
      Some (True, Some \<lparr>http_status = 200, api_body = Some cells\<rparr>, Some t', e') \<and> c_string cells = Some b \<and> all_succeed e'"
proof -
  obtain res e2 where "api_finish (api_build_success_response (rec_heap t') r) 200 e1 = Some (True, res, e2)"
    "http_status res = 200" "\<exists>cells. api_body res = Some cells \<and> c_string cells = Some b" "all_succeed e2"
    using api_finish_ok [OF assms(5-7), of 200 e1] assms(9) by auto
  then show ?thesis using assms(1-4,8) by (cases res) (auto simp: api_handle_query_def Let_def)
qed

lemma api_exit:
  assumes "parsed (sql_parse (Some s))" and "cmd_type (command (sql_parse (Some s))) = SQL_COMMAND_EXIT" and "all_succeed e"
  shows "\<exists>cells e'. api_handle_query (Some t) (Some s) (Some r0) e =
      Some (True, Some \<lparr>http_status = 400, api_body = Some cells\<rparr>, Some t, e') \<and> c_string cells = Some (answer_json Bye) \<and> all_succeed e'"
proof -
  have "length exit_not_supported_body < TEXT_LIMIT" by (simp add: exit_not_supported_body_def TEXT_LIMIT_def)
  then obtain res e2 where "api_finish (\<lambda>b. json_buffer_append b (Some exit_not_supported_body)) 400 e = Some (True, res, e2)"
    "http_status res = 400" "\<exists>cells. api_body res = Some cells \<and> c_string cells = Some exit_not_supported_body" "all_succeed e2"
    using api_finish_ok [OF ap.json_writer_axioms _ answer_json_no_NUL [of Bye, simplified], of 400 e] assms(3) by auto
  then show ?thesis using assms(1,2) by (cases res) (auto simp: api_handle_query_def Let_def)
qed

text \<open>Statements whose insertion fits a record.\<close>

fun stmt_fits :: "stmt \<Rightarrow> bool" where
  "stmt_fits (St_Insert name age) \<longleftrightarrow> length name \<le> 63 \<and> number_ok age"
| "stmt_fits _ \<longleftrightarrow> True"

lemma stmt_ok_fits: "stmt_ok st \<Longrightarrow> stmt_fits st"
  by (cases st) (auto simp: name_ok_def)

lemma accepted_fits: "Sql_Correct.accepted p \<Longrightarrow> stmt_fits (command_stmt (command p))"
  by (cases "cmd_type (command p)") (auto simp: Sql_Correct.accepted_def command_stmt_def number_ok_def)

lemma inserted_fits:
  assumes "stmt_fits st" and "users_ok us n" and "n < INT_MAX" and "fst (db_exec st (n, us)) = Inserted u"
  shows "user_fits u"
  using assms by (cases st) (auto simp: Let_def user_fits_def number_ok_def users_ok_def INT_MIN_def INT_MAX_def)

lemma db_exec_fits:
  assumes "stmt_fits st" and "users_ok us n" and "n < INT_MAX" and "\<forall>u \<in> set us. user_fits u"
  shows "\<forall>u \<in> set (snd (snd (db_exec st (n, us)))). user_fits u"
proof (cases st)
  case (St_Insert name age)
  then have "user_fits \<lparr>rec_id = n, rec_name = name, rec_age = age\<rparr>"
    using inserted_fits [OF assms(1-3)] by (simp add: Let_def)
  then show ?thesis using St_Insert assms(4) by (simp add: Let_def)
qed (use assms(4) in simp_all)

lemma answer_size:
  assumes "stmt_fits st" and "users_ok us n" and "n < INT_MAX" and "\<forall>u \<in> set us. user_fits u"
  shows "length (answer_json (fst (db_exec st (n, us)))) < TEXT_LIMIT"
proof (cases "fst (db_exec st (n, us))")
  case (Inserted u)
  then have "length (show_int (rec_id u)) \<le> 11" using inserted_fits [OF assms(1-3)] show_int_length by (simp add: user_fits_def)
  then show ?thesis using Inserted by (simp add: TEXT_LIMIT_def)
next
  case (Rows vs)
  then obtain P where "vs = filter P us" using db_exec_rows by blast
  then show ?thesis using rows_size(1) [OF assms(2,4), of P] Rows by (simp del: answer_json.simps)
next
  case Bye
  then show ?thesis by (simp add: exit_not_supported_body_def TEXT_LIMIT_def)
qed

lemma answer_writer:
  assumes "answers t' r a" and "a = fst (db_exec st (n, us))" and "a \<noteq> Bye" and "stmt_fits st" and "users_ok us n" and "n < INT_MAX"
    and "\<forall>u \<in> set us. user_fits u"
  shows "json_writer (api_build_success_response (rec_heap t') r) (answer_json a)"
    and "sr_status r \<in> {SQL_STATUS_OK, SQL_STATUS_NOT_FOUND}"
proof -
  have "json_writer (api_build_success_response (rec_heap t') r) (answer_json a) \<and> sr_status r \<in> {SQL_STATUS_OK, SQL_STATUS_NOT_FOUND}"
  proof (cases a)
    case (Inserted u)
    then have "user_fits u" using inserted_fits [OF assms(4-6)] assms(2) by simp
    from insert_response_writer [OF assms(1) [unfolded Inserted] this] show ?thesis using assms(1) Inserted by simp
  next
    case (Rows vs)
    then obtain P where vs: "vs = filter P us" using db_exec_rows assms(2) by metis
    then have fits: "\<forall>u \<in> set vs. user_fits u" using assms(7) by simp
    from rows_response_writer [OF assms(1) [unfolded Rows] fits] rows_size(2) [OF assms(5,7), of P] vs
    show ?thesis using assms(1) Rows by (simp del: answer_json.simps)
  qed (use assms(3) in simp)
  then show "json_writer (api_build_success_response (rec_heap t') r) (answer_json a)" "sr_status r \<in> {SQL_STATUS_OK, SQL_STATUS_NOT_FOUND}"
    by simp_all
qed

text \<open>A query of any accepted text.\<close>

lemma api_command_refines:
  assumes "Sql_Correct.accepted (sql_parse (Some s))" and "command_stmt (command (sql_parse (Some s))) = st"
    and "db_rep t (n, us)" and "n < INT_MAX" and "all_succeed e" and "\<forall>u \<in> set us. user_fits u"
  shows "\<exists>cells t' e'. api_handle_query (Some t) (Some s) (Some r0) e =
      Some (True, Some \<lparr>http_status = (if st = St_Exit then 400 else 200), api_body = Some cells\<rparr>, Some t', e') \<and>
    c_string cells = Some (answer_json (fst (db_exec st (n, us)))) \<and> db_rep t' (snd (db_exec st (n, us))) \<and> all_succeed e'"
proof -
  let ?c = "command (sql_parse (Some s))"
  have p: "parsed (sql_parse (Some s))" "cmd_type ?c \<noteq> SQL_COMMAND_NONE" "length (cmd_name ?c) \<le> 63"
    using assms(1) by (simp_all add: Sql_Correct.accepted_def)
  note fits = accepted_fits [OF assms(1), unfolded assms(2)]
  have ok: "users_ok us n" using assms(3) by (auto simp: db_rep_def table_models_def table_rows_def)
  show ?thesis
  proof (cases "cmd_type ?c = SQL_COMMAND_EXIT")
    case True
    then have "st = St_Exit" using command_stmt_exit [OF p(2)] assms(2) by simp
    then show ?thesis using api_exit [OF p(1) True assms(5), of t r0] assms(3) by (simp del: answer_json.simps) blast
  next
    case False
    then have st: "st \<noteq> St_Exit" using command_stmt_exit [OF p(2)] assms(2) by simp
    obtain r t' e1 where x: "sql_execute_plan (Some t) (Some ?c) e = Some (r, Some t', e1)"
      "answers t' r (fst (db_exec st (n, us)))" "db_rep t' (snd (db_exec st (n, us)))" "all_succeed e1"
      using execute_plan_refines [OF p(2) False p(3) assms(3-5)] unfolding assms(2) by blast
    have "fst (db_exec st (n, us)) \<noteq> Bye" using st by (simp add: db_exec_Bye)
    note w = answer_writer [OF x(2) refl this fits ok assms(4,6)]
    from api_success [OF p(1) refl False x(1) w(1) answer_size [OF fits ok assms(4,6)] answer_json_no_NUL w(2) x(4), of r0]
    show ?thesis using x(3) st by (simp del: answer_json.simps) blast
  qed
qed

lemma api_refines:
  assumes "stmt_ok st" and "list_all isspace w" and "db_rep t (n, us)" and "n < INT_MAX" and "all_succeed e"
    and "\<forall>u \<in> set us. user_fits u"
  shows "\<exists>cells t' e'. api_handle_query (Some t) (Some (render st @ w)) (Some r0) e =
      Some (True, Some \<lparr>http_status = (if st = St_Exit then 400 else 200), api_body = Some cells\<rparr>, Some t', e') \<and>
    c_string cells = Some (answer_json (fst (db_exec st (n, us)))) \<and> db_rep t' (snd (db_exec st (n, us))) \<and> all_succeed e'"
proof -
  have p: "parsed (sql_parse (Some (render st @ w)))" "command (sql_parse (Some (render st @ w))) = stmt_command st"
    using sql_parse_render [OF assms(1,2)] by simp_all
  then have "Sql_Correct.accepted (sql_parse (Some (render st @ w)))" using sql_parse_outcome [of "render st @ w"] by (auto simp: rejected_def)
  then show ?thesis by (rule api_command_refines) (use p(2) assms(3-6) in simp_all)
qed

text \<open>An insertion into the empty table makes five fallible calls; here the next one, the allocation
  of the response buffer, fails.\<close>

lemma insert_then_no_memory:
  "case sql_execute_plan (Some (table_upto 16)) (Some (stmt_command (St_Insert ''Kim'' 33))) [True, True, True, True, True, False] of
     Some (r, Some t', e') \<Rightarrow> sr_status r = SQL_STATUS_OK \<and> e' = [False] \<and>
       (case table_find_by_id (Some t') 1 [] of
          Some (Some p, _, _) \<Rightarrow> rec_heap t' p = Some \<lparr>rec_id = 1, rec_name = ''Kim'', rec_age = 33\<rparr> | _ \<Rightarrow> False)
   | _ \<Rightarrow> False"
  by code_simp

lemma case_optionE:
  assumes "case x of None \<Rightarrow> False | Some y \<Rightarrow> P y"
  obtains y where "x = Some y" and "P y"
  using assms by (cases x) simp_all

text \<open>The result that describes a rejection, and its response.\<close>

definition rejection :: "SQLParseResult \<Rightarrow> SQLResult" where
  "rejection p = (sql_make_result (pr_status p) SQL_ACTION_NONE)
     \<lparr>sr_error_code := pr_error_code p, sr_sql_state := bounded SQL_SQLSTATE_SIZE (pr_sql_state p),
      sr_error_message := bounded SQL_ERROR_MESSAGE_SIZE (pr_error_message p)\<rparr>"

lemma rejected_response:
  assumes "rejected p"
  shows "json_writer (api_build_error_response (rejection p)) (error_json (pr_status p) (pr_error_code p) (pr_sql_state p) (pr_error_message p))"
    and "length (error_json (pr_status p) (pr_error_code p) (pr_sql_state p) (pr_error_message p)) < TEXT_LIMIT"
    and "\<not> parsed p" and "pr_status p \<noteq> SQL_STATUS_ERROR"
proof -
  have p: "pr_status p \<noteq> SQL_STATUS_ERROR" "number_ok (pr_error_code p)" "length (pr_sql_state p) = 5"
    "length (pr_error_message p) < 256" "pr_error_message p \<noteq> []"
    using assms rejected_message [OF assms]
    by (auto simp: rejected_def number_ok_def INT_MIN_def INT_MAX_def syntax_message_def)
  then show "\<not> parsed p" "pr_status p \<noteq> SQL_STATUS_ERROR" using assms by (simp_all add: rejected_def)
  have b: "bounded SQL_SQLSTATE_SIZE (pr_sql_state p) = pr_sql_state p" "bounded SQL_ERROR_MESSAGE_SIZE (pr_error_message p) = pr_error_message p"
    using p(3,4) by (simp_all add: bounded_id SQL_SQLSTATE_SIZE_def SQL_ERROR_MESSAGE_SIZE_def)
  show "json_writer (api_build_error_response (rejection p)) (error_json (pr_status p) (pr_error_code p) (pr_sql_state p) (pr_error_message p))"
    using error_response_writer [of "rejection p"] p(2,5) b by (simp add: rejection_def sql_make_result_def)
  have "length (json_escape (pr_sql_state p)) \<le> 30" "length (json_escape (pr_error_message p)) \<le> 1530"
    "length (show_int (pr_error_code p)) \<le> 11" "length (json_escape (api_status_name (pr_status p))) \<le> 6 * 18"
    using json_escape_length [of "pr_sql_state p"] json_escape_length [of "pr_error_message p"] p show_int_length
      json_escape_length [of "api_status_name (pr_status p)"] by (auto simp: api_status_name_def split: SQLStatus.splits)
  then show "length (error_json (pr_status p) (pr_error_code p) (pr_sql_state p) (pr_error_message p)) < TEXT_LIMIT"
    by (simp add: error_json_def json_quote_def TEXT_LIMIT_def)
qed

section \<open>Any query\<close>

text \<open>The abstract answer to the text of a query, whatever it is: the status, the body, and the next
  abstract database.\<close>

definition query_answer :: "string \<Rightarrow> int \<times> Record list \<Rightarrow> (int \<times> string) \<times> int \<times> Record list" where
  "query_answer s db =
     (let p = sql_parse (Some s) in
      if \<not> parsed p then ((200, error_json (pr_status p) (pr_error_code p) (pr_sql_state p) (pr_error_message p)), db)
      else let st = command_stmt (command p) in
           ((if st = St_Exit then 400 else 200, answer_json (fst (db_exec st db))), snd (db_exec st db)))"

lemma api_answers_query:
  assumes "db_rep t (n, us)" and "n < INT_MAX" and "all_succeed e" and "\<forall>u \<in> set us. user_fits u"
    and "query_answer s (n, us) = ((st, b), db')"
  shows "\<exists>cells t' e'. api_handle_query (Some t) (Some s) (Some r0) e = Some (True, Some \<lparr>http_status = st, api_body = Some cells\<rparr>, Some t', e') \<and>
    c_string cells = Some b \<and> db_rep t' db' \<and> all_succeed e'"
proof (cases "parsed (sql_parse (Some s))")
  case True
  then have a: "Sql_Correct.accepted (sql_parse (Some s))" using sql_parse_outcome [of s] by (auto simp: rejected_def)
  show ?thesis using api_command_refines [OF a refl assms(1-4), of r0] assms(5) True
    by (simp add: query_answer_def Let_def del: answer_json.simps)
next
  case False
  let ?p = "sql_parse (Some s)"
  have "rejected ?p" using False sql_parse_outcome [of s] by (auto simp: Sql_Correct.accepted_def)
  note r = rejected_response [OF this]
  have q: "api_handle_query (Some t) (Some s) (Some r0) e =
      do { (ok, res, e') \<leftarrow> api_finish (api_build_error_response (rejection ?p)) 200 e; Some (ok, Some res, Some t, e') }"
    using r(3,4) by (simp add: api_handle_query_def rejection_def Let_def)
  obtain res e2 where "api_finish (api_build_error_response (rejection ?p)) 200 e = Some (True, res, e2)"
    "http_status res = 200" "\<exists>cells. api_body res = Some cells \<and> c_string cells = Some (error_json (pr_status ?p) (pr_error_code ?p) (pr_sql_state ?p) (pr_error_message ?p))"
    "all_succeed e2"
    using api_finish_ok [OF r(1,2) error_json_no_NUL, of 200 e] assms(3) by auto
  then show ?thesis using q assms(1,5) False by (cases res) (auto simp: query_answer_def Let_def)
qed

lemma query_answer_fits:
  assumes "db_rep t (n, us)" and "n < INT_MAX" and "\<forall>u \<in> set us. user_fits u" and "query_answer s (n, us) = ((st, b), n', us')"
  shows "(\<forall>u \<in> set us'. user_fits u) \<and> n' \<le> n + 1 \<and> number_ok st \<and> length b < TEXT_LIMIT"
proof (cases "parsed (sql_parse (Some s))")
  case True
  then have "Sql_Correct.accepted (sql_parse (Some s))" using sql_parse_outcome [of s] by (auto simp: rejected_def)
  note fits = accepted_fits [OF this]
  have ok: "users_ok us n" using assms(1) by (auto simp: db_rep_def table_models_def table_rows_def)
  let ?st = "command_stmt (command (sql_parse (Some s)))"
  have "n' \<le> n + 1" if "snd (db_exec ?st (n, us)) = (n', us')" using that by (cases ?st) (auto simp: Let_def)
  then show ?thesis using db_exec_fits [OF fits ok assms(2,3)] answer_size [OF fits ok assms(2,3)] assms(4) True
    by (auto simp: query_answer_def Let_def number_ok_def INT_MIN_def INT_MAX_def split: if_splits simp del: answer_json.simps)
next
  case False
  then have "rejected (sql_parse (Some s))" using sql_parse_outcome [of s] by (auto simp: Sql_Correct.accepted_def)
  from rejected_response(2) [OF this] show ?thesis using assms(3,4) False
    by (auto simp: query_answer_def Let_def number_ok_def INT_MIN_def INT_MAX_def)
qed

section \<open>Properties\<close>

text \<open>C26: Appending a JSON string is a round trip: behind the present text the buffer then holds a
  quoted string that a JSON reader reads back as exactly the original text, whatever quotes,
  backslashes and control characters it contains.\<close>

theorem json_string_reads_back:
  assumes "json_holds b s" and "length s + 6 * length x + 2 < TEXT_LIMIT" and "all_succeed e"
  shows "\<exists>b' e' q. json_buffer_append_json_string b (Some x) e = Some (True, b', e') \<and>
    json_holds b' (s @ CHR 0x22 # q) \<and> json_read q = Some (x, [])"
proof -
  have "length s + length (json_quote x) < TEXT_LIMIT" using assms(2) json_escape_length [of x] by (simp add: json_quote_def)
  from js.jw_succeeds [OF assms(1) this assms(3)] show ?thesis
    using json_read_escape [of x "[]"] by (auto simp: json_quote_def)
qed

theorem json_string_reads_back_witness:
  "\<exists>b b' e' q. json_holds b ''abc'' \<and> json_buffer_append_json_string b (Some [CHR 0x22, CHR 0x0A, CHR 0x01]) [] = Some (True, b', e') \<and>
     json_holds b' (''abc'' @ CHR 0x22 # q) \<and> json_read q = Some ([CHR 0x22, CHR 0x0A, CHR 0x01], [])"
proof -
  define b where "b = Some \<lparr>jb_data = Some (map Some ''abc'' @ [Some NUL]), jb_len = 3, jb_cap = 4\<rparr>"
  have b: "json_holds b ''abc''" by (simp add: json_holds_def b_def)
  have "length ''abc'' + 6 * length [CHR 0x22, CHR 0x0A, CHR 0x01] + 2 < TEXT_LIMIT" by (simp add: TEXT_LIMIT_def)
  from json_string_reads_back [OF b this, of "[]"] b show ?thesis by auto
qed

text \<open>Appending terminates and is safe under every outcome of its reallocation: the doubling loop
  ends, nothing is written outside of the array, and the buffer holds the text extended by the
  argument on success and the unchanged text on failure.\<close>

theorem json_append_returns:
  assumes "json_holds b s" and "length s + length x < TEXT_LIMIT"
  shows "\<exists>ok b' e'. json_buffer_append b (Some x) e = Some (ok, b', e') \<and> json_holds b' (if ok then s @ x else s)"
proof -
  obtain ok b' e' where r: "json_buffer_reserve b (length x) e = Some (ok, b', e')" "json_holds b' s"
    using reserve_ok [OF assms] by blast
  obtain ok2 b2 s2 e2 where a: "json_buffer_append b (Some x) e = Some (ok2, b2, e2)" "json_holds b2 s2" "ok2 \<longrightarrow> s2 = s @ x"
    using ap.jw_step [OF assms, of e] by blast
  have "ok2 = ok" "\<not> ok \<longrightarrow> b2 = b'"
    using a(1) r(1) assms(1) by (auto simp: json_buffer_append_def json_holds_def split: if_splits option.splits bind_splits)
  then show ?thesis using a r(2) by (intro exI [of _ ok2] exI [of _ b2] exI [of _ e2]) (cases ok; simp)
qed

theorem json_append_returns_witness:
  "\<exists>b ok b' e'. json_holds b [] \<and> json_buffer_append b (Some (replicate 1000 (CHR ''x''))) [False] = Some (ok, b', e') \<and>
     json_holds b' (if ok then replicate 1000 (CHR ''x'') else [])"
proof -
  define b where "b = Some \<lparr>jb_data = Some [Some NUL], jb_len = 0, jb_cap = 1\<rparr>"
  have b: "json_holds b []" by (simp add: json_holds_def b_def)
  have "length [] + length (replicate 1000 (CHR ''x'')) < TEXT_LIMIT" by (simp add: TEXT_LIMIT_def)
  from json_append_returns [OF b this, of "[False]", unfolded append_Nil] b show ?thesis by blast
qed

text \<open>C9: Refinement: with no failing library call, a query answers the text of a statement with the
  JSON text of the answer of the abstract database, with status 200 (400 for EXIT, which is not
  supported), and the table stands for the next abstract state.\<close>

theorem api_query_refines_database:
  assumes "stmt_ok st" and "list_all isspace w" and "db_rep t (n, us)" and "n < INT_MAX" and "all_succeed e"
    and "\<forall>u \<in> set us. user_fits u"
  shows "\<exists>cells t' e'. api_handle_query (Some t) (Some (render st @ w)) (Some r0) e =
      Some (True, Some \<lparr>http_status = (if st = St_Exit then 400 else 200), api_body = Some cells\<rparr>, Some t', e') \<and>
    c_string cells = Some (answer_json (fst (db_exec st (n, us)))) \<and> db_rep t' (snd (db_exec st (n, us))) \<and> all_succeed e'"
  using assms by (rule api_refines)

theorem api_query_refines_database_witness:
  "\<exists>t r0 cells t' e'. db_rep t (4, sample_users) \<and>
     api_handle_query (Some t) (Some ''SELECT * FROM users WHERE id = 2;'') (Some r0) [] =
       Some (True, Some \<lparr>http_status = 200, api_body = Some cells\<rparr>, Some t', e') \<and>
     c_string cells = Some (json_text (''{'' @ q1 @ ''ok'' @ q1 @ '':true,'' @ q1 @ ''action'' @ q1 @ '':'' @ q1 @ ''select'' @ q1
       @ '','' @ q1 @ ''row_count'' @ q1 @ '':1,'' @ q1 @ ''rows'' @ q1 @ '':[{'' @ q1 @ ''id'' @ q1 @ '':2,'' @ q1 @ ''name'' @ q1
       @ '':'' @ q1 @ ''Bob'' @ q1 @ '','' @ q1 @ ''age'' @ q1 @ '':31}]}''))"
proof -
  obtain t where t: "db_rep t (4, sample_users)" using sample_table by (auto simp: db_rep_def)
  have "stmt_ok (St_Id TABLE_COMPARISON_EQ 2)" by (simp add: number_ok_def INT_MIN_def INT_MAX_def)
  moreover have "render (St_Id TABLE_COMPARISON_EQ 2) @ [] = ''SELECT * FROM users WHERE id = 2;''"
    by (simp add: show_int_def show_nat.simps digit_chars)
  moreover have "\<forall>u \<in> set sample_users. user_fits u" by (simp add: user_fits_def number_ok_def INT_MIN_def INT_MAX_def)
  moreover have "answer_json (fst (db_exec (St_Id TABLE_COMPARISON_EQ 2) (4, sample_users))) =
    json_text (''{'' @ q1 @ ''ok'' @ q1 @ '':true,'' @ q1 @ ''action'' @ q1 @ '':'' @ q1 @ ''select'' @ q1
       @ '','' @ q1 @ ''row_count'' @ q1 @ '':1,'' @ q1 @ ''rows'' @ q1 @ '':[{'' @ q1 @ ''id'' @ q1 @ '':2,'' @ q1 @ ''name'' @ q1
       @ '':'' @ q1 @ ''Bob'' @ q1 @ '','' @ q1 @ ''age'' @ q1 @ '':31}]}'')"
    by (simp add: record_json_def more_json_def json_quote_def json_escape_def json_escape_char_def show_int_def show_nat.simps digit_chars)
  ultimately show ?thesis
    using api_query_refines_database [of "St_Id TABLE_COMPARISON_EQ 2" "[]" t 4 sample_users "[]"] t
    by (fastforce simp: INT_MAX_def simp del: render.simps answer_json.simps)
qed

text \<open>C36: A query that the parser rejects is answered with status 200 and a body that carries the
  parser's status, code, SQLSTATE and message, or, when an allocation of the body fails, with a
  failure without a body; the table and its locks are not touched in either case.\<close>

theorem api_rejects_with_error_body:
  assumes "rejected (sql_parse (Some s))"
  shows "\<exists>ok res e'. api_handle_query (Some t) (Some s) (Some r0) e = Some (ok, Some res, Some t, e') \<and>
    (if ok then http_status res = 200 \<and> (\<exists>cells. api_body res = Some cells \<and> c_string cells =
        Some (error_json (pr_status (sql_parse (Some s))) (pr_error_code (sql_parse (Some s)))
          (pr_sql_state (sql_parse (Some s))) (pr_error_message (sql_parse (Some s)))))
     else api_body res = None) \<and> (all_succeed e \<longrightarrow> ok)"
proof -
  let ?p = "sql_parse (Some s)"
  note r = rejected_response [OF assms]
  from api_finish_ok [OF r(1,2) error_json_no_NUL, of 200 e] obtain ok res e'
    where "api_finish (api_build_error_response (rejection ?p)) 200 e = Some (ok, res, e')"
      "if ok then http_status res = 200 \<and> (\<exists>cells. api_body res = Some cells \<and> c_string cells =
          Some (error_json (pr_status ?p) (pr_error_code ?p) (pr_sql_state ?p) (pr_error_message ?p)))
       else api_body res = None \<and> http_status res \<in> {200, 500}" "all_succeed e \<longrightarrow> ok \<and> all_succeed e'" by blast
  then show ?thesis using r(3,4)
    by (intro exI [of _ ok] exI [of _ res] exI [of _ e']) (auto simp: api_handle_query_def rejection_def Let_def)
qed

theorem api_rejects_with_error_body_witness:
  "\<exists>t r0 ok res e'. api_handle_query (Some t) (Some ''DELETE FROM users;'') (Some r0) [] = Some (ok, Some res, Some t, e') \<and>
     http_status res = 200"
proof -
  have "\<not> parsed (sql_parse (Some ''DELETE FROM users;''))" by code_simp
  then have "rejected (sql_parse (Some ''DELETE FROM users;''))"
    using sql_parse_outcome [of "''DELETE FROM users;''"] by (auto simp: accepted_def)
  from api_rejects_with_error_body [OF this, of "table_upto 16" "\<lparr>http_status = 0, api_body = None\<rparr>" "[]"]
  obtain ok res e' where "api_handle_query (Some (table_upto 16)) (Some ''DELETE FROM users;'') (Some \<lparr>http_status = 0, api_body = None\<rparr>) [] =
      Some (ok, Some res, Some (table_upto 16), e')" "http_status res = 200" by auto
  then show ?thesis by blast
qed

text \<open>When the memory runs out between an insertion and its response, the client is told 500
  although the row is stored: a lookup of the new id finds it.\<close>

theorem api_failed_response_keeps_row:
  "\<exists>t' e' p tbl e''. api_handle_query (Some (table_upto 16)) (Some (render (St_Insert ''Kim'' 33))) (Some r0)
      [True, True, True, True, True, False] = Some (False, Some \<lparr>http_status = 500, api_body = None\<rparr>, Some t', e') \<and>
    table_find_by_id (Some t') 1 [] = Some (Some p, tbl, e'') \<and>
    rec_heap t' p = Some \<lparr>rec_id = 1, rec_name = ''Kim'', rec_age = 33\<rparr>"
proof -
  have ok: "stmt_ok (St_Insert ''Kim'' 33)" by (simp add: name_ok_def number_ok_def INT_MIN_def INT_MAX_def)
  have p: "parsed (sql_parse (Some (render (St_Insert ''Kim'' 33))))"
    "command (sql_parse (Some (render (St_Insert ''Kim'' 33)))) = stmt_command (St_Insert ''Kim'' 33)"
    using sql_parse_render [OF ok, of "[]"] by simp_all
  obtain r t' q tbl e'' where x: "sql_execute_plan (Some (table_upto 16)) (Some (stmt_command (St_Insert ''Kim'' 33)))
      [True, True, True, True, True, False] = Some (r, Some t', [False])" "sr_status r = SQL_STATUS_OK"
    "table_find_by_id (Some t') 1 [] = Some (Some q, tbl, e'')" "rec_heap t' q = Some \<lparr>rec_id = 1, rec_name = ''Kim'', rec_age = 33\<rparr>"
    using insert_then_no_memory by (elim case_optionE case_prodE conjE) (simp_all del: stmt_command.simps)
  have "api_finish (api_build_success_response (rec_heap t') r) 200 [False] = Some (False, \<lparr>http_status = 500, api_body = None\<rparr>, [])"
    by (simp add: api_finish_def json_buffer_init_def)
  moreover have "cmd_type (stmt_command (St_Insert ''Kim'' 33)) \<noteq> SQL_COMMAND_EXIT" by simp
  ultimately show ?thesis using p x by (simp add: api_handle_query_def Let_def del: render.simps stmt_command.simps)
qed

end
