(* ===== verification/Thread_Pool.thy ===== *)
theory Thread_Pool
  imports Prelude "HOL-Library.Multiset"
begin

text \<open>
  The thread pool of the server (\<^verbatim>\<open>server/thread_pool.c\<close>): a ring buffer of client descriptors that is
  protected by a mutex, a condition variable, worker threads, and the one thread that creates
  the pool, submits to it, shuts it down and joins the workers.

  The concurrent behaviour is a step relation. A step of a thread is a lock operation, one wait,
  signal or broadcast, one access to the shared fields under the mutex, or a call of the handler;
  \<open>pthread_cond_wait\<close> releases the mutex and starts to wait in one step, may wake up spuriously and
  takes the mutex again before it returns. The handler is called with a descriptor and is
  recorded in the log; its own effect on the table is the business of other theories.
\<close>

section \<open>The ring buffer\<close>

record ThreadPool =
  tp_worker_count :: nat
  tp_jobs :: "int list"
  tp_queue_capacity :: nat
  tp_head :: nat
  tp_tail :: nat
  tp_size :: nat
  tp_stop_requested :: bool

definition pool_enqueue :: "ThreadPool \<Rightarrow> int \<Rightarrow> ThreadPool option" where
  "pool_enqueue p fd =
     do { jobs' \<leftarrow> wr (tp_jobs p) (tp_tail p) fd;
          if tp_queue_capacity p = 0 then None
          else Some (p\<lparr>tp_jobs := jobs', tp_tail := (tp_tail p + 1) mod tp_queue_capacity p, tp_size := tp_size p + 1\<rparr>) }"

definition pool_dequeue :: "ThreadPool \<Rightarrow> (int \<times> ThreadPool) option" where
  "pool_dequeue p =
     do { client_fd \<leftarrow> rd (tp_jobs p) (tp_head p);
          if tp_queue_capacity p = 0 \<or> tp_size p = 0 then None
          else Some (client_fd, p\<lparr>tp_head := (tp_head p + 1) mod tp_queue_capacity p, tp_size := tp_size p - 1\<rparr>) }"

text \<open>What \<open>thread_pool_destroy\<close> leaves.\<close>

definition cleared_pool :: ThreadPool where
  "cleared_pool = \<lparr>tp_worker_count = 0, tp_jobs = [], tp_queue_capacity = 0, tp_head = 0, tp_tail = 0, tp_size = 0,
     tp_stop_requested = False\<rparr>"

text \<open>The part of \<open>thread_pool_init\<close> before the first thread: the two arrays, the mutex and the
  condition variable. The arrays are both requested before either is tested.\<close>

definition thread_pool_prepare :: "nat \<Rightarrow> nat \<Rightarrow> bool \<Rightarrow> env \<Rightarrow> ThreadPool option \<times> env" where
  "thread_pool_prepare workers capacity handler e =
     (if workers = 0 \<or> capacity = 0 \<or> \<not> handler then (None, e)
      else case env_next e of (ok1, e1) \<Rightarrow>
           case env_next e1 of (ok2, e2) \<Rightarrow>
             if \<not> ok1 \<or> \<not> ok2 then (None, e2)
             else case env_next e2 of (ok3, e3) \<Rightarrow>
               if \<not> ok3 then (None, e3)
               else case env_next e3 of (ok4, e4) \<Rightarrow>
                 if \<not> ok4 then (None, e4)
                 else (Some \<lparr>tp_worker_count = workers, tp_jobs = replicate capacity 0, tp_queue_capacity = capacity,
                              tp_head = 0, tp_tail = 0, tp_size = 0, tp_stop_requested = False\<rparr>, e4))"

text \<open>\<open>thread_pool_init\<close> for its caller: every \<open>pthread_create\<close> succeeds or fails as the library decides.
  Behind a failed one the threads that were created are joined, the last one first. Whether such a join
  returns depends on where the threads are, as the step relation below shows: here it is an outcome
  too, and \<open>None\<close> is a call that never returns.\<close>

fun join_workers :: "nat \<Rightarrow> env \<Rightarrow> env option" where
  "join_workers 0 e = Some e"
| "join_workers (Suc index) e = (case env_next e of (returns, e1) \<Rightarrow> if returns then join_workers index e1 else None)"

fun create_workers :: "nat \<Rightarrow> nat \<Rightarrow> env \<Rightarrow> (bool \<times> env) option" where
  "create_workers index 0 e = Some (True, e)"
| "create_workers index (Suc left) e =
     (case env_next e of (created, e1) \<Rightarrow>
        if created then create_workers (Suc index) left e1
        else do { e2 \<leftarrow> join_workers index e1; Some (False, e2) })"

definition thread_pool_init :: "nat \<Rightarrow> nat \<Rightarrow> bool \<Rightarrow> env \<Rightarrow> (ThreadPool option \<times> env) option" where
  "thread_pool_init worker_count queue_capacity handler e =
     (case thread_pool_prepare worker_count queue_capacity handler e of
        (None, e1) \<Rightarrow> Some (None, e1)
      | (Some p, e1) \<Rightarrow>
          do { (ok, e2) \<leftarrow> create_workers 0 worker_count e1;
               Some (if ok then Some p else None, e2) })"

section \<open>Threads\<close>

text \<open>Where a worker is in \<open>thread_pool_worker_main\<close>.\<close>

datatype worker_pc =
    W_Lock            \<comment> \<open>in front of the lock\<close>
  | W_Test            \<comment> \<open>holds the mutex, in front of the tests\<close>
  | W_ToWait          \<comment> \<open>holds the mutex, has decided to wait\<close>
  | W_Waiting         \<comment> \<open>waits for the condition\<close>
  | W_Woken           \<comment> \<open>woken up, needs the mutex again\<close>
  | W_Exit            \<comment> \<open>holds the mutex, leaves the loop\<close>
  | W_Taken int       \<comment> \<open>holds the mutex and a descriptor\<close>
  | W_Handle int      \<comment> \<open>in front of the handler\<close>
  | W_Close int       \<comment> \<open>in front of the close\<close>
  | W_Done            \<comment> \<open>the thread has ended\<close>

text \<open>Where the owner of the pool is.\<close>

datatype owner_pc =
    O_Create                  \<comment> \<open>in the loop of \<open>pthread_create\<close>\<close>
  | O_FailStop                \<comment> \<open>a creation failed: in front of setting \<open>stop_requested\<close>\<close>
  | O_FailBroadcast
  | O_FailJoin nat            \<comment> \<open>the workers still to be joined\<close>
  | O_Failed
  | O_Idle                    \<comment> \<open>the pool is in use\<close>
  | O_SubmitLock int
  | O_Submit int              \<comment> \<open>holds the mutex\<close>
  | O_Signal                  \<comment> \<open>holds the mutex, has put a job into the queue\<close>
  | O_SubmitUnlock
  | O_ShutdownLock bool       \<comment> \<open>the flag: in \<open>thread_pool_destroy\<close>\<close>
  | O_Shutdown bool           \<comment> \<open>holds the mutex\<close>
  | O_Broadcast bool          \<comment> \<open>holds the mutex, has set \<open>stop_requested\<close>\<close>
  | O_ShutdownUnlock bool
  | O_Join nat                \<comment> \<open>the next worker to join\<close>
  | O_Destroyed

datatype holder = Owner | Worker nat

record PoolState =
  pool :: ThreadPool
  mutex :: "holder option"
  workers :: "worker_pc list"
  owner :: owner_pc
  accepted :: "int list"      \<comment> \<open>descriptors that \<open>thread_pool_submit\<close> accepted\<close>
  taken :: "int list"         \<comment> \<open>descriptors that workers took from the queue\<close>
  handled :: "int list"       \<comment> \<open>calls of the handler\<close>
  closed :: "int list"        \<comment> \<open>calls of \<open>close\<close> by workers\<close>

abbreviation set_worker :: "PoolState \<Rightarrow> nat \<Rightarrow> worker_pc \<Rightarrow> PoolState" where
  "set_worker s i pc \<equiv> s\<lparr>workers := (workers s)[i := pc]\<rparr>"

definition wake :: "worker_pc \<Rightarrow> worker_pc" where
  "wake pc = (if pc = W_Waiting then W_Woken else pc)"

section \<open>Steps\<close>

inductive worker_step :: "nat \<Rightarrow> PoolState \<Rightarrow> PoolState \<Rightarrow> bool" where
  w_lock: "i < length (workers s) \<Longrightarrow> workers s ! i = W_Lock \<Longrightarrow> mutex s = None \<Longrightarrow>
    worker_step i s ((set_worker s i W_Test)\<lparr>mutex := Some (Worker i)\<rparr>)"
| w_decide: "i < length (workers s) \<Longrightarrow> workers s ! i = W_Test \<Longrightarrow> \<not> tp_stop_requested (pool s) \<Longrightarrow> tp_size (pool s) = 0 \<Longrightarrow>
    worker_step i s (set_worker s i W_ToWait)"
| w_wait: "i < length (workers s) \<Longrightarrow> workers s ! i = W_ToWait \<Longrightarrow>
    worker_step i s ((set_worker s i W_Waiting)\<lparr>mutex := None\<rparr>)"
| w_relock: "i < length (workers s) \<Longrightarrow> workers s ! i = W_Woken \<Longrightarrow> mutex s = None \<Longrightarrow>
    worker_step i s ((set_worker s i W_Test)\<lparr>mutex := Some (Worker i)\<rparr>)"
| w_leave: "i < length (workers s) \<Longrightarrow> workers s ! i = W_Test \<Longrightarrow> tp_stop_requested (pool s) \<Longrightarrow> tp_size (pool s) = 0 \<Longrightarrow>
    worker_step i s (set_worker s i W_Exit)"
| w_exit: "i < length (workers s) \<Longrightarrow> workers s ! i = W_Exit \<Longrightarrow>
    worker_step i s ((set_worker s i W_Done)\<lparr>mutex := None\<rparr>)"
| w_take: "i < length (workers s) \<Longrightarrow> workers s ! i = W_Test \<Longrightarrow> tp_size (pool s) \<noteq> 0 \<Longrightarrow> pool_dequeue (pool s) = Some (fd, p) \<Longrightarrow>
    worker_step i s ((set_worker s i (W_Taken fd))\<lparr>pool := p, taken := taken s @ [fd]\<rparr>)"
| w_unlock: "i < length (workers s) \<Longrightarrow> workers s ! i = W_Taken fd \<Longrightarrow>
    worker_step i s ((set_worker s i (W_Handle fd))\<lparr>mutex := None\<rparr>)"
| w_handle: "i < length (workers s) \<Longrightarrow> workers s ! i = W_Handle fd \<Longrightarrow>
    worker_step i s ((set_worker s i (W_Close fd))\<lparr>handled := handled s @ [fd]\<rparr>)"
| w_close: "i < length (workers s) \<Longrightarrow> workers s ! i = W_Close fd \<Longrightarrow>
    worker_step i s ((set_worker s i W_Lock)\<lparr>closed := closed s @ [fd]\<rparr>)"

text \<open>The environment may wake up a waiting worker at any time.\<close>

inductive spurious_step :: "PoolState \<Rightarrow> PoolState \<Rightarrow> bool" where
  "i < length (workers s) \<Longrightarrow> workers s ! i = W_Waiting \<Longrightarrow> spurious_step s (set_worker s i W_Woken)"

text \<open>The owner: \<open>thread_pool_init\<close> (with its failure path, which changes \<open>stop_requested\<close> and
  broadcasts without the mutex), \<open>thread_pool_submit\<close>, \<open>thread_pool_shutdown\<close> and
  \<open>thread_pool_destroy\<close>. A signal wakes one waiting worker if there is one.\<close>

inductive owner_step :: "PoolState \<Rightarrow> PoolState \<Rightarrow> bool" where
  o_create: "owner s = O_Create \<Longrightarrow> length (workers s) < tp_worker_count (pool s) \<Longrightarrow>
    owner_step s (s\<lparr>workers := workers s @ [W_Lock]\<rparr>)"
| o_create_fails: "owner s = O_Create \<Longrightarrow> length (workers s) < tp_worker_count (pool s) \<Longrightarrow>
    owner_step s (s\<lparr>owner := O_FailStop\<rparr>)"
| o_created: "owner s = O_Create \<Longrightarrow> length (workers s) = tp_worker_count (pool s) \<Longrightarrow>
    owner_step s (s\<lparr>owner := O_Idle\<rparr>)"
| o_fail_stop: "owner s = O_FailStop \<Longrightarrow>
    owner_step s (s\<lparr>pool := (pool s)\<lparr>tp_stop_requested := True\<rparr>, owner := O_FailBroadcast\<rparr>)"
| o_fail_broadcast: "owner s = O_FailBroadcast \<Longrightarrow>
    owner_step s (s\<lparr>workers := map wake (workers s), owner := O_FailJoin (length (workers s))\<rparr>)"
| o_fail_join: "owner s = O_FailJoin (Suc k) \<Longrightarrow> k < length (workers s) \<Longrightarrow> workers s ! k = W_Done \<Longrightarrow>
    owner_step s (s\<lparr>owner := O_FailJoin k\<rparr>)"
| o_failed: "owner s = O_FailJoin 0 \<Longrightarrow> owner_step s (s\<lparr>owner := O_Failed\<rparr>)"
| o_submit: "owner s = O_Idle \<Longrightarrow> owner_step s (s\<lparr>owner := O_SubmitLock fd\<rparr>)"
| o_submit_lock: "owner s = O_SubmitLock fd \<Longrightarrow> mutex s = None \<Longrightarrow>
    owner_step s (s\<lparr>owner := O_Submit fd, mutex := Some Owner\<rparr>)"
| o_accept: "owner s = O_Submit fd \<Longrightarrow> \<not> tp_stop_requested (pool s) \<Longrightarrow> tp_size (pool s) < tp_queue_capacity (pool s) \<Longrightarrow>
    pool_enqueue (pool s) fd = Some p \<Longrightarrow>
    owner_step s (s\<lparr>pool := p, accepted := accepted s @ [fd], owner := O_Signal\<rparr>)"
| o_reject: "owner s = O_Submit fd \<Longrightarrow> tp_stop_requested (pool s) \<or> \<not> tp_size (pool s) < tp_queue_capacity (pool s) \<Longrightarrow>
    owner_step s (s\<lparr>owner := O_SubmitUnlock\<rparr>)"
| o_signal: "owner s = O_Signal \<Longrightarrow> i < length (workers s) \<Longrightarrow> workers s ! i = W_Waiting \<Longrightarrow>
    owner_step s ((set_worker s i W_Woken)\<lparr>owner := O_SubmitUnlock\<rparr>)"
| o_signal_nobody: "owner s = O_Signal \<Longrightarrow> W_Waiting \<notin> set (workers s) \<Longrightarrow>
    owner_step s (s\<lparr>owner := O_SubmitUnlock\<rparr>)"
| o_submit_unlock: "owner s = O_SubmitUnlock \<Longrightarrow> owner_step s (s\<lparr>owner := O_Idle, mutex := None\<rparr>)"
| o_shutdown: "owner s = O_Idle \<Longrightarrow> owner_step s (s\<lparr>owner := O_ShutdownLock d\<rparr>)"
| o_shutdown_lock: "owner s = O_ShutdownLock d \<Longrightarrow> mutex s = None \<Longrightarrow>
    owner_step s (s\<lparr>owner := O_Shutdown d, mutex := Some Owner\<rparr>)"
| o_stop: "owner s = O_Shutdown d \<Longrightarrow>
    owner_step s (s\<lparr>pool := (pool s)\<lparr>tp_stop_requested := True\<rparr>, owner := O_Broadcast d\<rparr>)"
| o_broadcast: "owner s = O_Broadcast d \<Longrightarrow>
    owner_step s (s\<lparr>workers := map wake (workers s), owner := O_ShutdownUnlock d\<rparr>)"
| o_shutdown_unlock: "owner s = O_ShutdownUnlock d \<Longrightarrow>
    owner_step s (s\<lparr>owner := (if d then O_Join 0 else O_Idle), mutex := None\<rparr>)"
| o_join: "owner s = O_Join k \<Longrightarrow> k < tp_worker_count (pool s) \<Longrightarrow> k < length (workers s) \<Longrightarrow> workers s ! k = W_Done \<Longrightarrow>
    owner_step s (s\<lparr>owner := O_Join (Suc k)\<rparr>)"
| o_destroyed: "owner s = O_Join k \<Longrightarrow> k = tp_worker_count (pool s) \<Longrightarrow>
    owner_step s (s\<lparr>pool := cleared_pool, owner := O_Destroyed\<rparr>)"

text \<open>A step of some thread, and of some thread or the environment.\<close>

definition thread_step :: "PoolState \<Rightarrow> PoolState \<Rightarrow> bool" where
  "thread_step s s' \<longleftrightarrow> owner_step s s' \<or> (\<exists>i. worker_step i s s')"

definition pool_step :: "PoolState \<Rightarrow> PoolState \<Rightarrow> bool" where
  "pool_step s s' \<longleftrightarrow> thread_step s s' \<or> spurious_step s s'"

definition initial_state :: "ThreadPool \<Rightarrow> PoolState" where
  "initial_state p = \<lparr>pool = p, mutex = None, workers = [], owner = O_Create, accepted = [], taken = [], handled = [], closed = []\<rparr>"

text \<open>The pool behind a successful \<open>thread_pool_init\<close>, with every worker in front of its first lock.\<close>

definition created_state :: "ThreadPool \<Rightarrow> PoolState" where
  "created_state p = (initial_state p)\<lparr>workers := replicate (tp_worker_count p) W_Lock, owner := O_Idle\<rparr>"

inductive pool_reach :: "PoolState \<Rightarrow> bool" where
  pr_init: "thread_pool_prepare n c h e = (Some p, e') \<Longrightarrow> pool_reach (initial_state p)"
| pr_step: "pool_reach s \<Longrightarrow> pool_step s s' \<Longrightarrow> pool_reach s'"

end
