(* ===== verification/Pool_Ring.thy ===== *)
theory Pool_Ring
  imports Thread_Pool
begin

text \<open>
  The ring buffer of the thread pool as a bounded FIFO queue: the contract as a locale, what a
  client of the contract can rely on, and its discharge for the indices of the code.
\<close>

section \<open>The contract of a bounded queue\<close>

locale bounded_queue =
  fixes bq_enq :: "'q \<Rightarrow> 'a \<Rightarrow> 'q option" and bq_deq :: "'q \<Rightarrow> ('a \<times> 'q) option"
    and bq_holds :: "'q \<Rightarrow> 'a list \<Rightarrow> bool" and bq_room :: "'q \<Rightarrow> nat"
  assumes bq_enq_ok: "bq_holds q xs \<Longrightarrow> length xs < bq_room q \<Longrightarrow>
      \<exists>q'. bq_enq q x = Some q' \<and> bq_holds q' (xs @ [x]) \<and> bq_room q' = bq_room q"
    and bq_deq_ok: "bq_holds q (x # xs) \<Longrightarrow> \<exists>q'. bq_deq q = Some (x, q') \<and> bq_holds q' xs \<and> bq_room q' = bq_room q"
    and bq_unique: "bq_holds q xs \<Longrightarrow> bq_holds q ys \<Longrightarrow> xs = ys"
begin

text \<open>What one operation does, read from its result.\<close>

lemma bq_enq_holds:
  assumes "bq_holds q xs" and "length xs < bq_room q" and "bq_enq q x = Some q'"
  shows "bq_holds q' (xs @ [x]) \<and> bq_room q' = bq_room q"
  using bq_enq_ok [OF assms(1,2), of x] assms(3) by auto

lemma bq_deq_holds:
  assumes "bq_holds q xs" and "xs \<noteq> []" and "bq_deq q = Some (x, q')"
  shows "\<exists>ys. xs = x # ys \<and> bq_holds q' ys \<and> bq_room q' = bq_room q"
  using bq_deq_ok [of q "hd xs" "tl xs"] assms by (cases xs) auto

end

section \<open>The ring buffer\<close>

text \<open>The descriptors in the queue, from the head on.\<close>

definition pool_list :: "ThreadPool \<Rightarrow> int list" where
  "pool_list p = map (\<lambda>i. tp_jobs p ! ((tp_head p + i) mod tp_queue_capacity p)) [0 ..< tp_size p]"

definition ring_ok :: "ThreadPool \<Rightarrow> bool" where
  "ring_ok p \<longleftrightarrow> 0 < tp_queue_capacity p \<and> length (tp_jobs p) = tp_queue_capacity p \<and> tp_head p < tp_queue_capacity p \<and>
     tp_size p \<le> tp_queue_capacity p \<and> tp_tail p = (tp_head p + tp_size p) mod tp_queue_capacity p"

definition pool_holds :: "ThreadPool \<Rightarrow> int list \<Rightarrow> bool" where
  "pool_holds p xs \<longleftrightarrow> ring_ok p \<and> pool_list p = xs"

lemma length_pool_list [simp]: "length (pool_list p) = tp_size p"
  by (simp add: pool_list_def)

lemma mod_offset_inj:
  fixes i j h c :: nat
  assumes "(h + i) mod c = (h + j) mod c" and "i < c" and "j < c"
  shows "i = j"
proof -
  obtain a b where "h + i + c * a = h + j + c * b" using assms(1) by (auto simp: nat_mod_eq_iff)
  then have "(i + c * a) mod c = (j + c * b) mod c" by simp
  then show ?thesis using assms(2,3) by simp
qed

lemma pool_enqueue_ok:
  assumes "ring_ok p" and "tp_size p < tp_queue_capacity p"
  shows "\<exists>p'. pool_enqueue p x = Some p' \<and> ring_ok p' \<and> pool_list p' = pool_list p @ [x] \<and>
    tp_queue_capacity p' = tp_queue_capacity p"
proof -
  let ?c = "tp_queue_capacity p" and ?h = "tp_head p" and ?n = "tp_size p"
  let ?p = "p\<lparr>tp_jobs := (tp_jobs p)[tp_tail p := x], tp_tail := (tp_tail p + 1) mod ?c, tp_size := ?n + 1\<rparr>"
  have t: "tp_tail p = (?h + ?n) mod ?c" "0 < ?c" "length (tp_jobs p) = ?c" using assms(1) by (simp_all add: ring_ok_def)
  then have "tp_tail p < length (tp_jobs p)" by simp
  then have e: "pool_enqueue p x = Some ?p" using t(2) by (simp add: pool_enqueue_def array_simps)
  have "ring_ok ?p" using assms t by (simp add: ring_ok_def mod_Suc_eq)
  moreover have "(tp_jobs p)[tp_tail p := x] ! ((?h + i) mod ?c) = tp_jobs p ! ((?h + i) mod ?c)" if "i < ?n" for i
  proof -
    have "(?h + i) mod ?c \<noteq> tp_tail p" using mod_offset_inj [of ?h i ?c ?n] that assms(2) t(1) by auto
    then show ?thesis by simp
  qed
  then have "pool_list ?p = pool_list p @ [x]" using t by (simp add: pool_list_def)
  ultimately show ?thesis using e by simp
qed

lemma pool_dequeue_ok:
  assumes "ring_ok p" and "pool_list p = x # xs"
  shows "\<exists>p'. pool_dequeue p = Some (x, p') \<and> ring_ok p' \<and> pool_list p' = xs \<and> tp_queue_capacity p' = tp_queue_capacity p"
proof -
  let ?c = "tp_queue_capacity p" and ?h = "tp_head p"
  obtain n where n: "tp_size p = Suc n" using assms(2) length_pool_list [of p] by (cases "tp_size p") auto
  let ?p = "p\<lparr>tp_head := (?h + 1) mod ?c, tp_size := n\<rparr>"
  have r: "?h < ?c" "length (tp_jobs p) = ?c" "Suc n \<le> ?c" "tp_tail p = (?h + Suc n) mod ?c"
    using assms(1) n by (simp_all add: ring_ok_def)
  have l: "pool_list p = tp_jobs p ! ?h # map (\<lambda>i. tp_jobs p ! ((?h + Suc i) mod ?c)) [0 ..< n]"
    unfolding pool_list_def n using r(1) by (simp add: map_upt_Suc del: upt_Suc)
  have "pool_dequeue p = Some (x, ?p)" using r assms(2) l n by (auto simp: pool_dequeue_def array_simps)
  moreover have "ring_ok ?p" using r by (auto simp: ring_ok_def mod_simps)
  moreover have "pool_list ?p = xs" using l assms(2) by (simp add: pool_list_def mod_simps)
  ultimately show ?thesis by auto
qed

interpretation rq: bounded_queue pool_enqueue pool_dequeue pool_holds tp_queue_capacity
proof
  show "\<exists>q'. pool_enqueue q x = Some q' \<and> pool_holds q' (xs @ [x]) \<and> tp_queue_capacity q' = tp_queue_capacity q"
    if "pool_holds q xs" "length xs < tp_queue_capacity q" for q xs x
    using pool_enqueue_ok [of q x] that by (auto simp: pool_holds_def)
  show "\<exists>q'. pool_dequeue q = Some (x, q') \<and> pool_holds q' xs \<and> tp_queue_capacity q' = tp_queue_capacity q"
    if "pool_holds q (x # xs)" for q x xs
    using pool_dequeue_ok [of q x xs] that by (auto simp: pool_holds_def)
qed (simp add: pool_holds_def)

text \<open>Read from the result, and what the operations leave alone.\<close>

lemma enqueue_result:
  assumes "ring_ok p" and "tp_size p < tp_queue_capacity p" and "pool_enqueue p x = Some p'"
  shows "ring_ok p'" and "pool_list p' = pool_list p @ [x]"
  using rq.bq_enq_holds [of p "pool_list p" x p'] assms by (simp_all add: pool_holds_def)

lemma dequeue_result:
  assumes "ring_ok p" and "tp_size p \<noteq> 0" and "pool_dequeue p = Some (x, p')"
  shows "ring_ok p'" and "pool_list p = x # pool_list p'"
proof -
  have "pool_list p \<noteq> []" using assms(2) by (simp add: length_0_conv [symmetric] del: length_0_conv)
  from rq.bq_deq_holds [of p, OF _ this assms(3)] assms(1) show "ring_ok p'" "pool_list p = x # pool_list p'"
    by (auto simp: pool_holds_def)
qed

lemma enqueue_frame [simp]:
  "pool_enqueue p x = Some p' \<Longrightarrow> tp_stop_requested p' = tp_stop_requested p \<and> tp_worker_count p' = tp_worker_count p \<and>
    tp_size p' = Suc (tp_size p) \<and> tp_queue_capacity p' = tp_queue_capacity p"
  by (auto simp: pool_enqueue_def split: if_splits bind_splits)

lemma dequeue_frame [simp]:
  "pool_dequeue p = Some (x, p') \<Longrightarrow> tp_stop_requested p' = tp_stop_requested p \<and> tp_worker_count p' = tp_worker_count p \<and>
    tp_size p' = tp_size p - 1 \<and> tp_queue_capacity p' = tp_queue_capacity p"
  by (auto simp: pool_dequeue_def split: if_splits bind_splits)

lemma prepare_ring:
  assumes "thread_pool_prepare n c h e = (Some p, e')"
  shows "ring_ok p \<and> pool_list p = [] \<and> tp_size p = 0 \<and> tp_worker_count p = n \<and> 0 < n \<and> \<not> tp_stop_requested p"
  using assms by (auto simp: thread_pool_prepare_def ring_ok_def pool_list_def split: if_splits prod.splits)

end
