(* ===== verification/Pool_Invariant.thy ===== *)
theory Pool_Invariant
  imports Pool_Ring
begin

text \<open>
  The invariant of the thread pool: mutual exclusion, the account of every accepted descriptor,
  and the agreement between the flags and the places of the threads from which it follows that
  no wakeup is lost.
\<close>

section \<open>Step relations\<close>

inductive_cases worker_stepE: "worker_step i s s'"
inductive_cases owner_stepE: "owner_step s s'"
inductive_cases spurious_stepE: "spurious_step s s'"

section \<open>Mutual exclusion\<close>

definition worker_inside :: "worker_pc \<Rightarrow> bool" where
  "worker_inside pc \<longleftrightarrow> (case pc of W_Test \<Rightarrow> True | W_ToWait \<Rightarrow> True | W_Exit \<Rightarrow> True | W_Taken _ \<Rightarrow> True | _ \<Rightarrow> False)"

definition owner_inside :: "owner_pc \<Rightarrow> bool" where
  "owner_inside pc \<longleftrightarrow> (case pc of O_Submit _ \<Rightarrow> True | O_Signal \<Rightarrow> True | O_SubmitUnlock \<Rightarrow> True | O_Shutdown _ \<Rightarrow> True
     | O_Broadcast _ \<Rightarrow> True | O_ShutdownUnlock _ \<Rightarrow> True | _ \<Rightarrow> False)"

lemma worker_inside_simps [simp]:
  "\<not> worker_inside W_Lock" "worker_inside W_Test" "worker_inside W_ToWait" "\<not> worker_inside W_Waiting" "\<not> worker_inside W_Woken"
  "worker_inside W_Exit" "worker_inside (W_Taken fd)" "\<not> worker_inside (W_Handle fd)" "\<not> worker_inside (W_Close fd)" "\<not> worker_inside W_Done"
  by (simp_all add: worker_inside_def)

lemma owner_inside_simps [simp]:
  "\<not> owner_inside O_Create" "\<not> owner_inside O_FailStop" "\<not> owner_inside O_FailBroadcast" "\<not> owner_inside (O_FailJoin k)"
  "\<not> owner_inside O_Failed" "\<not> owner_inside O_Idle" "\<not> owner_inside (O_SubmitLock fd)" "owner_inside (O_Submit fd)" "owner_inside O_Signal"
  "owner_inside O_SubmitUnlock" "\<not> owner_inside (O_ShutdownLock d)" "owner_inside (O_Shutdown d)" "owner_inside (O_Broadcast d)"
  "owner_inside (O_ShutdownUnlock d)" "\<not> owner_inside (O_Join k)" "\<not> owner_inside O_Destroyed"
  by (simp_all add: owner_inside_def)

lemma wake_inside [simp]: "worker_inside (wake pc) = worker_inside pc"
  by (simp add: wake_def)

text \<open>Whoever is inside a critical section holds the mutex.\<close>

definition mutex_ok :: "PoolState \<Rightarrow> bool" where
  "mutex_ok s \<longleftrightarrow>
     (\<forall>i < length (workers s). worker_inside (workers s ! i) \<longleftrightarrow> mutex s = Some (Worker i)) \<and>
     (owner_inside (owner s) \<longleftrightarrow> mutex s = Some Owner) \<and>
     (\<forall>i. mutex s = Some (Worker i) \<longrightarrow> i < length (workers s))"

lemma mutex_step:
  assumes "pool_step s s'" and "mutex_ok s"
  shows "mutex_ok s'"
proof -
  consider i where "worker_step i s s'" | "owner_step s s'" | "spurious_step s s'"
    using assms(1) by (auto simp: pool_step_def thread_step_def)
  then show ?thesis
  proof cases
    case 1
    then show ?thesis using assms(2) by (cases rule: worker_step.cases) (auto simp: mutex_ok_def nth_list_update)
  next
    case 2
    then show ?thesis using assms(2)
      by (cases rule: owner_step.cases) (auto simp: mutex_ok_def nth_list_update nth_append less_Suc_eq)
  next
    case 3
    then show ?thesis using assms(2) by (cases rule: spurious_step.cases) (auto simp: mutex_ok_def nth_list_update)
  qed
qed

section \<open>The account of the descriptors\<close>

text \<open>The descriptor that a worker has in its hands, and the one it has not handled yet.\<close>

definition worker_fds :: "worker_pc \<Rightarrow> int multiset" where
  "worker_fds pc = (case pc of W_Taken fd \<Rightarrow> {#fd#} | W_Handle fd \<Rightarrow> {#fd#} | W_Close fd \<Rightarrow> {#fd#} | _ \<Rightarrow> {#})"

definition worker_handled :: "worker_pc \<Rightarrow> int multiset" where
  "worker_handled pc = (case pc of W_Close fd \<Rightarrow> {#fd#} | _ \<Rightarrow> {#})"

lemma worker_fds_simps [simp]:
  "worker_fds W_Lock = {#}" "worker_fds W_Test = {#}" "worker_fds W_ToWait = {#}" "worker_fds W_Waiting = {#}" "worker_fds W_Woken = {#}"
  "worker_fds W_Exit = {#}" "worker_fds (W_Taken fd) = {#fd#}" "worker_fds (W_Handle fd) = {#fd#}" "worker_fds (W_Close fd) = {#fd#}"
  "worker_fds W_Done = {#}"
  by (simp_all add: worker_fds_def)

lemma worker_handled_simps [simp]:
  "worker_handled W_Lock = {#}" "worker_handled W_Test = {#}" "worker_handled W_ToWait = {#}" "worker_handled W_Waiting = {#}"
  "worker_handled W_Woken = {#}" "worker_handled W_Exit = {#}" "worker_handled (W_Taken fd) = {#}" "worker_handled (W_Handle fd) = {#}"
  "worker_handled (W_Close fd) = {#fd#}" "worker_handled W_Done = {#}"
  by (simp_all add: worker_handled_def)

lemma wake_fds [simp]: "worker_fds (wake pc) = worker_fds pc" "worker_handled (wake pc) = worker_handled pc"
  by (simp_all add: wake_def)

definition in_hands :: "(worker_pc \<Rightarrow> int multiset) \<Rightarrow> worker_pc list \<Rightarrow> int multiset" where
  "in_hands f ws = sum_list (map f ws)"

lemma in_hands_simps [simp]:
  "in_hands f [] = {#}" "in_hands f (pc # ws) = f pc + in_hands f ws" "in_hands f (ws @ ws') = in_hands f ws + in_hands f ws'"
  by (simp_all add: in_hands_def)

lemma in_hands_update:
  "i < length ws \<Longrightarrow> in_hands f (ws[i := pc]) + f (ws ! i) = in_hands f ws + f pc"
proof (induction ws arbitrary: i)
  case (Cons w ws)
  then show ?case by (cases i) (auto simp: ac_simps)
qed simp

lemma in_hands_same: "i < length ws \<Longrightarrow> f (ws ! i) = f pc \<Longrightarrow> in_hands f (ws[i := pc]) = in_hands f ws"
  using in_hands_update [of i ws f pc] by simp

lemma in_hands_wake [simp]:
  "in_hands worker_fds (map wake ws) = in_hands worker_fds ws" "in_hands worker_handled (map wake ws) = in_hands worker_handled ws"
  by (induction ws) auto

definition account_ok :: "PoolState \<Rightarrow> bool" where
  "account_ok s \<longleftrightarrow>
     mset (taken s) = mset (closed s) + in_hands worker_fds (workers s) \<and>
     mset (handled s) = mset (closed s) + in_hands worker_handled (workers s)"

lemma account_step:
  assumes "pool_step s s'" and "account_ok s"
  shows "account_ok s'"
proof -
  consider i where "worker_step i s s'" | "owner_step s s'" | "spurious_step s s'"
    using assms(1) by (auto simp: pool_step_def thread_step_def)
  then show ?thesis
  proof cases
    case 1
    note u = in_hands_update [of i "workers s" worker_fds] in_hands_update [of i "workers s" worker_handled]
    from 1 show ?thesis using assms(2) u
      by (cases rule: worker_step.cases) (auto simp: account_ok_def in_hands_same)
  next
    case 2
    then show ?thesis using assms(2)
    proof (cases rule: owner_step.cases)
      case (o_signal i)
      then show ?thesis using assms(2) in_hands_update [of i "workers s" worker_fds W_Woken]
          in_hands_update [of i "workers s" worker_handled W_Woken] by (auto simp: account_ok_def)
    qed (auto simp: account_ok_def)
  next
    case 3
    then obtain i where "i < length (workers s)" "workers s ! i = W_Waiting" "s' = set_worker s i W_Woken"
      by (cases rule: spurious_step.cases) auto
    then show ?thesis using assms(2) in_hands_update [of i "workers s" worker_fds W_Woken]
        in_hands_update [of i "workers s" worker_handled W_Woken] by (auto simp: account_ok_def)
  qed
qed

section \<open>The queue\<close>

definition queue_ok :: "PoolState \<Rightarrow> bool" where
  "queue_ok s \<longleftrightarrow> ring_ok (pool s) \<and> accepted s = taken s @ pool_list (pool s) \<and> 0 < tp_worker_count (pool s) \<and>
     (if owner s \<in> {O_Create, O_FailStop, O_FailBroadcast, O_Failed} \<or> (\<exists>k. owner s = O_FailJoin k)
      then length (workers s) \<le> tp_worker_count (pool s) else length (workers s) = tp_worker_count (pool s))"

lemma ring_stop [simp]: "ring_ok (p\<lparr>tp_stop_requested := b\<rparr>) = ring_ok p" "pool_list (p\<lparr>tp_stop_requested := b\<rparr>) = pool_list p"
  by (simp_all add: ring_ok_def pool_list_def)

lemma queue_step:
  assumes "pool_step s s'" and "queue_ok s" and "owner s' \<noteq> O_Destroyed"
  shows "queue_ok s'"
proof -
  consider i where "worker_step i s s'" | "owner_step s s'" | "spurious_step s s'"
    using assms(1) by (auto simp: pool_step_def thread_step_def)
  then show ?thesis
  proof cases
    case 1
    then show ?thesis using assms(2)
    proof (cases rule: worker_step.cases)
      case (w_take fd p)
      then show ?thesis using assms(2) dequeue_result [of "pool s" fd p] by (auto simp: queue_ok_def)
    qed (auto simp: queue_ok_def)
  next
    case 2
    then show ?thesis using assms(2)
    proof (cases rule: owner_step.cases)
      case (o_accept fd p)
      then show ?thesis using assms(2) enqueue_result [of "pool s" fd p] by (auto simp: queue_ok_def)
    qed (use assms(2,3) in \<open>auto simp: queue_ok_def\<close>)
  next
    case 3
    then show ?thesis using assms(2) by (cases rule: spurious_step.cases) (auto simp: queue_ok_def)
  qed
qed

section \<open>Flags and places\<close>

text \<open>The failure path of \<open>thread_pool_init\<close>, behind its unprotected write of the flag.\<close>

definition failing :: "owner_pc \<Rightarrow> bool" where
  "failing pc \<longleftrightarrow> (case pc of O_FailBroadcast \<Rightarrow> True | O_FailJoin _ \<Rightarrow> True | O_Failed \<Rightarrow> True | _ \<Rightarrow> False)"

definition awake :: "worker_pc \<Rightarrow> bool" where
  "awake pc \<longleftrightarrow> pc \<noteq> W_Waiting \<and> pc \<noteq> W_Done"

definition stopping :: "owner_pc \<Rightarrow> bool" where
  "stopping pc \<longleftrightarrow> (case pc of O_Broadcast _ \<Rightarrow> True | O_ShutdownUnlock _ \<Rightarrow> True | O_Join _ \<Rightarrow> True | _ \<Rightarrow> False)"

text \<open>A worker about to wait has seen an empty queue and no stop, one that leaves has seen an empty
  queue and the stop; after the broadcast nobody waits; with jobs in the queue somebody is awake.\<close>

definition flags_ok :: "PoolState \<Rightarrow> bool" where
  "flags_ok s \<longleftrightarrow>
     (\<forall>i < length (workers s). workers s ! i = W_ToWait \<longrightarrow> tp_size (pool s) = 0 \<and> \<not> tp_stop_requested (pool s)) \<and>
     (\<forall>i < length (workers s). workers s ! i = W_Exit \<or> workers s ! i = W_Done \<longrightarrow> tp_size (pool s) = 0 \<and> tp_stop_requested (pool s)) \<and>
     (\<forall>i < length (workers s). workers s ! i = W_Waiting \<and> tp_stop_requested (pool s) \<longrightarrow> (\<exists>d. owner s = O_Broadcast d)) \<and>
     (0 < tp_size (pool s) \<and> owner s \<noteq> O_Signal \<longrightarrow> (\<exists>i < length (workers s). awake (workers s ! i))) \<and>
     (owner s = O_Signal \<longrightarrow> \<not> tp_stop_requested (pool s)) \<and>
     (stopping (owner s) \<longrightarrow> tp_stop_requested (pool s)) \<and>
     (\<forall>k. owner s = O_Join k \<longrightarrow> k \<le> length (workers s) \<and> (\<forall>i < k. workers s ! i = W_Done))"

lemma flags_worker_step:
  assumes "worker_step i s s'" and "mutex_ok s" and "flags_ok s"
  shows "flags_ok s'"
  using assms(1)
proof (cases rule: worker_step.cases)
  case (w_take fd p)
  then show ?thesis using assms(3) by (auto simp: flags_ok_def nth_list_update awake_def)
next
  case w_wait
  then show ?thesis using assms(3) by (auto simp: flags_ok_def nth_list_update)
next
  case w_exit
  then show ?thesis using assms(3) by (auto simp: flags_ok_def nth_list_update)
qed (use assms(3) in \<open>auto simp: flags_ok_def nth_list_update awake_def stopping_def\<close>)

lemma flags_spurious_step:
  assumes "spurious_step s s'" and "flags_ok s"
  shows "flags_ok s'"
  using assms by (cases rule: spurious_step.cases) (auto simp: flags_ok_def nth_list_update awake_def)

lemma wake_eq [simp]: "wake pc \<noteq> W_Waiting" "wake pc = W_ToWait \<longleftrightarrow> pc = W_ToWait" "wake pc = W_Exit \<longleftrightarrow> pc = W_Exit"
  "wake pc = W_Done \<longleftrightarrow> pc = W_Done"
  by (auto simp: wake_def)

text \<open>While the owner is inside, no worker is.\<close>

lemma owner_inside_excludes:
  assumes "mutex_ok s" and "owner_inside (owner s)" and "i < length (workers s)"
  shows "\<not> worker_inside (workers s ! i)"
  using assms by (auto simp: mutex_ok_def)

lemma flags_owner_step:
  assumes "owner_step s s'" and m: "mutex_ok s" and q: "queue_ok s" and f: "flags_ok s"
    and "\<not> failing (owner s')" and "owner s' \<noteq> O_Destroyed"
  shows "flags_ok s'"
  using assms(1)
proof (cases rule: owner_step.cases)
  case (o_accept fd p)
  have "workers s ! i \<noteq> W_ToWait" if "i < length (workers s)" for i
    using owner_inside_excludes [OF m _ that] o_accept by auto
  then show ?thesis using o_accept f by (auto simp: flags_ok_def stopping_def)
next
  case (o_signal i)
  then show ?thesis using f by (auto simp: flags_ok_def nth_list_update awake_def stopping_def)
next
  case o_signal_nobody
  have "0 < length (workers s)" using q o_signal_nobody(2) by (auto simp: queue_ok_def)
  moreover from this have "workers s ! 0 \<noteq> W_Waiting" using o_signal_nobody(3) nth_mem by metis
  moreover have "workers s ! 0 \<noteq> W_Done" using f o_signal_nobody(2) calculation(1) by (auto simp: flags_ok_def)
  ultimately have "\<exists>i < length (workers s). awake (workers s ! i)" by (auto simp: awake_def)
  then show ?thesis using o_signal_nobody f by (auto simp: flags_ok_def stopping_def)
next
  case (o_stop d)
  have "workers s ! i \<noteq> W_ToWait" if "i < length (workers s)" for i
    using owner_inside_excludes [OF m _ that] o_stop by auto
  then show ?thesis using o_stop f by (auto simp: flags_ok_def stopping_def)
next
  case (o_broadcast d)
  have "\<exists>i < length (workers s). awake (wake (workers s ! i))" if h: "0 < tp_size (pool s)"
  proof -
    obtain i where "i < length (workers s)" "awake (workers s ! i)" using f o_broadcast(2) h by (auto simp: flags_ok_def)
    then show ?thesis by (intro exI [of _ i]) (auto simp: awake_def wake_def)
  qed
  moreover have "workers s ! i \<noteq> W_ToWait" if "i < length (workers s)" for i
    using owner_inside_excludes [OF m _ that] o_broadcast by auto
  ultimately show ?thesis using o_broadcast f by (simp add: flags_ok_def stopping_def cong: conj_cong)
next
  case o_create
  then show ?thesis using f
    by (auto simp: flags_ok_def nth_append less_Suc_eq stopping_def awake_def)
next
  case (o_join k)
  then show ?thesis using f by (auto simp: flags_ok_def less_Suc_eq stopping_def)
qed (use f q assms(5,6) in \<open>auto simp: flags_ok_def stopping_def failing_def\<close>)

lemma failing_stays:
  assumes "pool_step s s'" and "failing (owner s)"
  shows "failing (owner s')"
proof -
  consider i where "worker_step i s s'" | "owner_step s s'" | "spurious_step s s'"
    using assms(1) by (auto simp: pool_step_def thread_step_def)
  then show ?thesis
  proof cases
    case 1
    then show ?thesis using assms(2) by (cases rule: worker_step.cases) auto
  next
    case 2
    then show ?thesis using assms(2) by (cases rule: owner_step.cases) (auto simp: failing_def)
  next
    case 3
    then show ?thesis using assms(2) by (cases rule: spurious_step.cases) auto
  qed
qed

section \<open>Reachable states\<close>

text \<open>What holds at the end: every worker has ended and every accepted descriptor has been handled
  and closed.\<close>

definition pool_final :: "PoolState \<Rightarrow> bool" where
  "pool_final s \<longleftrightarrow> (\<forall>pc \<in> set (workers s). pc = W_Done) \<and> mset (closed s) = mset (accepted s) \<and>
     mset (handled s) = mset (accepted s) \<and> taken s = accepted s \<and> pool s = cleared_pool"

definition pool_inv :: "PoolState \<Rightarrow> bool" where
  "pool_inv s \<longleftrightarrow> mutex_ok s \<and> account_ok s \<and>
     (if owner s = O_Destroyed then pool_final s else queue_ok s \<and> (failing (owner s) \<or> flags_ok s))"

lemma in_hands_done: "\<forall>pc \<in> set ws. pc = W_Done \<Longrightarrow> in_hands worker_fds ws = {#} \<and> in_hands worker_handled ws = {#}"
  by (induction ws) auto

lemma join_done:
  assumes "flags_ok s" and "queue_ok s" and "owner s = O_Join k" and "k = tp_worker_count (pool s)"
  shows "\<forall>pc \<in> set (workers s). pc = W_Done" and "pool_list (pool s) = []"
proof -
  have len: "length (workers s) = k" "0 < k" using assms(2-4) by (auto simp: queue_ok_def)
  then show all: "\<forall>pc \<in> set (workers s). pc = W_Done" using assms(1,3) by (auto simp: flags_ok_def in_set_conv_nth)
  have "workers s ! 0 = W_Done" using len all nth_mem by metis
  then have "tp_size (pool s) = 0" using assms(1) len by (auto simp: flags_ok_def)
  then show "pool_list (pool s) = []" by (simp add: pool_list_def)
qed

lemma final_stuck:
  assumes "pool_final s" and "owner s = O_Destroyed"
  shows "\<not> pool_step s s'"
proof
  assume "pool_step s s'"
  moreover have "workers s ! i = W_Done" if "i < length (workers s)" for i
    using assms(1) that nth_mem by (auto simp: pool_final_def)
  ultimately show False using assms(2)
    by (auto simp: pool_step_def thread_step_def elim!: worker_stepE owner_stepE spurious_stepE)
qed

lemma pool_inv_step:
  assumes "pool_step s s'" and "pool_inv s"
  shows "pool_inv s'"
proof -
  have nd: "owner s \<noteq> O_Destroyed" using assms final_stuck by (auto simp: pool_inv_def)
  then have q: "queue_ok s" and f: "failing (owner s) \<or> flags_ok s" and m: "mutex_ok s" and a: "account_ok s"
    using assms(2) by (simp_all add: pool_inv_def)
  have m': "mutex_ok s'" and a': "account_ok s'" using mutex_step [OF assms(1) m] account_step [OF assms(1) a] by simp_all
  show ?thesis
  proof (cases "owner s' = O_Destroyed")
    case False
    have q': "queue_ok s'" by (rule queue_step [OF assms(1) q False])
    have "failing (owner s') \<or> flags_ok s'"
    proof (cases "failing (owner s) \<or> failing (owner s')")
      case True
      then show ?thesis using failing_stays [OF assms(1)] by blast
    next
      case nf: False
      then show ?thesis
        using assms(1) f m q False flags_worker_step flags_spurious_step flags_owner_step
        unfolding pool_step_def thread_step_def by blast
    qed
    then show ?thesis using m' a' q' False by (simp add: pool_inv_def)
  next
    case True
    then obtain k where k: "owner s = O_Join k" "k = tp_worker_count (pool s)" "s' = s\<lparr>pool := cleared_pool, owner := O_Destroyed\<rparr>"
      using assms(1) nd by (auto simp: pool_step_def thread_step_def elim!: worker_stepE owner_stepE spurious_stepE split: if_splits)
    then have fl: "flags_ok s" using f by (simp add: failing_def)
    note j = join_done [OF fl q k(1,2)]
    have "pool_final s'" using j in_hands_done [OF j(1)] q a k(3) by (simp add: pool_final_def queue_ok_def account_ok_def)
    then show ?thesis using m' a' True by (simp add: pool_inv_def)
  qed
qed

lemma pool_inv_init:
  assumes "thread_pool_prepare n c h e = (Some p, e')"
  shows "pool_inv (initial_state p)"
  using prepare_ring [OF assms]
  by (auto simp: pool_inv_def mutex_ok_def account_ok_def queue_ok_def flags_ok_def initial_state_def stopping_def)

lemma reach_inv: "pool_reach s \<Longrightarrow> pool_inv s"
  by (induction rule: pool_reach.induct) (auto intro: pool_inv_init pool_inv_step)

section \<open>Wakeups\<close>

text \<open>A worker that holds the mutex in front of its tests or has been woken up will look at the queue.\<close>

definition coming :: "worker_pc \<Rightarrow> bool" where
  "coming pc \<longleftrightarrow> pc = W_Test \<or> pc = W_Woken"

abbreviation coming_workers :: "PoolState \<Rightarrow> nat" where
  "coming_workers s \<equiv> length (filter coming (workers s))"

text \<open>While somebody waits, there is such a worker for every job in the queue; the one of a job that has
  just been put into the queue is still to be woken up by the signal.\<close>

definition covered :: "worker_pc list \<Rightarrow> nat \<Rightarrow> nat \<Rightarrow> bool" where
  "covered ws jobs signals \<longleftrightarrow> (W_Waiting \<in> set ws \<longrightarrow> jobs \<le> length (filter coming ws) + signals)"

definition wakeups_ok :: "PoolState \<Rightarrow> bool" where
  "wakeups_ok s \<longleftrightarrow> covered (workers s) (tp_size (pool s)) (if owner s = O_Signal then 1 else 0)"

lemma covered_none [simp]: "covered ws 0 d"
  by (simp add: covered_def)

lemma filter_update:
  "i < length xs \<Longrightarrow> length (filter P (xs[i := x])) + (if P (xs ! i) then 1 else 0) = length (filter P xs) + (if P x then 1 else 0 :: nat)"
proof (induction xs arbitrary: i)
  case (Cons y ys)
  then show ?case by (cases i) auto
qed simp

lemma covered_update:
  assumes "covered ws n d" and "i < length ws" and "pc \<noteq> W_Waiting"
    and "n' + (if coming (ws ! i) then 1 else 0) + d \<le> n + (if coming pc then 1 else 0) + d'"
  shows "covered (ws[i := pc]) n' d'"
proof (cases "W_Waiting \<in> set (ws[i := pc])")
  case True
  then have "W_Waiting \<in> set ws" using set_update_subset_insert [of ws i pc] assms(3) by auto
  then have "n \<le> length (filter coming ws) + d" using assms(1) by (simp add: covered_def)
  then show ?thesis using filter_update [OF assms(2), of coming pc] assms(4) unfolding covered_def by linarith
qed (simp add: covered_def)

lemma coming_simps [simp]:
  "coming W_Test" "coming W_Woken" "\<not> coming W_Lock" "\<not> coming W_ToWait" "\<not> coming W_Waiting" "\<not> coming W_Exit"
  "\<not> coming (W_Taken fd)" "\<not> coming (W_Handle fd)" "\<not> coming (W_Close fd)" "\<not> coming W_Done"
  by (simp_all add: coming_def)

lemma wakeups_worker_step:
  assumes "worker_step i s s'" and "flags_ok s" and "wakeups_ok s"
  shows "wakeups_ok s'"
  using assms(1)
proof (cases rule: worker_step.cases)
  case w_wait
  then have "tp_size (pool s) = 0" using assms(2) by (auto simp: flags_ok_def)
  then show ?thesis using w_wait by (simp add: wakeups_ok_def)
next
  case (w_take fd p)
  have "tp_size p = tp_size (pool s) - 1" using dequeue_frame w_take(5) by blast
  then show ?thesis using w_take covered_update [OF assms(3) [unfolded wakeups_ok_def]] by (simp add: wakeups_ok_def)
qed (use covered_update [OF assms(3) [unfolded wakeups_ok_def]] in \<open>simp add: wakeups_ok_def\<close>)+

lemma nobody_waits: "W_Waiting \<notin> wake ` set ws"
  using wake_eq(1) by (metis imageE)

lemma wakeups_owner_step:
  assumes "owner_step s s'" and "wakeups_ok s"
  shows "wakeups_ok s'"
  using assms(1)
proof (cases rule: owner_step.cases)
  case (o_accept fd p)
  have "tp_size p = Suc (tp_size (pool s))" using enqueue_frame o_accept(5) by blast
  then show ?thesis using o_accept assms(2) by (simp add: wakeups_ok_def covered_def)
next
  case (o_signal i)
  then show ?thesis using covered_update [OF assms(2) [unfolded wakeups_ok_def]] by (simp add: wakeups_ok_def)
next
  case (o_destroyed k)
  then show ?thesis by (simp add: wakeups_ok_def cleared_pool_def)
next
  case (o_broadcast d)
  then show ?thesis using o_broadcast nobody_waits by (simp add: wakeups_ok_def covered_def)
next
  case o_fail_broadcast
  then show ?thesis using o_fail_broadcast nobody_waits by (simp add: wakeups_ok_def covered_def)
qed (use assms(2) in \<open>simp add: wakeups_ok_def covered_def split: if_splits\<close>)+

lemma wakeups_spurious_step:
  assumes "spurious_step s s'" and "wakeups_ok s"
  shows "wakeups_ok s'"
  using assms(1)
proof (cases rule: spurious_step.cases)
  case (1 i)
  then show ?thesis using covered_update [OF assms(2) [unfolded wakeups_ok_def]] by (simp add: wakeups_ok_def)
qed

lemma reach_wakeups: "pool_reach s \<Longrightarrow> \<not> failing (owner s) \<Longrightarrow> owner s \<noteq> O_Destroyed \<Longrightarrow> wakeups_ok s"
proof (induction rule: pool_reach.induct)
  case (pr_init n c h e p e')
  then show ?case by (simp add: wakeups_ok_def covered_def initial_state_def)
next
  case (pr_step s s')
  have inv: "pool_inv s" using reach_inv [OF pr_step(1)] .
  have nd: "owner s \<noteq> O_Destroyed" using pr_step(2) inv final_stuck by (auto simp: pool_inv_def)
  have nf: "\<not> failing (owner s)" using failing_stays [OF pr_step(2)] pr_step(4) by blast
  have ok: "flags_ok s" "wakeups_ok s" using inv nd nf pr_step(3) by (simp_all add: pool_inv_def)
  show ?case using pr_step(2) wakeups_worker_step [OF _ ok] wakeups_owner_step [OF _ ok(2)] wakeups_spurious_step [OF _ ok(2)]
    unfolding pool_step_def thread_step_def by blast
qed

section \<open>A created pool\<close>

lemma created_reach:
  assumes "thread_pool_prepare n c h e = (Some p, e')"
  shows "pool_reach (created_state p)"
proof -
  have r: "k \<le> tp_worker_count p \<Longrightarrow> pool_reach ((initial_state p)\<lparr>workers := replicate k W_Lock\<rparr>)" for k
  proof (induction k)
    case 0
    have "(initial_state p)\<lparr>workers := replicate 0 W_Lock\<rparr> = initial_state p" by (simp add: initial_state_def)
    then show ?case using pr_init [OF assms] by simp
  next
    case (Suc k)
    let ?s = "(initial_state p)\<lparr>workers := replicate k W_Lock\<rparr>"
    have "owner_step ?s (?s\<lparr>workers := workers ?s @ [W_Lock]\<rparr>)" using Suc.prems by (intro o_create) (simp_all add: initial_state_def)
    then have "pool_reach (?s\<lparr>workers := workers ?s @ [W_Lock]\<rparr>)"
      using pr_step Suc by (simp add: pool_step_def thread_step_def)
    then show ?case by (simp add: initial_state_def replicate_append_same)
  qed
  let ?s = "(initial_state p)\<lparr>workers := replicate (tp_worker_count p) W_Lock\<rparr>"
  have "owner_step ?s (?s\<lparr>owner := O_Idle\<rparr>)" by (intro o_created) (simp_all add: initial_state_def)
  then show ?thesis using pr_step [OF r [OF order_refl]] by (simp add: pool_step_def thread_step_def created_state_def)
qed

text \<open>Nothing is lost by starting there: what workers do while others are still being created they can also
  do behind the creation.\<close>

definition completed :: "PoolState \<Rightarrow> PoolState" where
  "completed s = \<lparr>pool = pool s, mutex = mutex s,
     workers = workers s @ replicate (tp_worker_count (pool s) - length (workers s)) W_Lock, owner = O_Idle,
     accepted = accepted s, taken = taken s, handled = handled s, closed = closed s\<rparr>"

lemma completed_worker_step:
  assumes "worker_step i s s'"
  shows "worker_step i (completed s) (completed s')"
proof -
  have i: "i < length (workers (completed s))" "workers (completed s) ! i = workers s ! i"
    using assms by (auto simp: completed_def nth_append elim!: worker_stepE)
  note steps = worker_step.intros [OF i(1), unfolded i(2)]
  show ?thesis using assms
  proof (cases rule: worker_step.cases)
    case (w_take fd p)
    then have "tp_worker_count p = tp_worker_count (pool s)" using dequeue_frame by blast
    then show ?thesis using w_take steps(7) [of fd p] by (simp add: completed_def list_update_append)
  qed (use steps in \<open>simp add: completed_def list_update_append\<close>)+
qed

lemma completed_spurious_step:
  assumes "spurious_step s s'"
  shows "spurious_step (completed s) (completed s')"
proof -
  obtain i where i: "i < length (workers s)" "workers s ! i = W_Waiting" "s' = set_worker s i W_Woken" using assms by (auto elim: spurious_stepE)
  have "i < length (workers (completed s))" "workers (completed s) ! i = W_Waiting" using i by (auto simp: completed_def nth_append)
  from spurious_step.intros [OF this] show ?thesis using i by (simp add: completed_def list_update_append)
qed

lemma creation_completed:
  "pool_reach s \<Longrightarrow> owner s = O_Create \<Longrightarrow> tp_size (pool s) = 0 \<and> pool_step\<^sup>*\<^sup>* (created_state (pool s)) (completed s)"
proof (induction rule: pool_reach.induct)
  case (pr_init n c h e p e')
  have "completed (initial_state p) = created_state p" by (simp add: completed_def created_state_def initial_state_def)
  then show ?case using prepare_ring [OF pr_init(1)] by (simp add: initial_state_def)
next
  case (pr_step s s')
  consider i where "worker_step i s s'" | "owner_step s s'" | "spurious_step s s'"
    using pr_step(2) by (auto simp: pool_step_def thread_step_def)
  then show ?case
  proof cases
    case (1 i)
    then have o: "owner s = O_Create" using pr_step(4) by (auto elim: worker_stepE)
    then have ih: "tp_size (pool s) = 0" "pool_step\<^sup>*\<^sup>* (created_state (pool s)) (completed s)" using pr_step(3) by simp_all
    have "pool s' = pool s" using 1 ih(1) by (auto elim: worker_stepE)
    moreover have "pool_step (completed s) (completed s')" using completed_worker_step [OF 1] by (auto simp: pool_step_def thread_step_def)
    ultimately show ?thesis using ih by auto
  next
    case 2
    then show ?thesis
    proof (cases rule: owner_step.cases)
      case o_create
      then obtain m where "tp_worker_count (pool s) - length (workers s) = Suc m" "tp_worker_count (pool s) - Suc (length (workers s)) = m"
        by (metis Suc_diff_Suc)
      then have "completed s' = completed s" using o_create(1) by (simp add: completed_def)
      then show ?thesis using pr_step(3) o_create(1,2) by simp
    qed (use pr_step(4) in \<open>simp_all split: if_splits\<close>)
  next
    case 3
    then have o: "owner s = O_Create" "pool s' = pool s" using pr_step(4) by (auto elim: spurious_stepE)
    have "pool_step (completed s) (completed s')" using completed_spurious_step [OF 3] by (simp add: pool_step_def)
    then show ?thesis using pr_step(3) o by auto
  qed
qed

end
