(* ===== verification/Pool_Props.thy ===== *)
theory Pool_Props
  imports Pool_Invariant
begin

text \<open>
  The properties of the thread pool over all interleavings: every accepted descriptor is handled
  exactly once and in order of acceptance, no wakeup is lost, a shutdown drains the queue and
  terminates, and the failure path of \<open>thread_pool_init\<close> can hang.
\<close>

section \<open>Progress\<close>

lemma reach_ok:
  assumes "pool_reach s" and "owner s \<noteq> O_Destroyed"
  shows "mutex_ok s" and "account_ok s" and "queue_ok s" and "\<not> failing (owner s) \<Longrightarrow> flags_ok s"
  using reach_inv [OF assms(1)] assms(2) by (auto simp: pool_inv_def)

lemma inside_worker_steps:
  assumes "i < length (workers s)" and "worker_inside (workers s ! i)" and "queue_ok s"
  shows "\<exists>s'. worker_step i s s'"
proof (cases "workers s ! i")
  case W_Test
  show ?thesis
  proof (cases "tp_size (pool s) = 0")
    case True
    then show ?thesis using W_Test assms(1) by (cases "tp_stop_requested (pool s)") (blast intro: worker_step.intros)+
  next
    case False
    then obtain x xs where "pool_list (pool s) = x # xs"
      using length_pool_list [of "pool s"] by (cases "pool_list (pool s)") auto
    then obtain p where "pool_dequeue (pool s) = Some (x, p)" using pool_dequeue_ok [of "pool s" x xs] assms(3) by (auto simp: queue_ok_def)
    then show ?thesis using w_take [OF assms(1) W_Test False] by blast
  qed
qed (use assms in \<open>auto intro: worker_step.intros\<close>)

lemma outside_worker_steps:
  assumes "i < length (workers s)" and "\<not> worker_inside (workers s ! i)" and "awake (workers s ! i)" and "mutex s = None"
  shows "\<exists>s'. worker_step i s s'"
  using assms by (cases "workers s ! i") (auto simp: awake_def intro: worker_step.intros)

lemma awake_makes_progress:
  assumes "mutex_ok s" and "queue_ok s" and "\<not> owner_inside (owner s)" and "i < length (workers s)" and "awake (workers s ! i)"
  shows "\<exists>j s'. worker_step j s s'"
proof (cases "mutex s")
  case None
  then have "\<not> worker_inside (workers s ! i)" using assms(1,4) by (auto simp: mutex_ok_def)
  then show ?thesis using outside_worker_steps [OF assms(4) _ assms(5) None] by blast
next
  case (Some h)
  then obtain j where "h = Worker j" using assms(1,3) by (cases h) (auto simp: mutex_ok_def)
  then have "j < length (workers s)" "worker_inside (workers s ! j)" using assms(1) Some by (auto simp: mutex_ok_def)
  then show ?thesis using inside_worker_steps [OF _ _ assms(2)] by blast
qed

lemma owner_inside_steps:
  assumes "owner_inside (owner s)" and "queue_ok s"
  shows "\<exists>s'. owner_step s s'"
proof (cases "owner s")
  case (O_Submit fd)
  show ?thesis
  proof (cases "\<not> tp_stop_requested (pool s) \<and> tp_size (pool s) < tp_queue_capacity (pool s)")
    case True
    then obtain p where "pool_enqueue (pool s) fd = Some p" using pool_enqueue_ok assms(2) by (force simp: queue_ok_def)
    then show ?thesis using o_accept O_Submit True by blast
  next
    case False
    then show ?thesis using o_reject O_Submit by blast
  qed
next
  case O_Signal
  show ?thesis
  proof (cases "W_Waiting \<in> set (workers s)")
    case True
    then show ?thesis using o_signal [OF O_Signal] by (auto simp: in_set_conv_nth)
  next
    case False
    then show ?thesis using o_signal_nobody [OF O_Signal] by blast
  qed
qed (use assms(1) in \<open>auto intro: owner_step.intros\<close>)

text \<open>A joined worker is done, or it is awake.\<close>

lemma join_progress:
  assumes "mutex_ok s" and "queue_ok s" and "flags_ok s" and "owner s = O_Join k"
  shows "\<exists>s'. thread_step s s'"
proof (cases "k = tp_worker_count (pool s)")
  case True
  then show ?thesis using o_destroyed [OF assms(4)] by (auto simp: thread_step_def)
next
  case False
  then have k: "k < length (workers s)" "k < tp_worker_count (pool s)" using assms(2-4) by (auto simp: queue_ok_def flags_ok_def)
  show ?thesis
  proof (cases "workers s ! k = W_Done")
    case True
    then show ?thesis using o_join [OF assms(4) k(2,1)] by (auto simp: thread_step_def)
  next
    case nd: False
    have "tp_stop_requested (pool s)" using assms(3,4) by (auto simp: flags_ok_def stopping_def)
    then have "workers s ! k \<noteq> W_Waiting" using assms(3,4) k(1) by (auto simp: flags_ok_def)
    then have "awake (workers s ! k)" using nd by (simp add: awake_def)
    then show ?thesis using awake_makes_progress [OF assms(1,2) _ k(1)] assms(4) by (auto simp: thread_step_def)
  qed
qed

lemma pool_progress:
  assumes "pool_reach s" and "\<not> failing (owner s)" and "owner s \<noteq> O_Destroyed" and "owner s \<noteq> O_Idle"
  shows "\<exists>s'. thread_step s s'"
proof -
  note ok = reach_ok [OF assms(1,3)]
  show ?thesis
  proof (cases "owner_inside (owner s)")
    case True
    then show ?thesis using owner_inside_steps ok(3) by (auto simp: thread_step_def)
  next
    case out: False
    show ?thesis
    proof (cases "mutex s")
      case (Some h)
      then obtain i where "h = Worker i" using out ok(1) by (cases h) (auto simp: mutex_ok_def)
      then have "i < length (workers s)" "worker_inside (workers s ! i)" using ok(1) Some by (auto simp: mutex_ok_def)
      then show ?thesis using inside_worker_steps [OF _ _ ok(3)] unfolding thread_step_def by blast
    next
      case None
      have w: "length (workers s) \<le> tp_worker_count (pool s)" if "owner s = O_Create" using ok(3) that by (auto simp: queue_ok_def)
      show ?thesis
      proof (cases "owner s")
        case O_Create
        then have "length (workers s) = tp_worker_count (pool s) \<or> length (workers s) < tp_worker_count (pool s)"
          using w by linarith
        then show ?thesis using o_create [OF O_Create] o_created [OF O_Create] unfolding thread_step_def by blast
      next
        case (O_Join k)
        then show ?thesis using join_progress [OF ok(1,3) ok(4) [OF assms(2)]] by blast
      qed (use out None assms(2-4) in \<open>auto simp: thread_step_def failing_def intro: owner_step.intros\<close>)
    qed
  qed
qed

lemma queued_progress:
  assumes "pool_reach s" and "\<not> failing (owner s)" and "owner s \<noteq> O_Destroyed" and "\<not> owner_inside (owner s)" and "0 < tp_size (pool s)"
  shows "\<exists>i s'. worker_step i s s'"
proof -
  note ok = reach_ok [OF assms(1,3)]
  have "owner s \<noteq> O_Signal" using assms(4) by auto
  then obtain i where "i < length (workers s)" "awake (workers s ! i)" using ok(4) [OF assms(2)] assms(5) by (auto simp: flags_ok_def)
  then show ?thesis using awake_makes_progress [OF ok(1,3) assms(4)] by blast
qed

section \<open>Draining\<close>

definition worker_weight :: "worker_pc \<Rightarrow> nat" where
  "worker_weight pc = (case pc of W_Done \<Rightarrow> 0 | W_Exit \<Rightarrow> 1 | W_Test \<Rightarrow> 2 | W_ToWait \<Rightarrow> 0 | W_Waiting \<Rightarrow> 4 | W_Lock \<Rightarrow> 3 | W_Woken \<Rightarrow> 3
     | W_Close _ \<Rightarrow> 4 | W_Handle _ \<Rightarrow> 5 | W_Taken _ \<Rightarrow> 6)"

definition drain_bound :: "PoolState \<Rightarrow> nat" where
  "drain_bound s = 5 * tp_size (pool s) + sum_list (map worker_weight (workers s)) +
     (case owner s of O_Join k \<Rightarrow> Suc (tp_worker_count (pool s) - k) | _ \<Rightarrow> 0)"

lemma weight_update: "i < length ws \<Longrightarrow> sum_list (map f (ws[i := pc])) + f (ws ! i) = sum_list (map f ws) + (f pc :: nat)"
proof (induction ws arbitrary: i)
  case (Cons w ws)
  then show ?case by (cases i) (auto simp: ac_simps)
qed simp

lemma weight_less: "i < length ws \<Longrightarrow> f pc < (f (ws ! i) :: nat) \<Longrightarrow> sum_list (map f (ws[i := pc])) < sum_list (map f ws)"
  using weight_update [of i ws f pc] by linarith

lemma drain_worker:
  assumes "worker_step i s s'" and "flags_ok s" and "owner s = O_Join k"
  shows "drain_bound s' < drain_bound s"
proof -
  have stop: "tp_stop_requested (pool s)" using assms(2,3) by (auto simp: flags_ok_def stopping_def)
  then have no: "i < length (workers s) \<Longrightarrow> workers s ! i \<noteq> W_ToWait" using assms(2) by (auto simp: flags_ok_def)
  show ?thesis using assms(1)
  proof (cases rule: worker_step.cases)
    case (w_take fd p)
    then have "tp_size p = tp_size (pool s) - 1" "tp_worker_count p = tp_worker_count (pool s)" by simp_all
    then show ?thesis using w_take weight_update [of i "workers s" worker_weight "W_Taken fd"] assms(3)
      by (simp add: drain_bound_def worker_weight_def)
  qed (use stop no assms(3) in \<open>auto simp: drain_bound_def worker_weight_def intro!: weight_less\<close>)
qed

lemma drain_step:
  assumes "pool_step s s'" and "mutex_ok s" and "queue_ok s" and "flags_ok s" and "owner s = O_Join k"
  shows "drain_bound s' < drain_bound s \<and> (owner s' = O_Destroyed \<or> (\<exists>k'. owner s' = O_Join k'))"
proof -
  consider i where "worker_step i s s'" | "owner_step s s'" | "spurious_step s s'"
    using assms(1) by (auto simp: pool_step_def thread_step_def)
  then show ?thesis
  proof cases
    case 1
    then show ?thesis using drain_worker [OF 1 assms(4,5)] assms(5) by (auto elim!: worker_stepE)
  next
    case 2
    then show ?thesis using assms(5) by (auto simp: drain_bound_def cleared_pool_def elim!: owner_stepE)
  next
    case 3
    then obtain i where i: "i < length (workers s)" "workers s ! i = W_Waiting" by (auto elim: spurious_stepE)
    have "tp_stop_requested (pool s)" using assms(4,5) by (auto simp: flags_ok_def stopping_def)
    then show ?thesis using i assms(4,5) by (auto simp: flags_ok_def)
  qed
qed

lemma drain_run:
  "(pool_step ^^ n) s s' \<Longrightarrow> pool_reach s \<Longrightarrow> owner s = O_Join k \<Longrightarrow>
   n \<le> drain_bound s \<and> pool_reach s' \<and> (owner s' = O_Destroyed \<or> (\<exists>k'. owner s' = O_Join k'))"
proof (induction n arbitrary: s k)
  case 0
  then show ?case by auto
next
  case (Suc n)
  obtain t where t: "pool_step s t" "(pool_step ^^ n) t s'" using relpowp_Suc_D2 [OF Suc.prems(1)] by blast
  have nd: "owner s \<noteq> O_Destroyed" "\<not> failing (owner s)" using Suc.prems(3) by (simp_all add: failing_def)
  note ok = reach_ok [OF Suc.prems(2) nd(1)]
  have d: "drain_bound t < drain_bound s" "owner t = O_Destroyed \<or> (\<exists>k'. owner t = O_Join k')"
    using drain_step [OF t(1) ok(1,3) ok(4) [OF nd(2)] Suc.prems(3)] by auto
  have r: "pool_reach t" by (rule pr_step [OF Suc.prems(2) t(1)])
  show ?case
  proof (cases "owner t = O_Destroyed")
    case True
    then have "pool_final t" using reach_inv [OF r] by (simp add: pool_inv_def)
    then have "n = 0 \<and> s' = t" using t(2) final_stuck [OF _ True] by (cases n) (auto dest!: relpowp_Suc_D2 simp del: relpowp.simps(2))
    then show ?thesis using True d r by auto
  next
    case False
    then show ?thesis using Suc.IH [OF t(2) r] d by fastforce
  qed
qed

section \<open>A sample run\<close>

text \<open>A pool with one worker and room for one job.\<close>

definition pool1 :: ThreadPool where
  "pool1 = \<lparr>tp_worker_count = 1, tp_jobs = [0], tp_queue_capacity = 1, tp_head = 0, tp_tail = 0, tp_size = 0, tp_stop_requested = False\<rparr>"

definition pool1_full :: ThreadPool where
  "pool1_full = pool1\<lparr>tp_jobs := [7], tp_size := 1\<rparr>"

abbreviation sample_state :: "ThreadPool \<Rightarrow> holder option \<Rightarrow> worker_pc list \<Rightarrow> owner_pc \<Rightarrow> int list \<Rightarrow> PoolState" where
  "sample_state p m ws pc acc \<equiv> \<lparr>pool = p, mutex = m, workers = ws, owner = pc, accepted = acc, taken = [], handled = [], closed = []\<rparr>"

lemma reach_owner: "pool_reach s \<Longrightarrow> owner_step s s' \<Longrightarrow> pool_reach s'"
  and reach_worker: "pool_reach s \<Longrightarrow> worker_step i s s' \<Longrightarrow> pool_reach s'"
  unfolding pool_step_def [abs_def] thread_step_def [abs_def] using pr_step [unfolded pool_step_def thread_step_def] by blast+

lemma sample_created: "pool_reach (sample_state pool1 None [W_Lock] O_Create [])"
proof -
  have "thread_pool_prepare 1 1 True [] = (Some pool1, [])" by (simp add: thread_pool_prepare_def pool1_def)
  then have "pool_reach (initial_state pool1)" by (rule pr_init)
  then have "pool_reach (sample_state pool1 None [] O_Create [])" by (simp add: initial_state_def)
  from reach_owner [OF this o_create] show ?thesis by (simp add: pool1_def)
qed

text \<open>A job has been accepted while the worker was still in front of the lock.\<close>

lemma sample_accepted: "pool_reach (sample_state pool1_full None [W_Lock] O_Idle [7])"
proof -
  have "pool_reach (sample_state pool1 None [W_Lock] O_Idle [])"
    using reach_owner [OF sample_created o_created] by (simp add: pool1_def)
  from reach_owner [OF this o_submit [of _ 7]] have "pool_reach (sample_state pool1 None [W_Lock] (O_SubmitLock 7) [])" by simp
  from reach_owner [OF this o_submit_lock] have s: "pool_reach (sample_state pool1 (Some Owner) [W_Lock] (O_Submit 7) [])" by simp
  have "pool_enqueue pool1 7 = Some pool1_full" by (simp add: pool_enqueue_def pool1_def pool1_full_def wr_def)
  from reach_owner [OF s o_accept [of _ 7 pool1_full]] this
  have "pool_reach (sample_state pool1_full (Some Owner) [W_Lock] O_Signal [7])" by (simp add: pool1_def)
  from reach_owner [OF this o_signal_nobody] have "pool_reach (sample_state pool1_full (Some Owner) [W_Lock] O_SubmitUnlock [7])" by simp
  from reach_owner [OF this o_submit_unlock] show ?thesis by simp
qed

lemma sample_shutdown: "pool_reach (sample_state (pool1_full\<lparr>tp_stop_requested := True\<rparr>) None [W_Lock] (O_Join 0) [7])"
proof -
  from reach_owner [OF sample_accepted o_shutdown [of _ True]]
  have "pool_reach (sample_state pool1_full None [W_Lock] (O_ShutdownLock True) [7])" by simp
  from reach_owner [OF this o_shutdown_lock] have "pool_reach (sample_state pool1_full (Some Owner) [W_Lock] (O_Shutdown True) [7])" by simp
  from reach_owner [OF this o_stop]
  have "pool_reach (sample_state (pool1_full\<lparr>tp_stop_requested := True\<rparr>) (Some Owner) [W_Lock] (O_Broadcast True) [7])" by simp
  from reach_owner [OF this o_broadcast]
  have "pool_reach (sample_state (pool1_full\<lparr>tp_stop_requested := True\<rparr>) (Some Owner) [W_Lock] (O_ShutdownUnlock True) [7])"
    by (simp add: wake_def)
  from reach_owner [OF this o_shutdown_unlock] show ?thesis by simp
qed

text \<open>The worker serves the job and ends, and the pool is destroyed.\<close>

abbreviation drain_state :: "ThreadPool \<Rightarrow> holder option \<Rightarrow> worker_pc \<Rightarrow> owner_pc \<Rightarrow> int list \<Rightarrow> int list \<Rightarrow> int list \<Rightarrow> PoolState" where
  "drain_state p m w pc tk hs cl \<equiv>
     \<lparr>pool = p, mutex = m, workers = [w], owner = pc, accepted = [7], taken = tk, handled = hs, closed = cl\<rparr>"

lemma sample_destroyed: "pool_reach (drain_state cleared_pool None W_Done O_Destroyed [7] [7] [7])"
proof -
  let ?p = "pool1_full\<lparr>tp_stop_requested := True\<rparr>" and ?q = "pool1_full\<lparr>tp_stop_requested := True, tp_size := 0\<rparr>"
  have d: "pool_dequeue ?p = Some (7, ?q)" by (simp add: pool_dequeue_def pool1_full_def pool1_def rd_def)
  from reach_worker [OF sample_shutdown w_lock [of 0]] have "pool_reach (drain_state ?p (Some (Worker 0)) W_Test (O_Join 0) [] [] [])" by simp
  from reach_worker [OF this w_take [of 0 _ 7 ?q]] d
  have "pool_reach (drain_state ?q (Some (Worker 0)) (W_Taken 7) (O_Join 0) [7] [] [])" by (simp add: pool1_full_def)
  from reach_worker [OF this w_unlock [of 0 _ 7]] have "pool_reach (drain_state ?q None (W_Handle 7) (O_Join 0) [7] [] [])" by simp
  from reach_worker [OF this w_handle [of 0 _ 7]] have "pool_reach (drain_state ?q None (W_Close 7) (O_Join 0) [7] [7] [])" by simp
  from reach_worker [OF this w_close [of 0 _ 7]] have "pool_reach (drain_state ?q None W_Lock (O_Join 0) [7] [7] [7])" by simp
  from reach_worker [OF this w_lock [of 0]] have "pool_reach (drain_state ?q (Some (Worker 0)) W_Test (O_Join 0) [7] [7] [7])" by simp
  from reach_worker [OF this w_leave [of 0]] have "pool_reach (drain_state ?q (Some (Worker 0)) W_Exit (O_Join 0) [7] [7] [7])" by simp
  from reach_worker [OF this w_exit [of 0]] have "pool_reach (drain_state ?q None W_Done (O_Join 0) [7] [7] [7])" by simp
  from reach_owner [OF this o_join [of _ 0]] have "pool_reach (drain_state ?q None W_Done (O_Join 1) [7] [7] [7])"
    by (simp add: pool1_full_def pool1_def)
  from reach_owner [OF this o_destroyed [of _ 1]] show ?thesis by (simp add: pool1_full_def pool1_def)
qed

section \<open>Properties\<close>

text \<open>C7: In every interleaving of any number of workers with the owner (spurious wakeups included)
  the ring buffer is a FIFO queue of at most its capacity: what was accepted is what the workers
  have taken, in that order, followed by what is in the queue; and every accepted descriptor is
  exactly one of queued, in the hands of one worker, or handled and closed.\<close>

theorem pool_accounts_for_jobs:
  assumes "pool_reach s" and "owner s \<noteq> O_Destroyed"
  shows "accepted s = taken s @ pool_list (pool s) \<and> length (pool_list (pool s)) \<le> tp_queue_capacity (pool s) \<and>
    mset (accepted s) = mset (pool_list (pool s)) + in_hands worker_fds (workers s) + mset (closed s) \<and>
    mset (handled s) = mset (closed s) + in_hands worker_handled (workers s)"
  using reach_ok(2,3) [OF assms] by (simp add: account_ok_def queue_ok_def ring_ok_def)

theorem pool_accounts_for_jobs_witness:
  "\<exists>s. pool_reach s \<and> accepted s = [7] \<and> accepted s = taken s @ pool_list (pool s)"
  using pool_accounts_for_jobs [OF sample_accepted] sample_accepted by fastforce

text \<open>C17: No wakeup is lost and nothing deadlocks, in every reachable state outside the failure path of the
  initialisation and without relying on spurious wakeups: while a worker waits, every job in the
  queue has a worker of its own that has been woken up or is about to look at the queue (for the
  last job, a signal may still be under way); whenever a job is queued and the owner is outside its
  critical sections, a worker can take a step; and in the middle of an operation of the owner, some
  thread can.\<close>

theorem pool_never_stuck:
  assumes "pool_reach s" and "\<not> failing (owner s)" and "owner s \<noteq> O_Destroyed"
  shows "(W_Waiting \<in> set (workers s) \<longrightarrow> tp_size (pool s) \<le> coming_workers s + (if owner s = O_Signal then 1 else 0)) \<and>
    (0 < tp_size (pool s) \<and> \<not> owner_inside (owner s) \<longrightarrow> (\<exists>i s'. worker_step i s s')) \<and>
    (owner s \<noteq> O_Idle \<longrightarrow> (\<exists>s'. thread_step s s'))"
  using reach_wakeups [OF assms] queued_progress [OF assms] pool_progress [OF assms] unfolding wakeups_ok_def covered_def by blast

theorem pool_never_stuck_witness:
  "\<exists>s i s'. pool_reach s \<and> owner s = O_Idle \<and> tp_size (pool s) = 1 \<and> worker_step i s s'"
proof -
  let ?s = "sample_state pool1_full None [W_Lock] O_Idle [7]"
  have "\<not> failing (owner ?s)" "owner ?s \<noteq> O_Destroyed" by (simp_all add: failing_def)
  from pool_never_stuck [OF sample_accepted this] have "\<exists>i s'. worker_step i ?s s'" by (simp add: pool1_full_def)
  then show ?thesis using sample_accepted by (fastforce simp: pool1_full_def)
qed

text \<open>A shutdown drains the queue: when \<open>thread_pool_destroy\<close> returns, every worker has ended and
  every descriptor that was ever accepted has been handled exactly once and closed exactly once.\<close>

theorem pool_destroy_drains:
  assumes "pool_reach s" and "owner s = O_Destroyed"
  shows "(\<forall>pc \<in> set (workers s). pc = W_Done) \<and> taken s = accepted s \<and> mset (handled s) = mset (accepted s) \<and>
    mset (closed s) = mset (accepted s)"
  using reach_inv [OF assms(1)] assms(2) by (simp add: pool_inv_def pool_final_def)

theorem pool_destroy_drains_witness:
  "\<exists>s. pool_reach s \<and> owner s = O_Destroyed \<and> accepted s = [7] \<and> mset (handled s) = {#7#}"
proof -
  have "mset (handled (drain_state cleared_pool None W_Done O_Destroyed [7] [7] [7])) =
      mset (accepted (drain_state cleared_pool None W_Done O_Destroyed [7] [7] [7]))"
    using pool_destroy_drains [OF sample_destroyed] by simp
  then show ?thesis using sample_destroyed by fastforce
qed

text \<open>The destruction terminates: once \<open>thread_pool_destroy\<close> joins the workers, every run is at most
  \<open>drain_bound\<close> steps long and can be continued until the pool is destroyed.\<close>

theorem pool_destroy_terminates:
  assumes "pool_reach s" and "owner s = O_Join k" and "(pool_step ^^ n) s s'"
  shows "n \<le> drain_bound s \<and> (owner s' = O_Destroyed \<or> (\<exists>s''. thread_step s' s''))"
proof -
  have r: "n \<le> drain_bound s" "pool_reach s'" "owner s' = O_Destroyed \<or> (\<exists>k'. owner s' = O_Join k')"
    using drain_run [OF assms(3,1,2)] by auto
  then show ?thesis using pool_progress [OF r(2)] by (auto simp: failing_def)
qed

theorem pool_destroy_terminates_witness:
  "\<exists>s. pool_reach s \<and> owner s = O_Join 0 \<and> drain_bound s = 10 \<and> (\<forall>n s'. (pool_step ^^ n) s s' \<longrightarrow> n \<le> 10)"
proof -
  let ?s = "sample_state (pool1_full\<lparr>tp_stop_requested := True\<rparr>) None [W_Lock] (O_Join 0) [7]"
  have b: "drain_bound ?s = 10" by (simp add: drain_bound_def worker_weight_def pool1_full_def pool1_def)
  have "\<forall>n s'. (pool_step ^^ n) ?s s' \<longrightarrow> n \<le> 10"
    using pool_destroy_terminates [OF sample_shutdown, of 0] unfolding b by simp
  then show ?thesis using sample_shutdown b by (intro exI [of _ ?s]) simp
qed

text \<open>C37: The failure path of \<open>thread_pool_init\<close> can hang: it sets the stop flag and broadcasts without
  the mutex, so a worker that has just tested the flag starts to wait behind the broadcast, and
  the owner waits for it forever (unless the system wakes the worker spuriously).\<close>

theorem pool_init_failure_hangs:
  "\<exists>s. pool_reach s \<and> owner s = O_FailJoin 1 \<and> workers s = [W_Waiting] \<and> tp_stop_requested (pool s) \<and> (\<forall>s'. \<not> thread_step s s')"
proof -
  let ?p = "pool1\<lparr>tp_worker_count := 2, tp_jobs := [0]\<rparr>" and ?q = "pool1\<lparr>tp_worker_count := 2, tp_jobs := [0], tp_stop_requested := True\<rparr>"
  have "thread_pool_prepare 2 1 True [] = (Some ?p, [])" by (simp add: thread_pool_prepare_def pool1_def)
  then have "pool_reach (initial_state ?p)" by (rule pr_init)
  then have "pool_reach (sample_state ?p None [] O_Create [])" by (simp add: initial_state_def)
  from reach_owner [OF this o_create] have "pool_reach (sample_state ?p None [W_Lock] O_Create [])" by simp
  from reach_worker [OF this w_lock [of 0]] have "pool_reach (sample_state ?p (Some (Worker 0)) [W_Test] O_Create [])" by simp
  from reach_worker [OF this w_decide [of 0]] have "pool_reach (sample_state ?p (Some (Worker 0)) [W_ToWait] O_Create [])"
    by (simp add: pool1_def)
  from reach_owner [OF this o_create_fails] have "pool_reach (sample_state ?p (Some (Worker 0)) [W_ToWait] O_FailStop [])" by simp
  from reach_owner [OF this o_fail_stop] have "pool_reach (sample_state ?q (Some (Worker 0)) [W_ToWait] O_FailBroadcast [])" by simp
  from reach_owner [OF this o_fail_broadcast] have "pool_reach (sample_state ?q (Some (Worker 0)) [W_ToWait] (O_FailJoin 1) [])"
    by (simp add: wake_def)
  from reach_worker [OF this w_wait [of 0]] have r: "pool_reach (sample_state ?q None [W_Waiting] (O_FailJoin 1) [])" by simp
  have "\<not> thread_step (sample_state ?q None [W_Waiting] (O_FailJoin 1) []) s'" for s'
    by (auto simp: thread_step_def elim!: worker_stepE owner_stepE)
  then show ?thesis using r by (intro exI [of _ "sample_state ?q None [W_Waiting] (O_FailJoin 1) []"]) simp
qed

end
