(* ===== verification/Http_Io.thy ===== *)
theory Http_Io
  imports C_Strings
begin

text \<open>
  Reading requests from and writing responses to a client socket (\<^verbatim>\<open>server/http.c\<close>). A socket is the
  list of what its next \<open>recv\<close> or \<open>send\<close> calls meet: data in pieces of any size, interruptions,
  time-outs, errors. After the list the peer has closed its side, and everything is sent at once.
\<close>

section \<open>Sockets\<close>

datatype recv_event = Data string | Recv_Interrupted | Recv_Timeout | Recv_Error

datatype recv_result = Received string | Interrupted | Timed_Out | Recv_Failed

text \<open>\<open>recv\<close> delivers at most \<open>n\<close> bytes of the next piece; no bytes is the end of the stream.\<close>

fun recv :: "nat \<Rightarrow> recv_event list \<Rightarrow> recv_result \<times> recv_event list" where
  "recv n [] = (Received [], [])"
| "recv n (Data d # es) = (Received (take n d), if length d \<le> n then es else Data (drop n d) # es)"
| "recv n (Recv_Interrupted # es) = (Interrupted, es)"
| "recv n (Recv_Timeout # es) = (Timed_Out, es)"
| "recv n (Recv_Error # es) = (Recv_Failed, es)"

fun recv_size :: "recv_event list \<Rightarrow> nat" where
  "recv_size [] = 0"
| "recv_size (Data d # es) = Suc (length d) + recv_size es"
| "recv_size (_ # es) = Suc (recv_size es)"

lemma recv_size_less: "recv n es = (r, es') \<Longrightarrow> 0 < n \<Longrightarrow> r \<noteq> Received [] \<Longrightarrow> recv_size es' < recv_size es"
  by (cases es rule: recv_size.cases) (auto split: if_splits)

datatype send_event = Sent nat | Send_Interrupted | Send_Error

section \<open>Requests\<close>

definition HTTP_MAX_METHOD_SIZE :: nat where "HTTP_MAX_METHOD_SIZE = 16"
definition HTTP_MAX_PATH_SIZE :: nat where "HTTP_MAX_PATH_SIZE = 64"
definition HTTP_MAX_VERSION_SIZE :: nat where "HTTP_MAX_VERSION_SIZE = 16"
definition HTTP_MAX_BODY_SIZE :: nat where "HTTP_MAX_BODY_SIZE = 4096"
definition HTTP_MAX_REQUEST_SIZE :: nat where "HTTP_MAX_REQUEST_SIZE = 8192"

record HttpRequest =
  rq_method :: string
  rq_path :: string
  rq_version :: string
  rq_content_length :: nat
  rq_body :: string

text \<open>The status and the message of an error.\<close>

type_synonym http_error = "int \<times> string"

definition set_error :: "nat \<Rightarrow> string \<Rightarrow> string" where
  "set_error n message = bounded n message"

abbreviation CRLF :: string where "CRLF \<equiv> [CHR 0x0D, CHR 0x0A]"

text \<open>The first position of the empty line in the bytes read so far.\<close>

fun find_header_end :: "string \<Rightarrow> nat option" where
  "find_header_end (a # b # c # d # s) =
     (if a = CHR 0x0D \<and> b = CHR 0x0A \<and> c = CHR 0x0D \<and> d = CHR 0x0A then Some 0
      else map_option Suc (find_header_end (b # c # d # s)))"
| "find_header_end _ = None"

datatype header_read = Header_End nat | Header_Timeout | Header_Bad

function read_until_header_end :: "nat \<Rightarrow> string \<Rightarrow> recv_event list \<Rightarrow> header_read \<times> string \<times> recv_event list" where
  "read_until_header_end buffer_size buffer es =
     (if length buffer \<ge> buffer_size then (Header_Bad, buffer, es)
      else case recv (buffer_size - length buffer) es of
             (Interrupted, es') \<Rightarrow> read_until_header_end buffer_size buffer es'
           | (Timed_Out, es') \<Rightarrow> (Header_Timeout, buffer, es')
           | (Recv_Failed, es') \<Rightarrow> (Header_Bad, buffer, es')
           | (Received d, es') \<Rightarrow>
               if d = [] then (Header_Bad, buffer, es')
               else case find_header_end (buffer @ d) of
                      Some index \<Rightarrow> (Header_End index, buffer @ d, es')
                    | None \<Rightarrow> read_until_header_end buffer_size (buffer @ d) es')"
  by pat_completeness auto
termination
  by (relation "measure (\<lambda>(n, b, es). recv_size es)") (auto dest: recv_size_less [OF sym])

declare read_until_header_end.simps [simp del]

text \<open>\<open>strstr(s, "\r\n")\<close>: the text before and the text behind the first line end.\<close>

fun split_crlf :: "string \<Rightarrow> (string \<times> string) option" where
  "split_crlf (a # b # s) =
     (if a = CHR 0x0D \<and> b = CHR 0x0A then Some ([], s)
      else map_option (\<lambda>(l, r). (a # l, r)) (split_crlf (b # s)))"
| "split_crlf _ = None"

text \<open>One conversion \<open>%ns\<close> of \<open>sscanf\<close>: white space is skipped, then at most \<open>n\<close> other characters are
  read.\<close>

definition scan_word :: "nat \<Rightarrow> string \<Rightarrow> (string \<times> string) option" where
  "scan_word n s =
     (let s' = dropWhile isspace s; w = take n (takeWhile (\<lambda>c. \<not> isspace c) s')
      in if w = [] then None else Some (w, drop (length w) s'))"

definition scan_request_line :: "string \<Rightarrow> (string \<times> string \<times> string) option" where
  "scan_request_line line =
     do { (m, r1) \<leftarrow> scan_word (HTTP_MAX_METHOD_SIZE - 1) line;
          (p, r2) \<leftarrow> scan_word (HTTP_MAX_PATH_SIZE - 1) r1;
          (v, r3) \<leftarrow> scan_word (HTTP_MAX_VERSION_SIZE - 1) r2;
          Some (m, p, v) }"

text \<open>\<open>strtok_r(s, "\r\n")\<close>: the non-empty pieces between carriage returns and line feeds.\<close>

definition line_char :: "char \<Rightarrow> bool" where
  "line_char c \<longleftrightarrow> c \<noteq> CHR 0x0D \<and> c \<noteq> CHR 0x0A"

function header_lines :: "string \<Rightarrow> string list" where
  "header_lines s =
     (case dropWhile (\<lambda>c. \<not> line_char c) s of
        [] \<Rightarrow> []
      | c # cs \<Rightarrow> takeWhile line_char (c # cs) # header_lines (dropWhile line_char (c # cs)))"
  by pat_completeness auto
termination
proof (relation "measure length")
  fix s c cs
  assume d: "dropWhile (\<lambda>c. \<not> line_char c) s = c # cs"
  then have "line_char c" using hd_dropWhile [of "\<lambda>c. \<not> line_char c" s] by auto
  moreover have "length (c # cs) \<le> length s" using d length_dropWhile_le [of "\<lambda>c. \<not> line_char c" s] by simp
  ultimately have "length (dropWhile line_char (c # cs)) < length s"
    using length_dropWhile_le [of line_char cs] by simp
  then show "(dropWhile line_char (c # cs), s) \<in> measure length" by simp
qed simp

declare header_lines.simps [simp del]

text \<open>One header line: the new content length, if it is that header.\<close>

definition header_line :: "string \<Rightarrow> nat option \<Rightarrow> http_error + nat option" where
  "header_line line content_length =
     (if CHR '':'' \<notin> set line then Inl (400, ''Malformed HTTP header'')
      else let name = takeWhile (\<lambda>c. c \<noteq> CHR '':'') line;
               colon = dropWhile isspace (tl (dropWhile (\<lambda>c. c \<noteq> CHR '':'') line))
           in if strcaseeq name ''Content-Length''
              then case strtoul colon of (parsed, end_ptr) \<Rightarrow>
                     if end_ptr = colon \<or> end_ptr \<noteq> [] then Inl (400, ''Invalid Content-Length'')
                     else Inr (Some (nat parsed))
              else Inr content_length)"

fun header_loop :: "string list \<Rightarrow> nat option \<Rightarrow> http_error + nat option" where
  "header_loop [] content_length = Inr content_length"
| "header_loop (line # lines) content_length =
     (case header_line line content_length of Inl e \<Rightarrow> Inl e | Inr n \<Rightarrow> header_loop lines n)"

text \<open>What the text in front of the empty line decides.\<close>

definition http_head :: "string \<Rightarrow> http_error + HttpRequest" where
  "http_head buffer =
     (case split_crlf buffer of
        None \<Rightarrow> Inl (400, ''Malformed HTTP request line'')
      | Some (line, headers) \<Rightarrow>
          (case scan_request_line line of
             None \<Rightarrow> Inl (400, ''Malformed HTTP request line'')
           | Some (method, path, version) \<Rightarrow>
               if method \<noteq> ''POST'' then Inl (405, ''Only POST is supported'')
               else if path \<noteq> ''/query'' then Inl (404, ''Only /query is supported'')
               else case header_loop (header_lines headers) None of
                      Inl e \<Rightarrow> Inl e
                    | Inr None \<Rightarrow> Inl (400, ''Missing Content-Length'')
                    | Inr (Some n) \<Rightarrow>
                        if n > HTTP_MAX_BODY_SIZE then Inl (413, ''Request body is too large'')
                        else Inr \<lparr>rq_method = method, rq_path = path, rq_version = version, rq_content_length = n, rq_body = []\<rparr>))"

text \<open>The loop that reads the rest of the body.\<close>

function read_body :: "nat \<Rightarrow> string \<Rightarrow> recv_event list \<Rightarrow> (http_error + string) \<times> recv_event list" where
  "read_body content_length body es =
     (if length body \<ge> content_length then (Inr body, es)
      else case recv (content_length - length body) es of
             (Interrupted, es') \<Rightarrow> read_body content_length body es'
           | (Timed_Out, es') \<Rightarrow> (Inl (408, ''Request timed out''), es')
           | (Recv_Failed, es') \<Rightarrow> (Inl (400, ''Failed to read request body''), es')
           | (Received d, es') \<Rightarrow>
               if d = [] then (Inl (400, ''Incomplete request body''), es')
               else read_body content_length (body @ d) es')"
  by pat_completeness auto
termination
  by (relation "measure (\<lambda>(n, b, es). recv_size es)") (auto dest: recv_size_less [OF sym])

declare read_body.simps [simp del]

definition http_read_request :: "recv_event list \<Rightarrow> (http_error + HttpRequest) \<times> recv_event list" where
  "http_read_request es =
     (case read_until_header_end HTTP_MAX_REQUEST_SIZE [] es of
        (Header_Timeout, buffer, es') \<Rightarrow> (Inl (408, ''Request timed out''), es')
      | (Header_Bad, buffer, es') \<Rightarrow> (Inl (400, ''Malformed HTTP request''), es')
      | (Header_End header_end, buffer, es') \<Rightarrow>
          (case http_head (takeWhile (\<lambda>c. c \<noteq> NUL) (take header_end buffer)) of
             Inl e \<Rightarrow> (Inl e, es')
           | Inr request \<Rightarrow>
               (case read_body (rq_content_length request) (take (rq_content_length request) (drop (header_end + 4) buffer)) es' of
                  (Inl e, es'') \<Rightarrow> (Inl e, es'')
                | (Inr body, es'') \<Rightarrow> (Inr (request\<lparr>rq_body := body\<rparr>), es''))))"

section \<open>Responses\<close>

definition http_status_reason :: "int \<Rightarrow> string" where
  "http_status_reason status_code =
     (if status_code = 200 then ''OK'' else if status_code = 400 then ''Bad Request'' else if status_code = 404 then ''Not Found''
      else if status_code = 405 then ''Method Not Allowed'' else if status_code = 408 then ''Request Timeout''
      else if status_code = 413 then ''Payload Too Large'' else if status_code = 500 then ''Internal Server Error''
      else if status_code = 503 then ''Service Unavailable'' else ''OK'')"

text \<open>The loop of \<open>send_all\<close>: whether everything was sent, and the bytes that were.\<close>

fun send_all :: "string \<Rightarrow> send_event list \<Rightarrow> bool \<times> string \<times> send_event list" where
  "send_all [] es = (True, [], es)"
| "send_all (c # cs) [] = (True, c # cs, [])"
| "send_all (c # cs) (Send_Interrupted # es) = send_all (c # cs) es"
| "send_all (c # cs) (Send_Error # es) = (False, [], es)"
| "send_all (c # cs) (Sent n # es) =
     (if n = 0 then (False, [], es)
      else case send_all (drop n (c # cs)) es of (ok, sent, es') \<Rightarrow> (ok, take n (c # cs) @ sent, es'))"

definition response_header :: "int \<Rightarrow> string \<Rightarrow> nat \<Rightarrow> string" where
  "response_header status_code content_type body_length =
     ''HTTP/1.1 '' @ show_int status_code @ '' '' @ http_status_reason status_code @ CRLF @
     ''Content-Type: '' @ content_type @ CRLF @ ''Content-Length: '' @ show_nat body_length @ CRLF @
     ''Connection: close'' @ CRLF @ CRLF"

definition http_send_response :: "int \<Rightarrow> string option \<Rightarrow> string option \<Rightarrow> send_event list \<Rightarrow> bool \<times> string \<times> send_event list" where
  "http_send_response status_code content_type body es =
     (let b = (case body of None \<Rightarrow> [] | Some b \<Rightarrow> b);
          ct = (case content_type of None \<Rightarrow> ''text/plain; charset=utf-8'' | Some ct \<Rightarrow> ct);
          header = response_header status_code ct (length b)
      in if length header \<ge> 512 then (False, [], es)
         else case send_all header es of (ok, sent, es') \<Rightarrow>
                if \<not> ok then (False, sent, es')
                else case send_all b es' of (ok2, sent2, es2) \<Rightarrow> (ok2, sent @ sent2, es2))"

end
