(* ===== verification/Server_Client.thy ===== *)
theory Server_Client
  imports Api_Query Http_Io Thread_Pool
begin

text \<open>
  The server around its parts (\<^verbatim>\<open>server/server.c\<close>, \<^verbatim>\<open>server_main.c\<close>): the handling of one client, the
  creation of a server, the accept loop, the command line and the whole program. Sockets are as in the theory of
  HTTP; a started pool is a parameter of the accept loop, given by the outcome of each submission.
\<close>

section \<open>One client\<close>

definition json_content_type :: string where
  "json_content_type = ''application/json; charset=utf-8''"

definition server_build_error_body :: "string \<Rightarrow> string \<Rightarrow> env \<Rightarrow> (char option list option \<times> env) option" where
  "server_build_error_body status message e =
     do { (ok, b, e1) \<leftarrow> json_buffer_init (Some \<lparr>jb_data = None, jb_len = 0, jb_cap = 0\<rparr>) 128 e;
          if \<not> ok then Some (None, e1)
          else do { (ok2, b2, e2) \<leftarrow>
              json_then (\<lambda>b. json_buffer_append b (Some (json_text (''{'' @ q1 @ ''ok'' @ q1 @ '':false,'' @ q1 @ ''status'' @ q1 @ '':''))))
             (json_then (\<lambda>b. json_buffer_append_json_string b (Some status))
             (json_then (\<lambda>b. json_buffer_append b (Some (json_text ('','' @ q1 @ ''message'' @ q1 @ '':''))))
             (json_then (\<lambda>b. json_buffer_append_json_string b (Some message))
                        (\<lambda>b. json_buffer_append b (Some ''}''))))) b e1;
            Some (if ok2 then fst (json_buffer_detach b2) else None, e2) } }"

definition server_http_error_status_name :: "int \<Rightarrow> string" where
  "server_http_error_status_name status_code =
     (if status_code = 404 then ''not_found'' else if status_code = 405 then ''method_not_allowed''
      else if status_code = 408 then ''request_timeout'' else if status_code = 413 then ''payload_too_large''
      else if status_code = 500 then ''internal_error'' else if status_code = 503 then ''queue_full'' else ''bad_request'')"

text \<open>An error response: nothing is sent when there is no memory for its body.\<close>

definition send_error_body :: "int \<Rightarrow> string \<Rightarrow> string \<Rightarrow> send_event list \<Rightarrow> env \<Rightarrow> (string \<times> env) option" where
  "send_error_body status_code status message ss e =
     do { (body, e') \<leftarrow> server_build_error_body status message e;
          (case body of
             None \<Rightarrow> Some ([], e')
           | Some cells \<Rightarrow>
               do { s \<leftarrow> c_string cells;
                    case http_send_response status_code (Some json_content_type) (Some s) ss of (ok, sent, ss') \<Rightarrow> Some (sent, e') }) }"

text \<open>\<open>server_handle_client\<close>: the table afterwards and the bytes that were sent. The handler sees the
  body up to its first zero byte, as a C string.\<close>

definition server_handle_client ::
    "Table \<Rightarrow> recv_event list \<Rightarrow> send_event list \<Rightarrow> env \<Rightarrow> (Table option \<times> string \<times> env) option" where
  "server_handle_client table es ss e =
     (case fst (http_read_request es) of
        Inl (error_status, message) \<Rightarrow>
          let error_message = set_error 128 message in
          do { (sent, e') \<leftarrow> send_error_body error_status (server_http_error_status_name error_status)
                 (if error_message \<noteq> [] then error_message else ''Bad request'') ss e;
               Some (Some table, sent, e') }
      | Inr request \<Rightarrow>
          do { (ok, res, tbl, e1) \<leftarrow> api_handle_query (Some table) (Some (takeWhile (\<lambda>c. c \<noteq> NUL) (rq_body request)))
                 (Some \<lparr>http_status = 0, api_body = None\<rparr>) e;
               if \<not> ok
               then do { (sent, e') \<leftarrow> send_error_body 500 ''internal_error'' ''Failed to execute SQL'' ss e1; Some (tbl, sent, e') }
               else do { r \<leftarrow> res;
                         (case api_body r of
                            None \<Rightarrow> case http_send_response (http_status r) (Some json_content_type) None ss of
                                      (ok, sent, ss') \<Rightarrow> Some (tbl, sent, e1)
                          | Some cells \<Rightarrow>
                              do { s \<leftarrow> c_string cells;
                                   case http_send_response (http_status r) (Some json_content_type) (Some s) ss of
                                     (ok, sent, ss') \<Rightarrow> Some (tbl, sent, e1) }) } })"

section \<open>Creating and destroying a server\<close>

record ServerConfig =
  cfg_port :: nat
  cfg_worker_count :: nat
  cfg_queue_capacity :: nat
  cfg_backlog :: nat

text \<open>The resources of a server: its memory, the table, the pool (as its threads find it), the socket.\<close>

record Server =
  sv_listen :: bool
  sv_table :: "Table option"
  sv_pool :: "ThreadPool option"
  sv_config :: ServerConfig
  sv_initialized :: bool

text \<open>\<open>socket\<close>, \<open>bind\<close> and \<open>listen\<close> may fail; the descriptor is closed when a later call fails. The
  second component counts the descriptors that stay open.\<close>

definition server_make_listen_socket :: "env \<Rightarrow> bool \<times> nat \<times> env" where
  "server_make_listen_socket e =
     (case env_next e of (socket_ok, e1) \<Rightarrow>
        if \<not> socket_ok then (False, 0, e1)
        else case env_next e1 of (bind_ok, e2) \<Rightarrow>
          if \<not> bind_ok then (False, 0, e2)
          else case env_next e2 of (listen_ok, e3) \<Rightarrow> if \<not> listen_ok then (False, 0, e3) else (True, 1, e3))"

text \<open>\<open>server_create\<close>: the server or \<open>NULL\<close>, the records of its table and the open descriptors. \<open>None\<close> is also
  a call that does not return, when \<open>thread_pool_init\<close> does not. When there is no socket, the pool is
  destroyed first: that it stops and joins its idle workers, which always ends, is shown for the threads.\<close>

definition server_create :: "ServerConfig option \<Rightarrow> env \<Rightarrow> (Server option \<times> (nat \<rightharpoonup> Record) \<times> nat \<times> env) option" where
  "server_create config e =
     (case config of
        None \<Rightarrow> Some (None, Map.empty, 0, e)
      | Some cfg \<Rightarrow>
          (case env_next e of (ok, e1) \<Rightarrow>
             if \<not> ok then Some (None, Map.empty, 0, e1)
             else do { (tbl, e2) \<leftarrow> table_create e1;
                       (case tbl of
                          None \<Rightarrow> Some (None, Map.empty, 0, e2)
                        | Some t \<Rightarrow>
                            do { (pl, e3) \<leftarrow> thread_pool_init (cfg_worker_count cfg) (cfg_queue_capacity cfg) True e2;
                                 (case pl of
                                    None \<Rightarrow> do { h \<leftarrow> table_destroy (Some t); Some (None, h, 0, e3) }
                                  | Some p \<Rightarrow>
                                      (case server_make_listen_socket e3 of (ok, fds, e4) \<Rightarrow>
                                         if \<not> ok then do { h \<leftarrow> table_destroy (Some t); Some (None, h, fds, e4) }
                                         else Some (Some \<lparr>sv_listen = True, sv_table = Some t, sv_pool = Some p, sv_config = cfg,
                                                          sv_initialized = True\<rparr>, rec_heap t, fds, e4))) }) }))"

text \<open>\<open>server_destroy\<close>, behind the destruction of the pool: the records and descriptors that are left.\<close>

definition server_destroy :: "Server option \<Rightarrow> nat \<Rightarrow> ((nat \<rightharpoonup> Record) \<times> nat) option" where
  "server_destroy server fds =
     (case server of
        None \<Rightarrow> Some (Map.empty, fds)
      | Some s \<Rightarrow>
          do { h \<leftarrow> (case sv_table s of None \<Rightarrow> Some Map.empty | Some t \<Rightarrow> table_destroy (Some t));
               Some (h, if sv_listen s then fds - 1 else fds) })"

section \<open>The accept loop\<close>

text \<open>What one round meets: a shutdown requested before it, or the result of \<open>accept\<close>. For a
  connection: its descriptor, whether the pool accepts it (asked only when it is submitted), and
  the client's side of a refusal. Behind the list a shutdown is requested.\<close>

datatype accept_event = Connection int bool "send_event list" | Accept_Interrupted | Accept_Failed | Shutdown_Requested

datatype server_action = To_Pool int | Refused int string | Close int | Pool_Shutdown

definition server_set_client_socket_timeouts :: "env \<Rightarrow> bool \<times> env" where
  "server_set_client_socket_timeouts e =
     (case env_next e of (receive_ok, e1) \<Rightarrow> if \<not> receive_ok then (False, e1) else env_next e1)"

fun server_run_loop :: "accept_event list \<Rightarrow> env \<Rightarrow> (server_action list \<times> env) option" where
  "server_run_loop [] e = Some ([], e)"
| "server_run_loop (Shutdown_Requested # evs) e = Some ([], e)"
| "server_run_loop (Accept_Failed # evs) e = Some ([], e)"
| "server_run_loop (Accept_Interrupted # evs) e = server_run_loop evs e"
| "server_run_loop (Connection client_fd submitted ss # evs) e =
     (case server_set_client_socket_timeouts e of (timeouts_set, e0) \<Rightarrow>
        if \<not> timeouts_set then do { (as, e') \<leftarrow> server_run_loop evs e0; Some (Close client_fd # as, e') }
        else if submitted then do { (as, e') \<leftarrow> server_run_loop evs e0; Some (To_Pool client_fd # as, e') }
        else do { (sent, e1) \<leftarrow> send_error_body 503 ''queue_full'' ''Server is busy'' ss e0;
                  (as, e') \<leftarrow> server_run_loop evs e1;
                  Some (Refused client_fd sent # Close client_fd # as, e') })"

definition server_run :: "Server option \<Rightarrow> accept_event list \<Rightarrow> env \<Rightarrow> (bool \<times> server_action list \<times> env) option" where
  "server_run server evs e =
     (case server of
        None \<Rightarrow> Some (False, [], e)
      | Some s \<Rightarrow>
          if \<not> sv_initialized s then Some (False, [], e)
          else do { (as, e') \<leftarrow> server_run_loop evs e; Some (True, as @ [Pool_Shutdown], e') })"

section \<open>The command line\<close>

text \<open>A numeric argument: \<open>strtoul\<close> must use up the whole argument, and zero is refused.\<close>

definition number_argument :: "string \<Rightarrow> nat option" where
  "number_argument arg =
     (case strtoul arg of (v, end_ptr) \<Rightarrow> if end_ptr = arg \<or> end_ptr \<noteq> [] \<or> v = 0 then None else Some (nat v))"

definition install_signal_handlers :: "env \<Rightarrow> bool \<times> env" where
  "install_signal_handlers e = (case env_next e of (int_ok, e1) \<Rightarrow> if \<not> int_ok then (False, e1) else env_next e1)"

text \<open>The arguments behind the program name; the handlers of the signals are installed between the
  first and the second. \<open>None\<close> is exit with status 1.\<close>

definition server_config :: "string list \<Rightarrow> env \<Rightarrow> ServerConfig option" where
  "server_config args e =
     do { port \<leftarrow> (if length args > 0
                   then do { v \<leftarrow> number_argument (args ! 0); if v > 65535 then None else Some v } else Some 8080);
          if \<not> fst (install_signal_handlers e) then None
          else do { workers \<leftarrow> (if length args > 1 then number_argument (args ! 1) else Some 4);
                    queue \<leftarrow> (if length args > 2 then number_argument (args ! 2) else Some 16);
                    backlog \<leftarrow> (if length args > 3
                                then do { v \<leftarrow> number_argument (args ! 3); if v > 128 then None else Some v } else Some 32);
                    Some \<lparr>cfg_port = port, cfg_worker_count = workers, cfg_queue_capacity = queue, cfg_backlog = backlog\<rparr> } }"

section \<open>The program\<close>

text \<open>The handler called for one client after the other, as a worker does: the bytes sent to each.\<close>

fun serve_clients :: "Table \<Rightarrow> (recv_event list \<times> send_event list) list \<Rightarrow> env \<Rightarrow> (Table \<times> string list \<times> env) option" where
  "serve_clients table [] e = Some (table, [], e)"
| "serve_clients table ((es, ss) # conns) e =
     do { (tbl, sent, e1) \<leftarrow> server_handle_client table es ss e;
          t \<leftarrow> tbl;
          (t', outs, e2) \<leftarrow> serve_clients t conns e1;
          Some (t', sent # outs, e2) }"

fun pooled :: "server_action \<Rightarrow> int list" where
  "pooled (To_Pool client_fd) = [client_fd]"
| "pooled _ = []"

definition listening_line :: "ServerConfig \<Rightarrow> string" where
  "listening_line config =
     ''Listening on port '' @ show_nat (cfg_port config) @ '' (workers='' @ show_nat (cfg_worker_count config) @
     '' queue='' @ show_nat (cfg_queue_capacity config) @ '' backlog='' @ show_nat (cfg_backlog config) @ '')'' @ [CHR 0x0A]"

text \<open>\<open>main\<close>: the exit status, the text on the standard output, the responses, and the records and
  descriptors that are left. The peer behind each descriptor is a parameter, and so is the order
  in which the workers take the submitted descriptors.\<close>

definition server_main ::
    "string list \<Rightarrow> accept_event list \<Rightarrow> (int list \<Rightarrow> int list) \<Rightarrow> (int \<Rightarrow> recv_event list \<times> send_event list) \<Rightarrow> env
     \<Rightarrow> (int \<times> string \<times> string list \<times> (nat \<rightharpoonup> Record) \<times> nat) option" where
  "server_main args evs schedule peer e =
     (case server_config args e of
        None \<Rightarrow> Some (1, [], [], Map.empty, 0)
      | Some config \<Rightarrow>
          do { (server, h, fds, e1) \<leftarrow> server_create (Some config) (snd (install_signal_handlers e));
               (case server of
                  None \<Rightarrow> Some (1, [], [], h, fds)
                | Some s \<Rightarrow>
                    do { (running, actions, e2) \<leftarrow> server_run (Some s) evs e1;
                         t \<leftarrow> sv_table s;
                         (t', responses, e3) \<leftarrow> serve_clients t (map peer (schedule (concat (map pooled actions)))) e2;
                         (h', fds') \<leftarrow> server_destroy (Some (s\<lparr>sv_table := Some t'\<rparr>)) fds;
                         Some (0, listening_line config, responses, h', fds') }) })"

end
