(* ===== verification/Http_Correct.thy ===== *)
theory Http_Correct
  imports Http_Io
begin

text \<open>
  Reading a request depends only on the bytes of the stream, not on how the network cuts them into
  pieces; what an accepted request looks like; and sending delivers the response or a prefix.
\<close>

section \<open>Streams\<close>

text \<open>A connection that is cut into non-empty pieces with interruptions in between.\<close>

definition clean :: "recv_event list \<Rightarrow> bool" where
  "clean es \<longleftrightarrow> (\<forall>ev \<in> set es. ev = Recv_Interrupted \<or> (\<exists>d. ev = Data d \<and> d \<noteq> []))"

fun stream :: "recv_event list \<Rightarrow> string" where
  "stream [] = []"
| "stream (Data d # es) = d @ stream es"
| "stream (_ # es) = stream es"

lemma clean_simps [simp]:
  "clean []" "clean (Data d # es) \<longleftrightarrow> d \<noteq> [] \<and> clean es" "clean (Recv_Interrupted # es) \<longleftrightarrow> clean es"
  "\<not> clean (Recv_Timeout # es)" "\<not> clean (Recv_Error # es)"
  by (auto simp: clean_def)

lemma recv_clean:
  assumes "clean es" and "0 < n" and "recv n es = (r, es')"
  shows "clean es' \<and> (r = Interrupted \<and> stream es' = stream es \<or>
    (\<exists>d. r = Received d \<and> stream es = d @ stream es' \<and> length d \<le> n \<and> (d = [] \<longrightarrow> stream es = [])))"
  using assms by (cases es rule: recv_size.cases) (auto split: if_splits simp: append_assoc [symmetric] simp del: append_assoc)

section \<open>The empty line\<close>

lemma find_header_end_bound: "find_header_end s = Some i \<Longrightarrow> i + 4 \<le> length s"
  by (induction s arbitrary: i rule: find_header_end.induct) (auto split: if_splits)

lemma find_header_end_append: "find_header_end s = Some i \<Longrightarrow> find_header_end (s @ t) = Some i"
  by (induction s arbitrary: i rule: find_header_end.induct) (auto split: if_splits)

lemma find_header_end_prefix: "find_header_end (s @ t) = Some i \<Longrightarrow> i + 4 \<le> length s \<Longrightarrow> find_header_end s = Some i"
proof (induction s arbitrary: i rule: find_header_end.induct)
  case (1 a b c d s)
  then show ?case by (auto split: if_splits)
qed auto

lemma find_header_end_skip: "c \<noteq> CHR 0x0D \<Longrightarrow> find_header_end (c # s) = map_option Suc (find_header_end s)"
  by (cases s rule: find_header_end.cases) auto

lemma find_header_end_skips:
  "CHR 0x0D \<notin> set l \<Longrightarrow> find_header_end (l @ s) = map_option (\<lambda>i. i + length l) (find_header_end s)"
proof (induction l)
  case Nil
  then show ?case by (cases "find_header_end s") auto
next
  case (Cons c l)
  then show ?case by (cases "find_header_end s") (auto simp: find_header_end_skip)
qed

text \<open>The rounds of the loop.\<close>

lemma read_header_full: "n \<le> length buffer \<Longrightarrow> read_until_header_end n buffer es = (Header_Bad, buffer, es)"
  by (subst read_until_header_end.simps) simp

lemma read_header_interrupted:
  "length buffer < n \<Longrightarrow> recv (n - length buffer) es = (Interrupted, es') \<Longrightarrow>
   read_until_header_end n buffer es = read_until_header_end n buffer es'"
  by (subst read_until_header_end.simps) simp

lemma read_header_received:
  "length buffer < n \<Longrightarrow> recv (n - length buffer) es = (Received d, es') \<Longrightarrow>
   read_until_header_end n buffer es =
     (if d = [] then (Header_Bad, buffer, es')
      else case find_header_end (buffer @ d) of Some index \<Rightarrow> (Header_End index, buffer @ d, es')
           | None \<Rightarrow> read_until_header_end n (buffer @ d) es')"
  by (subst read_until_header_end.simps) simp

lemma read_header_found:
  "clean es \<Longrightarrow> find_header_end (buffer @ stream es) = Some i \<Longrightarrow> i + 4 \<le> n \<Longrightarrow> length buffer \<le> n \<Longrightarrow>
   find_header_end buffer = None \<Longrightarrow>
   \<exists>b es'. read_until_header_end n buffer es = (Header_End i, b, es') \<and> clean es' \<and> b @ stream es' = buffer @ stream es \<and>
     i + 4 \<le> length b"
proof (induction "recv_size es" arbitrary: buffer es rule: less_induct)
  case less
  have len: "length buffer < n"
  proof (rule ccontr)
    assume "\<not> length buffer < n"
    then have "i + 4 \<le> length buffer" using less.prems(3) by simp
    then show False using find_header_end_prefix [OF less.prems(2)] less.prems(5) by simp
  qed
  then have pos: "0 < n - length buffer" by simp
  obtain r es' where r: "recv (n - length buffer) es = (r, es')" by (cases "recv (n - length buffer) es")
  have c: "clean es'" using recv_clean [OF less.prems(1) pos r] by simp
  consider "r = Interrupted" "stream es' = stream es"
    | d where "r = Received d" "stream es = d @ stream es'" "length d \<le> n - length buffer" "d = [] \<longrightarrow> stream es = []"
    using recv_clean [OF less.prems(1) pos r] by blast
  then show ?case
  proof cases
    case 1
    have "recv_size es' < recv_size es" using recv_size_less [OF r pos] 1(1) by simp
    from less.hyps [OF this c, of buffer] show ?thesis
      using read_header_interrupted [OF len, of es es'] r 1 less.prems(2-5) by simp
  next
    case (2 d)
    have ne: "d \<noteq> []" using 2(4) less.prems(2,5) by auto
    note x = read_header_received [OF len, of es d es']
    show ?thesis
    proof (cases "find_header_end (buffer @ d)")
      case (Some j)
      then have "j = i" using find_header_end_append [OF Some, of "stream es'"] less.prems(2) 2(2) by simp
      moreover have "i + 4 \<le> length (buffer @ d)" using find_header_end_bound [OF Some] \<open>j = i\<close> by simp
      ultimately show ?thesis using x r c 2 ne Some by simp
    next
      case None
      have "recv_size es' < recv_size es" using recv_size_less [OF r pos] 2(1) ne by simp
      from less.hyps [OF this c, of "buffer @ d"] show ?thesis using x r 2 ne None less.prems(2-4) len by simp
    qed
  qed
qed

lemma read_header_missing:
  "clean es \<Longrightarrow> (\<And>i. find_header_end (buffer @ stream es) = Some i \<Longrightarrow> n < i + 4) \<Longrightarrow>
   \<exists>b es'. read_until_header_end n buffer es = (Header_Bad, b, es')"
proof (induction "recv_size es" arbitrary: buffer es rule: less_induct)
  case less
  show ?case
  proof (cases "length buffer < n")
    case False
    then show ?thesis using read_header_full [of n buffer es] by simp
  next
    case len: True
    then have pos: "0 < n - length buffer" by simp
    obtain r es' where r: "recv (n - length buffer) es = (r, es')" by (cases "recv (n - length buffer) es")
    have c: "clean es'" using recv_clean [OF less.prems(1) pos r] by simp
    consider "r = Interrupted" "stream es' = stream es"
      | d where "r = Received d" "stream es = d @ stream es'" "length d \<le> n - length buffer"
      using recv_clean [OF less.prems(1) pos r] by blast
    then show ?thesis
    proof cases
      case 1
      have "recv_size es' < recv_size es" using recv_size_less [OF r pos] 1(1) by simp
      from less.hyps [OF this c, of buffer] show ?thesis
        using read_header_interrupted [OF len, of es es'] r 1 less.prems(2) by simp
    next
      case (2 d)
      note x = read_header_received [OF len, of es d es']
      show ?thesis
      proof (cases "d = []")
        case True
        then show ?thesis using x r 2 by simp
      next
        case ne: False
        have none: "find_header_end (buffer @ d) = None"
        proof (rule ccontr)
          assume "find_header_end (buffer @ d) \<noteq> None"
          then obtain j where j: "find_header_end (buffer @ d) = Some j" by auto
          then have "n < j + 4" using less.prems(2) [of j] find_header_end_append [OF j, of "stream es'"] 2(2) by simp
          then show False using find_header_end_bound [OF j] 2(3) len by simp
        qed
        have "recv_size es' < recv_size es" using recv_size_less [OF r pos] 2(1) ne by simp
        from less.hyps [OF this c, of "buffer @ d"] show ?thesis using x r 2 ne none less.prems(2) by simp
      qed
    qed
  qed
qed

section \<open>The body\<close>

lemma read_body_done: "n \<le> length body \<Longrightarrow> read_body n body es = (Inr body, es)"
  by (subst read_body.simps) simp

lemma read_body_interrupted:
  "length body < n \<Longrightarrow> recv (n - length body) es = (Interrupted, es') \<Longrightarrow> read_body n body es = read_body n body es'"
  by (subst read_body.simps) simp

lemma read_body_received:
  "length body < n \<Longrightarrow> recv (n - length body) es = (Received d, es') \<Longrightarrow>
   read_body n body es = (if d = [] then (Inl (400, ''Incomplete request body''), es') else read_body n (body @ d) es')"
  by (subst read_body.simps) simp

lemma read_body_stream:
  "clean es \<Longrightarrow> length body \<le> n \<Longrightarrow>
   fst (read_body n body es) =
     (if n \<le> length (body @ stream es) then Inr (take n (body @ stream es)) else Inl (400, ''Incomplete request body''))"
proof (induction "recv_size es" arbitrary: body es rule: less_induct)
  case less
  show ?case
  proof (cases "length body < n")
    case False
    then show ?thesis using less.prems(2) read_body_done [of n body es] by simp
  next
    case len: True
    then have pos: "0 < n - length body" by simp
    obtain r es' where r: "recv (n - length body) es = (r, es')" by (cases "recv (n - length body) es")
    have c: "clean es'" using recv_clean [OF less.prems(1) pos r] by simp
    consider "r = Interrupted" "stream es' = stream es"
      | d where "r = Received d" "stream es = d @ stream es'" "length d \<le> n - length body" "d = [] \<longrightarrow> stream es = []"
      using recv_clean [OF less.prems(1) pos r] by blast
    then show ?thesis
    proof cases
      case 1
      have "recv_size es' < recv_size es" using recv_size_less [OF r pos] 1(1) by simp
      from less.hyps [OF this c, of body] show ?thesis
        using read_body_interrupted [OF len, of es es'] r 1 less.prems(2) by simp
    next
      case (2 d)
      note x = read_body_received [OF len, of es d es']
      show ?thesis
      proof (cases "d = []")
        case True
        then show ?thesis using x r 2 len by simp
      next
        case ne: False
        have "recv_size es' < recv_size es" using recv_size_less [OF r pos] 2(1) ne by simp
        from less.hyps [OF this c, of "body @ d"] show ?thesis using x r 2 ne len by simp
      qed
    qed
  qed
qed

section \<open>The whole request\<close>

text \<open>What the bytes of a stream mean.\<close>

definition http_parse :: "string \<Rightarrow> http_error + HttpRequest" where
  "http_parse s =
     (case find_header_end s of
        Some i \<Rightarrow>
          if i + 4 \<le> HTTP_MAX_REQUEST_SIZE
          then (case http_head (takeWhile (\<lambda>c. c \<noteq> NUL) (take i s)) of
                  Inl e \<Rightarrow> Inl e
                | Inr request \<Rightarrow>
                    if rq_content_length request \<le> length (drop (i + 4) s)
                    then Inr (request\<lparr>rq_body := take (rq_content_length request) (drop (i + 4) s)\<rparr>)
                    else Inl (400, ''Incomplete request body''))
          else Inl (400, ''Malformed HTTP request'')
      | None \<Rightarrow> Inl (400, ''Malformed HTTP request''))"

lemma read_request_stream:
  assumes "clean es"
  shows "fst (http_read_request es) = http_parse (stream es)"
proof (cases "\<exists>i. find_header_end (stream es) = Some i \<and> i + 4 \<le> HTTP_MAX_REQUEST_SIZE")
  case False
  then have "\<And>i. find_header_end ([] @ stream es) = Some i \<Longrightarrow> HTTP_MAX_REQUEST_SIZE < i + 4" by force
  from read_header_missing [OF assms this] obtain b es' where "read_until_header_end HTTP_MAX_REQUEST_SIZE [] es = (Header_Bad, b, es')"
    by blast
  then show ?thesis using False by (auto simp: http_read_request_def http_parse_def split: option.splits)
next
  case True
  then obtain i where i: "find_header_end (stream es) = Some i" "i + 4 \<le> HTTP_MAX_REQUEST_SIZE" by blast
  obtain b es' where r: "read_until_header_end HTTP_MAX_REQUEST_SIZE [] es = (Header_End i, b, es')" "clean es'"
    "b @ stream es' = stream es" "i + 4 \<le> length b"
    using read_header_found [OF assms, of "[]" i HTTP_MAX_REQUEST_SIZE] i by auto
  have t: "take i b = take i (stream es)" "drop (i + 4) (stream es) = drop (i + 4) b @ stream es'"
    using r(3,4) by (simp_all flip: r(3))
  show ?thesis
  proof (cases "http_head (takeWhile (\<lambda>c. c \<noteq> NUL) (take i (stream es)))")
    case (Inl e)
    then show ?thesis using r(1) i t(1) by (simp add: http_read_request_def http_parse_def)
  next
    case (Inr rq)
    let ?n = "rq_content_length rq" and ?d = "drop (i + 4) b"
    have "fst (read_body ?n (take ?n ?d) es') = (if ?n \<le> length (?d @ stream es') then Inr (take ?n (?d @ stream es'))
        else Inl (400, ''Incomplete request body''))"
      using read_body_stream [OF r(2), of "take ?n ?d" ?n] by (cases "?n \<le> length ?d") simp_all
    then show ?thesis using r(1) i t Inr
      by (cases "read_body ?n (take ?n ?d) es'") (auto simp: http_read_request_def http_parse_def split: sum.splits if_splits)
  qed
qed

section \<open>Accepted requests and errors\<close>

lemma recv_length: "recv n es = (Received d, es') \<Longrightarrow> length d \<le> n"
  by (cases es rule: recv_size.cases) auto

definition error_ok :: "http_error \<Rightarrow> bool" where
  "error_ok e \<longleftrightarrow> fst e \<in> {400, 404, 405, 408, 413} \<and> snd e \<noteq> [] \<and> length (snd e) < 128"

lemma read_body_outcome:
  "length body \<le> n \<Longrightarrow> (case fst (read_body n body es) of Inl e \<Rightarrow> error_ok e | Inr b \<Rightarrow> length b = n)"
proof (induction "recv_size es" arbitrary: body es rule: less_induct)
  case less
  show ?case
  proof (cases "length body < n")
    case False
    then show ?thesis using less.prems read_body_done [of n body es] by simp
  next
    case len: True
    then have pos: "0 < n - length body" by simp
    obtain r es' where r: "recv (n - length body) es = (r, es')" by (cases "recv (n - length body) es")
    show ?thesis
    proof (cases r)
      case Interrupted
      have "recv_size es' < recv_size es" using recv_size_less [OF r pos] Interrupted by simp
      from less.hyps [OF this less.prems] show ?thesis using read_body_interrupted [OF len, of es es'] r Interrupted by simp
    next
      case (Received d)
      show ?thesis
      proof (cases "d = []")
        case True
        then show ?thesis using read_body_received [OF len, of es d es'] r Received by (simp add: error_ok_def)
      next
        case False
        have "recv_size es' < recv_size es" using recv_size_less [OF r pos] Received False by simp
        from less.hyps [OF this, of "body @ d"] recv_length [of "n - length body" es d es'] show ?thesis
          using read_body_received [OF len, of es d es'] r Received False len by simp
      qed
    qed (use r len in \<open>(subst read_body.simps, simp add: error_ok_def)+\<close>)
  qed
qed

lemma header_loop_error: "header_loop ls n = Inl e \<Longrightarrow> error_ok e"
proof (induction ls arbitrary: n)
  case (Cons l ls)
  show ?case
  proof (cases "header_line l n")
    case (Inl e')
    then have "error_ok e'" by (auto simp: header_line_def error_ok_def Let_def split: if_splits prod.splits)
    then show ?thesis using Cons.prems Inl by simp
  next
    case (Inr m)
    then show ?thesis using Cons by simp
  qed
qed simp

lemma error_ok_texts:
  "error_ok (400, ''Malformed HTTP request line'')" "error_ok (405, ''Only POST is supported'')"
  "error_ok (404, ''Only /query is supported'')" "error_ok (400, ''Missing Content-Length'')"
  "error_ok (413, ''Request body is too large'')"
  by (simp_all add: error_ok_def)

lemma scan_word_length: "scan_word n s = Some (w, r) \<Longrightarrow> w \<noteq> [] \<and> length w \<le> n"
  by (auto simp: scan_word_def Let_def split: if_splits)

lemma scan_version: "scan_request_line l = Some (m, p, v) \<Longrightarrow> v \<noteq> [] \<and> length v < HTTP_MAX_VERSION_SIZE"
  by (auto simp: scan_request_line_def HTTP_MAX_VERSION_SIZE_def split: bind_splits dest!: scan_word_length)

lemma http_head_outcome:
  "case http_head s of Inl e \<Rightarrow> error_ok e
   | Inr rq \<Rightarrow> rq_method rq = ''POST'' \<and> rq_path rq = ''/query'' \<and> rq_version rq \<noteq> [] \<and>
       length (rq_version rq) < HTTP_MAX_VERSION_SIZE \<and> rq_content_length rq \<le> HTTP_MAX_BODY_SIZE"
  by (auto simp: http_head_def error_ok_texts split: option.splits sum.splits prod.splits dest: header_loop_error scan_version)

lemma http_read_outcome:
  "case fst (http_read_request es) of Inl e \<Rightarrow> error_ok e
   | Inr rq \<Rightarrow> rq_method rq = ''POST'' \<and> rq_path rq = ''/query'' \<and> rq_version rq \<noteq> [] \<and>
       length (rq_version rq) < HTTP_MAX_VERSION_SIZE \<and> length (rq_body rq) = rq_content_length rq \<and>
       rq_content_length rq \<le> HTTP_MAX_BODY_SIZE"
proof -
  obtain h b es' where h: "read_until_header_end HTTP_MAX_REQUEST_SIZE [] es = (h, b, es')"
    by (cases "read_until_header_end HTTP_MAX_REQUEST_SIZE [] es") auto
  show ?thesis
  proof (cases h)
    case (Header_End i)
    let ?s = "takeWhile (\<lambda>c. c \<noteq> NUL) (take i b)"
    note o = http_head_outcome [of ?s]
    show ?thesis
    proof (cases "http_head ?s")
      case (Inl e)
      then show ?thesis using h Header_End o by (simp add: http_read_request_def)
    next
      case (Inr rq)
      let ?n = "rq_content_length rq"
      have "case fst (read_body ?n (take ?n (drop (i + 4) b)) es') of Inl e \<Rightarrow> error_ok e | Inr b \<Rightarrow> length b = ?n"
        by (rule read_body_outcome) simp
      then show ?thesis using h Header_End Inr o
        by (cases "read_body ?n (take ?n (drop (i + 4) b)) es'") (auto simp: http_read_request_def split: sum.splits)
    qed
  qed (use h in \<open>simp_all add: http_read_request_def error_ok_def\<close>)
qed

section \<open>Sending\<close>

lemma send_all_sent: "send_all s es = (ok, sent, es') \<Longrightarrow> \<exists>rest. s = sent @ rest \<and> (ok \<longrightarrow> rest = [])"
proof (induction s es arbitrary: ok sent es' rule: send_all.induct)
  case (5 c cs n es)
  show ?case
  proof (cases "n = 0")
    case False
    obtain ok1 sent1 es1 where r: "send_all (drop n (c # cs)) es = (ok1, sent1, es1)" by (cases "send_all (drop n (c # cs)) es") auto
    then obtain rest where rest: "drop n (c # cs) = sent1 @ rest" "ok1 \<longrightarrow> rest = []" using "5.IH" [OF False r] by blast
    have "c # cs = take n (c # cs) @ sent1 @ rest" unfolding rest(1) [symmetric] by simp
    moreover have "ok = ok1" "sent = take n (c # cs) @ sent1" using "5.prems" r False by auto
    ultimately show ?thesis using rest(2) by (intro exI [of _ rest]) simp
  qed (use "5.prems" in auto)
qed auto

text \<open>Without errors, whatever the sizes of the pieces, everything is sent.\<close>

definition sendable :: "send_event list \<Rightarrow> bool" where
  "sendable es \<longleftrightarrow> (\<forall>ev \<in> set es. ev = Send_Interrupted \<or> (\<exists>n > 0. ev = Sent n))"

lemma send_all_sendable: "sendable es \<Longrightarrow> \<exists>es'. send_all s es = (True, s, es') \<and> sendable es'"
proof (induction s es rule: send_all.induct)
  case (5 c cs n es)
  then have n: "0 < n" "sendable es" by (auto simp: sendable_def)
  then obtain es' where "send_all (drop n (c # cs)) es = (True, drop n (c # cs), es')" "sendable es'" using "5.IH" by auto
  moreover have "take n (c # cs) @ drop n (c # cs) = c # cs" by (rule append_take_drop_id)
  ultimately show ?case using n by simp
qed (auto simp: sendable_def)

text \<open>The response as it appears on the wire.\<close>

definition response_text :: "int \<Rightarrow> string \<Rightarrow> string \<Rightarrow> string" where
  "response_text status content_type body = response_header status content_type (length body) @ body"

lemma reason_length: "length (http_status_reason st) \<le> 21"
  by (simp add: http_status_reason_def)

lemma http_send_sent:
  assumes "http_send_response st (Some ct) (Some b) es = (ok, sent, es')"
  shows "\<exists>rest. response_text st ct b = sent @ rest \<and> (ok \<longrightarrow> rest = [])"
proof (cases "length (response_header st ct (length b)) \<ge> 512")
  case True
  then show ?thesis using assms by (simp add: http_send_response_def Let_def)
next
  case False
  let ?h = "response_header st ct (length b)"
  obtain ok1 sent1 es1 where h: "send_all ?h es = (ok1, sent1, es1)" by (cases "send_all ?h es") auto
  obtain r1 where r1: "?h = sent1 @ r1" "ok1 \<longrightarrow> r1 = []" using send_all_sent [OF h] by blast
  show ?thesis
  proof (cases ok1)
    case ok1: False
    then show ?thesis using assms h r1 False by (auto simp: http_send_response_def response_text_def Let_def)
  next
    case True
    obtain ok2 sent2 es2 where b: "send_all b es1 = (ok2, sent2, es2)" by (cases "send_all b es1") auto
    obtain r2 where r2: "b = sent2 @ r2" "ok2 \<longrightarrow> r2 = []" using send_all_sent [OF b] by blast
    have "response_text st ct b = sent @ r2" using assms h b r1 r2(1) True False
      by (simp add: http_send_response_def response_text_def Let_def)
    moreover have "ok = ok2" using assms h b True False by (simp add: http_send_response_def Let_def)
    ultimately show ?thesis using r2(2) by blast
  qed
qed

lemma http_send_sendable:
  assumes "sendable es" and "length (response_header st ct (length b)) < 512"
  shows "\<exists>es'. http_send_response st (Some ct) (Some b) es = (True, response_text st ct b, es')"
proof -
  obtain es1 where 1: "send_all (response_header st ct (length b)) es = (True, response_header st ct (length b), es1)" "sendable es1"
    using send_all_sendable [OF assms(1)] by blast
  obtain es2 where "send_all b es1 = (True, b, es2)" using send_all_sendable [OF 1(2)] by blast
  then show ?thesis using 1(1) assms(2) by (simp add: http_send_response_def response_text_def Let_def)
qed

section \<open>Well-formed requests\<close>

definition request_text :: "string \<Rightarrow> string" where
  "request_text body = ''POST /query HTTP/1.1'' @ CRLF @ ''Content-Length: '' @ show_nat (length body) @ CRLF @ CRLF @ body"

definition request_head :: "string \<Rightarrow> string" where
  "request_head body = ''POST /query HTTP/1.1'' @ CRLF @ ''Content-Length: '' @ show_nat (length body)"

lemma show_nat_clean: "isdigit c \<or> c \<notin> set (show_nat n)"
  using show_nat_digits by blast

lemma show_nat_no_control: "\<not> isdigit c \<Longrightarrow> c \<notin> set (show_nat n)"
  using show_nat_digits by blast

lemma find_request_text: "find_header_end (request_text body @ t) = Some (length (request_head body))"
proof -
  have "CHR 0x0D \<notin> set (show_nat (length body))" by (rule show_nat_no_control) (simp add: isdigit_def)
  then have "find_header_end (show_nat (length body) @ CRLF @ CRLF @ body @ t) = Some (length (show_nat (length body)))"
    by (simp add: find_header_end_skips)
  then show ?thesis by (simp add: request_text_def request_head_def find_header_end_skip)
qed

lemma header_lines_one:
  assumes "\<forall>c \<in> set l. line_char c" and "l \<noteq> []"
  shows "header_lines l = [l]"
proof -
  obtain c cs where l: "l = c # cs" using assms(2) by (cases l) auto
  have "takeWhile line_char l = l" "dropWhile line_char l = []" using assms(1) by simp_all
  moreover have "dropWhile (\<lambda>c. \<not> line_char c) l = l" using assms(1) l by simp
  moreover have "header_lines [] = []" by (subst header_lines.simps) simp
  ultimately show ?thesis using l by (subst header_lines.simps) simp
qed

lemma strtoul_show_nat:
  assumes "int n \<le> ULONG_MAX"
  shows "strtoul (show_nat n) = (int n, [])"
proof -
  have all: "\<And>c. c \<in> set (show_nat n) \<Longrightarrow> isdigit c" using show_nat_digits by blast
  obtain c cs where c: "show_nat n = c # cs" by (cases "show_nat n") auto
  then have "isdigit c" using all by simp
  then have "dropWhile isspace (show_nat n) = show_nat n" "peek (show_nat n) \<noteq> CHR ''-''" "peek (show_nat n) \<noteq> CHR ''+''"
    using c not_space_digit not_sign_digit by auto
  moreover have "takeWhile isdigit (show_nat n) = show_nat n" "dropWhile isdigit (show_nat n) = []" using all by simp_all
  ultimately show ?thesis using assms
    by (simp add: strtoul_def Let_def del: takeWhile_eq_all_conv dropWhile_eq_Nil_conv)
qed

lemma header_line_length:
  assumes "int n \<le> ULONG_MAX"
  shows "header_line (''Content-Length: '' @ show_nat n) x = Inr (Some n)"
proof -
  obtain c cs where c: "show_nat n = c # cs" by (cases "show_nat n") auto
  then have "isdigit c" using show_nat_digits [of n] by simp
  then have "dropWhile isspace (show_nat n) = show_nat n" using c not_space_digit by simp
  moreover have "[] \<noteq> show_nat n" using c by simp
  ultimately show ?thesis using strtoul_show_nat [OF assms]
    by (simp add: header_line_def Let_def strcaseeq_def isspace_def)
qed

lemma http_head_request:
  assumes "length body \<le> HTTP_MAX_BODY_SIZE"
  shows "http_head (request_head body) = Inr \<lparr>rq_method = ''POST'', rq_path = ''/query'', rq_version = ''HTTP/1.1'',
    rq_content_length = length body, rq_body = []\<rparr>"
proof -
  let ?l = "''Content-Length: '' @ show_nat (length body)"
  have "CHR 0x0D \<notin> set (show_nat (length body))" "CHR 0x0A \<notin> set (show_nat (length body))"
    by (rule show_nat_no_control, simp add: isdigit_def)+
  then have "\<forall>c \<in> set ?l. line_char c" by (auto simp: line_char_def)
  then have lines: "header_lines ?l = [?l]" by (rule header_lines_one) simp
  have "int (length body) \<le> ULONG_MAX" using assms by (simp add: HTTP_MAX_BODY_SIZE_def ULONG_MAX_def)
  note hl = header_line_length [OF this]
  have split: "split_crlf (request_head body) = Some (''POST /query HTTP/1.1'', ?l)" by (simp add: request_head_def)
  have scan: "scan_request_line ''POST /query HTTP/1.1'' = Some (''POST'', ''/query'', ''HTTP/1.1'')" by code_simp
  show ?thesis using assms lines hl unfolding http_head_def split option.case prod.case scan by simp
qed

lemma http_parse_request:
  assumes "length body \<le> HTTP_MAX_BODY_SIZE"
  shows "http_parse (request_text body @ t) = Inr \<lparr>rq_method = ''POST'', rq_path = ''/query'', rq_version = ''HTTP/1.1'',
    rq_content_length = length body, rq_body = body\<rparr>"
proof -
  let ?h = "request_head body"
  have tt: "request_text body @ t = ?h @ CRLF @ CRLF @ body @ t" by (simp add: request_text_def request_head_def)
  have "NUL \<notin> set (show_nat (length body))" by (rule show_nat_no_control) (simp add: isdigit_def)
  then have "\<forall>c \<in> set ?h. c \<noteq> NUL" by (auto simp: request_head_def)
  then have tw: "takeWhile (\<lambda>c. c \<noteq> NUL) ?h = ?h" by (simp only: takeWhile_eq_all_conv)
  have d: "drop (length ?h + 4) (request_text body @ t) = body @ t" unfolding tt by simp
  have tk: "take (length ?h) (request_text body @ t) = ?h" unfolding tt by simp
  have "length (show_nat (length body)) \<le> 4"
    using show_nat_length [of "length body" 3] assms by (simp add: HTTP_MAX_BODY_SIZE_def)
  then have "length ?h + 4 \<le> HTTP_MAX_REQUEST_SIZE" by (simp add: request_head_def HTTP_MAX_REQUEST_SIZE_def)
  moreover obtain s where s: "s = request_text body @ t" by blast
  ultimately show ?thesis using http_head_request [OF assms] find_request_text [of body t]
    unfolding http_parse_def s [symmetric]
    by (simp add: tk [folded s] d [folded s] tw del: takeWhile_eq_all_conv)
qed

end
