(* ===== verification/Server_Correct.thy ===== *)
theory Server_Correct
  imports Server_Client Http_Correct Api_Props Repl_Props
begin

text \<open>
  The handling of a client, a sequence of clients, the creation of a server and its accept loop:
  what they return and send, and what becomes of the table, under any failures.
\<close>

section \<open>Responses\<close>

lemma response_header_short:
  assumes "number_ok st" and "length ct \<le> 100" and "n < TEXT_LIMIT"
  shows "length (response_header st ct n) < 512"
proof -
  have "length (show_nat n) \<le> 19" using show_nat_length [of n 18] assms(3) by (simp add: TEXT_LIMIT_def)
  moreover have "length (show_int st) \<le> 11" using assms(1) by (rule show_int_length)
  ultimately show ?thesis using assms(2) reason_length [of st] by (simp add: response_header_def)
qed

lemma send_json:
  assumes "sendable ss" and "number_ok st" and "length b < TEXT_LIMIT"
  shows "\<exists>ss'. http_send_response st (Some json_content_type) (Some b) ss = (True, response_text st json_content_type b, ss')"
proof -
  have "length json_content_type \<le> 100" by (simp add: json_content_type_def)
  from http_send_sendable [OF assms(1) response_header_short [OF assms(2) this assms(3)]] show ?thesis .
qed

definition error_body :: "string \<Rightarrow> string \<Rightarrow> string" where
  "error_body status message =
     json_text (''{'' @ q1 @ ''ok'' @ q1 @ '':false,'' @ q1 @ ''status'' @ q1 @ '':'') @ json_quote status
     @ json_text ('','' @ q1 @ ''message'' @ q1 @ '':'') @ json_quote message @ ''}''"

lemma error_body_length:
  assumes "length status \<le> 1000" and "length message \<le> 1000"
  shows "length (error_body status message) < TEXT_LIMIT"
  using json_escape_length [of status] json_escape_length [of message] assms
  by (simp add: error_body_def json_quote_def TEXT_LIMIT_def)

lemma error_body_cases:
  assumes "length status \<le> 1000" and "length message \<le> 1000"
  shows "\<exists>body e'. server_build_error_body status message e = Some (body, e') \<and>
    (\<forall>cells. body = Some cells \<longrightarrow> c_string cells = Some (error_body status message)) \<and>
    (all_succeed e \<longrightarrow> body \<noteq> None \<and> all_succeed e')"
proof -
  let ?w = "json_then (\<lambda>b. json_buffer_append b (Some (json_text (''{'' @ q1 @ ''ok'' @ q1 @ '':false,'' @ q1 @ ''status'' @ q1 @ '':''))))
     (json_then (\<lambda>b. json_buffer_append_json_string b (Some status))
     (json_then (\<lambda>b. json_buffer_append b (Some (json_text ('','' @ q1 @ ''message'' @ q1 @ '':''))))
     (json_then (\<lambda>b. json_buffer_append_json_string b (Some message)) (\<lambda>b. json_buffer_append b (Some ''}'')))))"
  have w: "json_writer ?w (error_body status message)" unfolding error_body_def
    by (rule json_thenI [OF ap.json_writer_axioms json_thenI [OF js.json_writer_axioms json_thenI [OF ap.json_writer_axioms
          json_thenI [OF js.json_writer_axioms ap.json_writer_axioms refl] refl] refl]]) simp
  have nul: "NUL \<notin> set (error_body status message)" using json_quote_no_NUL by (simp add: error_body_def)
  obtain ok b e1 where i: "json_buffer_init (Some \<lparr>jb_data = None, jb_len = 0, jb_cap = 0\<rparr>) 128 e = Some (ok, Some b, e1)"
    "ok \<longrightarrow> json_holds (Some b) []" "all_succeed e \<longrightarrow> ok \<and> all_succeed e1"
    using json_init_ok [of 128 "\<lparr>jb_data = None, jb_len = 0, jb_cap = 0\<rparr>" e] by auto
  show ?thesis
  proof (cases ok)
    case False
    then show ?thesis using i by (auto simp: server_build_error_body_def)
  next
    case True
    obtain ok2 b2 s2 e2 where w2: "?w (Some b) e1 = Some (ok2, b2, e2)" "json_holds b2 s2" "ok2 \<longrightarrow> s2 = error_body status message"
      "all_succeed e1 \<longrightarrow> ok2 \<and> all_succeed e2"
      using json_writer.jw_step [OF w i(2) [rule_format, OF True], of e1] error_body_length [OF assms] by auto
    have b: "server_build_error_body status message e = Some (if ok2 then fst (json_buffer_detach b2) else None, e2)"
      using i(1) w2(1) True by (simp add: server_build_error_body_def)
    obtain cells b3 where "ok2 \<longrightarrow> json_buffer_detach b2 = (Some cells, b3) \<and> c_string cells = Some (error_body status message)"
      using detach_holds [OF w2(2)] w2(3) nul by auto
    then show ?thesis unfolding b using i(3) w2(4) by auto
  qed
qed

text \<open>An error response: never more than a prefix of it is sent, and all of it when nothing fails.\<close>

definition response_sent :: "int \<Rightarrow> string \<Rightarrow> bool \<Rightarrow> string \<Rightarrow> bool" where
  "response_sent st body complete sent \<longleftrightarrow>
     (\<exists>rest. response_text st json_content_type body = sent @ rest \<and> (complete \<longrightarrow> rest = []))"

lemma send_error_cases:
  assumes "length status \<le> 1000" and "length message \<le> 1000" and "number_ok st"
  shows "\<exists>sent e'. send_error_body st status message ss e = Some (sent, e') \<and>
    response_sent st (error_body status message) (all_succeed e \<and> sendable ss) sent \<and> (all_succeed e \<longrightarrow> all_succeed e')"
proof -
  obtain body e' where b: "server_build_error_body status message e = Some (body, e')"
    "\<forall>cells. body = Some cells \<longrightarrow> c_string cells = Some (error_body status message)" "all_succeed e \<longrightarrow> body \<noteq> None \<and> all_succeed e'"
    using error_body_cases [OF assms(1,2)] by blast
  show ?thesis
  proof (cases body)
    case None
    then show ?thesis using b by (simp add: send_error_body_def response_sent_def)
  next
    case (Some cells)
    obtain ok sent ss' where s: "http_send_response st (Some json_content_type) (Some (error_body status message)) ss = (ok, sent, ss')"
      by (cases "http_send_response st (Some json_content_type) (Some (error_body status message)) ss") auto
    obtain rest where rest: "response_text st json_content_type (error_body status message) = sent @ rest" "ok \<longrightarrow> rest = []"
      using http_send_sent [OF s] by blast
    have "ok" if ss: "sendable ss"
      using send_json [OF ss assms(3) error_body_length [OF assms(1,2)]] s by simp
    then have "response_sent st (error_body status message) (all_succeed e \<and> sendable ss) sent"
      unfolding response_sent_def using rest by blast
    then show ?thesis using b Some s by (simp add: send_error_body_def)
  qed
qed

section \<open>Queries over the wire\<close>

lemma client_accepted:
  assumes "fst (http_read_request es) = Inr rq"
    and "api_handle_query (Some t) (Some (takeWhile (\<lambda>c. c \<noteq> NUL) (rq_body rq))) (Some \<lparr>http_status = 0, api_body = None\<rparr>) e =
      Some (True, Some \<lparr>http_status = st, api_body = Some cells\<rparr>, t', e')"
    and "c_string cells = Some b" and "http_send_response st (Some json_content_type) (Some b) ss = (ok, sent, ss')"
  shows "server_handle_client t es ss e = Some (t', sent, e')"
  using assms by (simp add: server_handle_client_def)

lemma client_error:
  assumes "fst (http_read_request es) = Inl (st, message)"
  shows "\<exists>sent e'. server_handle_client t es ss e = Some (Some t, sent, e') \<and>
    response_sent st (error_body (server_http_error_status_name st) message) (all_succeed e \<and> sendable ss) sent \<and>
    (all_succeed e \<longrightarrow> all_succeed e')"
proof -
  have e: "error_ok (st, message)" using http_read_outcome [of es] assms by simp
  then have m: "set_error 128 message = message" "message \<noteq> []" "length message \<le> 1000" "number_ok st"
    by (auto simp: error_ok_def set_error_def bounded_id number_ok_def INT_MIN_def INT_MAX_def)
  have "length (server_http_error_status_name st) \<le> 1000" by (simp add: server_http_error_status_name_def)
  from send_error_cases [OF this m(3,4), of ss e] show ?thesis
    using assms m(1,2) by (auto simp: server_handle_client_def Let_def)
qed

section \<open>A sequence of clients\<close>

text \<open>The abstract server: what a client that delivers some events is answered, and the next abstract
  database. A request that cannot be read gets its error, and any other the answer to its body.\<close>

definition client_reply :: "recv_event list \<Rightarrow> int \<times> Record list \<Rightarrow> string \<times> int \<times> Record list" where
  "client_reply es db =
     (case fst (http_read_request es) of
        Inl (status, message) \<Rightarrow>
          (response_text status json_content_type (error_body (server_http_error_status_name status) message), db)
      | Inr request \<Rightarrow>
          (case query_answer (takeWhile (\<lambda>c. c \<noteq> NUL) (rq_body request)) db of ((status, body), db') \<Rightarrow>
             (response_text status json_content_type body, db')))"

fun client_replies :: "recv_event list list \<Rightarrow> int \<times> Record list \<Rightarrow> string list \<times> int \<times> Record list" where
  "client_replies [] db = ([], db)"
| "client_replies (es # conns) db =
     (case client_reply es db of (r, db1) \<Rightarrow> case client_replies conns db1 of (rs, db2) \<Rightarrow> (r # rs, db2))"

lemma handle_client_reply:
  assumes "sendable ss" and "db_rep t (n, us)" and "n < INT_MAX" and "\<forall>u \<in> set us. user_fits u" and "all_succeed e"
  shows "\<exists>t' e'. server_handle_client t es ss e = Some (Some t', fst (client_reply es (n, us)), e') \<and>
    db_rep t' (snd (client_reply es (n, us))) \<and> all_succeed e'"
proof (cases "fst (http_read_request es)")
  case (Inl error)
  then obtain status message where r: "fst (http_read_request es) = Inl (status, message)" by (cases error) simp
  show ?thesis using client_error [OF r, of t ss e] r assms(1,2,5) by (auto simp: response_sent_def client_reply_def)
next
  case (Inr rq)
  let ?s = "takeWhile (\<lambda>c. c \<noteq> NUL) (rq_body rq)"
  obtain st b n' us' where q: "query_answer ?s (n, us) = ((st, b), n', us')" by (metis prod.collapse)
  obtain cells t' e' where a: "api_handle_query (Some t) (Some ?s) (Some \<lparr>http_status = 0, api_body = None\<rparr>) e =
      Some (True, Some \<lparr>http_status = st, api_body = Some cells\<rparr>, Some t', e')" "c_string cells = Some b" "db_rep t' (n', us')" "all_succeed e'"
    using api_answers_query [OF assms(2,3,5,4) q, of "\<lparr>http_status = 0, api_body = None\<rparr>"] by blast
  note fits = query_answer_fits [OF assms(2,3,4) q]
  obtain ss' where "http_send_response st (Some json_content_type) (Some b) ss = (True, response_text st json_content_type b, ss')"
    using send_json [OF assms(1), of st b] fits by blast
  from client_accepted [OF Inr a(1,2) this] show ?thesis using Inr q a(3,4) by (simp add: client_reply_def)
qed

lemma client_reply_fits:
  assumes "db_rep t (n, us)" and "n < INT_MAX" and "\<forall>u \<in> set us. user_fits u" and "snd (client_reply es (n, us)) = (n', us')"
  shows "(\<forall>u \<in> set us'. user_fits u) \<and> n' \<le> n + 1"
proof (cases "fst (http_read_request es)")
  case (Inr rq)
  obtain st b n1 us1 where q: "query_answer (takeWhile (\<lambda>c. c \<noteq> NUL) (rq_body rq)) (n, us) = ((st, b), n1, us1)" by (metis prod.collapse)
  from query_answer_fits [OF assms(1-3) q] show ?thesis using q Inr assms(4) by (simp add: client_reply_def)
qed (use assms(3,4) in \<open>auto simp: client_reply_def split: prod.splits\<close>)

lemma serve_clients_replies:
  assumes "\<forall>(es, ss) \<in> set conns. sendable ss" and "db_rep t (n, us)" and "n + int (length conns) \<le> INT_MAX"
    and "\<forall>u \<in> set us. user_fits u" and "all_succeed e"
  shows "\<exists>t' e'. serve_clients t conns e = Some (t', fst (client_replies (map fst conns) (n, us)), e') \<and>
    db_rep t' (snd (client_replies (map fst conns) (n, us))) \<and> all_succeed e'"
  using assms
proof (induction conns arbitrary: t n us e)
  case (Cons c conns)
  obtain es ss where conns: "c = (es, ss)" by (cases c)
  have c: "sendable ss" "\<forall>(es, ss) \<in> set conns. sendable ss" using Cons.prems(1) conns by auto
  have lt: "n < INT_MAX" using Cons.prems(3) by simp
  obtain t1 e1 where h: "server_handle_client t es ss e = Some (Some t1, fst (client_reply es (n, us)), e1)"
    "db_rep t1 (snd (client_reply es (n, us)))" "all_succeed e1"
    using handle_client_reply [OF c(1) Cons.prems(2) lt Cons.prems(4,5)] by blast
  obtain r n1 us1 where r: "client_reply es (n, us) = (r, n1, us1)" by (cases "client_reply es (n, us)") auto
  have fits: "\<forall>u \<in> set us1. user_fits u" "n1 \<le> n + 1"
    using client_reply_fits [OF Cons.prems(2) lt Cons.prems(4), of es] r by simp_all
  have rep: "db_rep t1 (n1, us1)" using h(2) r by simp
  have le: "n1 + int (length conns) \<le> INT_MAX" using fits(2) Cons.prems(3) by simp
  obtain t2 e2 where s: "serve_clients t1 conns e1 = Some (t2, fst (client_replies (map fst conns) (n1, us1)), e2)"
    "db_rep t2 (snd (client_replies (map fst conns) (n1, us1)))" "all_succeed e2"
    using Cons.IH [OF c(2) rep le fits(1) h(3)] by blast
  have "serve_clients t (c # conns) e = Some (t2, r # fst (client_replies (map fst conns) (n1, us1)), e2)" using h(1) s(1) r conns by simp
  moreover have "client_replies (map fst (c # conns)) (n, us) =
      (r # fst (client_replies (map fst conns) (n1, us1)), snd (client_replies (map fst conns) (n1, us1)))"
    using r conns by (simp add: split_beta)
  ultimately show ?case using s(2,3) by simp
qed simp

text \<open>A request whose body is the text of a statement is answered as the abstract database answers the
  statement, in whatever pieces the network delivers it. Bytes behind the announced length are not read.\<close>

lemma query_answer_render:
  assumes "stmt_ok st"
  shows "query_answer (takeWhile (\<lambda>c. c \<noteq> NUL) (render st)) db =
    ((if st = St_Exit then 400 else 200, answer_json (fst (db_exec st db))), snd (db_exec st db))"
proof -
  have "\<forall>c \<in> set (render st). c \<noteq> NUL" using render_no_NUL [OF assms] by auto
  then have body: "takeWhile (\<lambda>c. c \<noteq> NUL) (render st) = render st" by (simp only: takeWhile_eq_all_conv)
  have "parsed (sql_parse (Some (render st)))" "command (sql_parse (Some (render st))) = stmt_command st"
    using sql_parse_render [OF assms, of "[]"] by simp_all
  then show ?thesis unfolding body
    by (simp add: query_answer_def Let_def command_stmt_command del: render.simps stmt_command.simps answer_json.simps)
qed

lemma client_reply_body:
  assumes "fst (http_read_request es) = Inr rq" and "rq_body rq = render st" and "stmt_ok st"
  shows "client_reply es db =
    (response_text (if st = St_Exit then 400 else 200) json_content_type (answer_json (fst (db_exec st db))), snd (db_exec st db))"
  unfolding client_reply_def assms(1,2) query_answer_render [OF assms(3)] sum.case prod.case by simp

lemma client_reply_statement:
  assumes "stmt_ok st" and "clean es" and "stream es = request_text (render st) @ extra"
  shows "client_reply es db =
    (response_text (if st = St_Exit then 400 else 200) json_content_type (answer_json (fst (db_exec st db))), snd (db_exec st db))"
proof -
  have "length (render st) \<le> HTTP_MAX_BODY_SIZE" using render_short [OF assms(1)] by (simp add: HTTP_MAX_BODY_SIZE_def)
  then have "fst (http_read_request es) = Inr \<lparr>rq_method = ''POST'', rq_path = ''/query'', rq_version = ''HTTP/1.1'',
      rq_content_length = length (render st), rq_body = render st\<rparr>"
    using read_request_stream [OF assms(2)] http_parse_request assms(3) by simp
  from client_reply_body [OF this _ assms(1)] show ?thesis by simp
qed

section \<open>Creation and destruction\<close>

lemma join_workers_succeeds: "all_succeed e \<Longrightarrow> \<exists>e'. join_workers n e = Some e' \<and> all_succeed e'"
proof (induction n arbitrary: e)
  case (Suc n)
  obtain ok e1 where "env_next e = (ok, e1)" by (cases "env_next e")
  then show ?case using Suc env_next_succeed by fastforce
qed simp

text \<open>The creation of the workers does not return only when a worker has been created and another one
  has not.\<close>

lemma create_workers_cases:
  "(create_workers index n e = None \<longrightarrow> 0 < n \<and> 0 < index + (n - 1) \<and> \<not> all_succeed e) \<and>
   (all_succeed e \<longrightarrow> (\<exists>e'. create_workers index n e = Some (True, e') \<and> all_succeed e'))"
proof (induction n arbitrary: index e)
  case (Suc n)
  obtain ok e1 where 1: "env_next e = (ok, e1)" by (cases "env_next e")
  show ?case
  proof (cases ok)
    case True
    then show ?thesis using 1 Suc.IH [of "Suc index" e1] env_next_succeed [OF 1] by auto
  next
    case False
    then show ?thesis using 1 env_next_succeed [OF 1] by (cases index) (auto split: bind_splits)
  qed
qed simp

lemma server_make_listen_socket_cases:
  assumes "server_make_listen_socket e = (ok, fds, e')"
  shows "fds = (if ok then 1 else 0)" and "all_succeed e \<longrightarrow> ok"
proof -
  obtain ok1 e1 where 1: "env_next e = (ok1, e1)" by (cases "env_next e")
  obtain ok2 e2 where 2: "env_next e1 = (ok2, e2)" by (cases "env_next e1")
  obtain ok3 e3 where 3: "env_next e2 = (ok3, e3)" by (cases "env_next e2")
  show "fds = (if ok then 1 else 0)" "all_succeed e \<longrightarrow> ok"
    using env_next_succeed [OF 1] env_next_succeed [OF 2] env_next_succeed [OF 3] 1 2 3 assms
    by (auto simp: server_make_listen_socket_def split: if_splits)
qed

definition pool_ready :: "ServerConfig \<Rightarrow> ThreadPool \<Rightarrow> bool" where
  "pool_ready cfg p \<longleftrightarrow> tp_worker_count p = cfg_worker_count cfg \<and> tp_queue_capacity p = cfg_queue_capacity cfg \<and>
     0 < tp_worker_count p \<and> 0 < tp_queue_capacity p \<and> tp_size p = 0 \<and> \<not> tp_stop_requested p"

lemma thread_pool_prepare_cases:
  assumes "thread_pool_prepare (cfg_worker_count cfg) (cfg_queue_capacity cfg) True e = (r, e')"
  shows "r = Some p \<longrightarrow> pool_ready cfg p"
    and "all_succeed e \<and> cfg_worker_count cfg \<noteq> 0 \<and> cfg_queue_capacity cfg \<noteq> 0 \<longrightarrow> r \<noteq> None \<and> all_succeed e'"
proof -
  obtain ok1 e1 where 1: "env_next e = (ok1, e1)" by (cases "env_next e")
  obtain ok2 e2 where 2: "env_next e1 = (ok2, e2)" by (cases "env_next e1")
  obtain ok3 e3 where 3: "env_next e2 = (ok3, e3)" by (cases "env_next e2")
  obtain ok4 e4 where 4: "env_next e3 = (ok4, e4)" by (cases "env_next e3")
  show "r = Some p \<longrightarrow> pool_ready cfg p"
    "all_succeed e \<and> cfg_worker_count cfg \<noteq> 0 \<and> cfg_queue_capacity cfg \<noteq> 0 \<longrightarrow> r \<noteq> None \<and> all_succeed e'"
    using env_next_succeed [OF 1] env_next_succeed [OF 2] env_next_succeed [OF 3] env_next_succeed [OF 4] 1 2 3 4 assms
    by (auto simp: thread_pool_prepare_def pool_ready_def split: if_splits)
qed

lemma thread_pool_init_cases:
  fixes cfg e
  defines "r \<equiv> thread_pool_init (cfg_worker_count cfg) (cfg_queue_capacity cfg) True e"
  shows "r = None \<longrightarrow> 1 < cfg_worker_count cfg \<and> \<not> all_succeed e"
    and "r = Some (Some p, e') \<longrightarrow> pool_ready cfg p \<and> (\<exists>e1. thread_pool_prepare (cfg_worker_count cfg) (cfg_queue_capacity cfg) True e = (Some p, e1))"
    and "all_succeed e \<and> cfg_worker_count cfg \<noteq> 0 \<and> cfg_queue_capacity cfg \<noteq> 0 \<longrightarrow> (\<exists>p e'. r = Some (Some p, e') \<and> all_succeed e')"
proof -
  obtain q e1 where 1: "thread_pool_prepare (cfg_worker_count cfg) (cfg_queue_capacity cfg) True e = (q, e1)"
    by (cases "thread_pool_prepare (cfg_worker_count cfg) (cfg_queue_capacity cfg) True e")
  note p = thread_pool_prepare_cases [OF 1]
  have e1: "\<not> all_succeed e" if "\<not> all_succeed e1"
    using that 1 by (auto simp: thread_pool_prepare_def split: if_splits prod.splits dest: env_next_succeed)
  note c = create_workers_cases [of 0 "cfg_worker_count cfg" e1]
  show "r = None \<longrightarrow> 1 < cfg_worker_count cfg \<and> \<not> all_succeed e"
    using c e1 by (cases q) (auto simp: r_def thread_pool_init_def 1 split: bind_splits)
  show "r = Some (Some p, e') \<longrightarrow> pool_ready cfg p \<and> (\<exists>e1. thread_pool_prepare (cfg_worker_count cfg) (cfg_queue_capacity cfg) True e = (Some p, e1))"
    using p(1) 1 by (cases q) (auto simp: r_def thread_pool_init_def split: bind_splits if_splits)
  show "all_succeed e \<and> cfg_worker_count cfg \<noteq> 0 \<and> cfg_queue_capacity cfg \<noteq> 0 \<longrightarrow> (\<exists>p e'. r = Some (Some p, e') \<and> all_succeed e')"
    using c p(2) by (cases q) (auto simp: r_def thread_pool_init_def 1)
qed

text \<open>A server that is ready to run: an intact empty table, an idle pool, a listening socket.\<close>

definition server_ready :: "ServerConfig \<Rightarrow> Server \<Rightarrow> bool" where
  "server_ready cfg s \<longleftrightarrow> sv_config s = cfg \<and> sv_initialized s \<and> sv_listen s \<and>
     (\<exists>t. sv_table s = Some t \<and> db_rep t (1, [])) \<and> (\<exists>p. sv_pool s = Some p \<and> pool_ready cfg p)"

text \<open>What creating a server leads to, for all outcomes of its calls.\<close>

definition creation_ok :: "ServerConfig \<Rightarrow> bool \<Rightarrow> (Server option \<times> (nat \<rightharpoonup> Record) \<times> nat \<times> env) option \<Rightarrow> bool" where
  "creation_ok cfg succeeds r \<longleftrightarrow>
     (case r of
        None \<Rightarrow> 1 < cfg_worker_count cfg \<and> \<not> succeeds
      | Some (sv, h, fds, e') \<Rightarrow>
          (case sv of
             None \<Rightarrow> h = Map.empty \<and> fds = 0 \<and> (succeeds \<longrightarrow> cfg_worker_count cfg = 0 \<or> cfg_queue_capacity cfg = 0)
           | Some s \<Rightarrow> server_ready cfg s \<and> fds = 1 \<and> server_destroy (Some s) fds = Some (Map.empty, 0) \<and>
               (succeeds \<longrightarrow> all_succeed e')))"

lemma server_create_cases: "creation_ok cfg (all_succeed e) (server_create (Some cfg) e)"
proof -
  obtain ok1 e1 where 1: "env_next e = (ok1, e1)" by (cases "env_next e")
  obtain r e2 where 2: "table_create e1 = Some (r, e2)" "r = None \<or> r = Some (table_upto 16)" "all_succeed e1 \<longrightarrow> r \<noteq> None \<and> all_succeed e2"
    using table_create_cases [of e1] by blast
  have d: "table_destroy (Some (table_upto 16)) = Some Map.empty" using table_destroy_ok table_upto_models by blast
  show ?thesis
  proof (cases "ok1 \<and> r \<noteq> None")
    case False
    then show ?thesis using 1 2 env_next_succeed [OF 1] by (cases ok1) (auto simp: server_create_def creation_ok_def)
  next
    case True
    then have r: "r = Some (table_upto 16)" using 2(2) by auto
    have e2: "all_succeed e \<longrightarrow> all_succeed e2" using 2(3) env_next_succeed [OF 1] by blast
    let ?init = "thread_pool_init (cfg_worker_count cfg) (cfg_queue_capacity cfg) True e2"
    note init = thread_pool_init_cases [where cfg = cfg and e = e2]
    show ?thesis
    proof (cases ?init)
      case None
      then show ?thesis using 1 2(1) True r init(1) e2 by (auto simp: server_create_def creation_ok_def)
    next
      case (Some pe)
      then obtain p e3 where p: "?init = Some (p, e3)" by (cases pe) simp
      show ?thesis
      proof (cases p)
        case None
        then show ?thesis using 1 2(1) True r p init(3) e2 d by (auto simp: server_create_def creation_ok_def)
      next
        case (Some q)
        obtain ok4 fds e4 where 4: "server_make_listen_socket e3 = (ok4, fds, e4)" by (cases "server_make_listen_socket e3")
        note c = server_make_listen_socket_cases [OF 4]
        have q: "pool_ready cfg q" using init(2) [where p = q and e' = e3] p Some by simp
        then have sizes: "cfg_worker_count cfg \<noteq> 0 \<and> cfg_queue_capacity cfg \<noteq> 0" by (auto simp: pool_ready_def)
        have e3: "all_succeed e \<longrightarrow> all_succeed e3" using init(3) p Some e2 sizes by auto
        have e4: "all_succeed e3 \<longrightarrow> all_succeed e4"
          using 4 unfolding server_make_listen_socket_def by (auto split: prod.splits if_splits dest: env_next_succeed)
        let ?s = "\<lparr>sv_listen = True, sv_table = Some (table_upto 16), sv_pool = Some q, sv_config = cfg, sv_initialized = True\<rparr>"
        have rep: "db_rep (table_upto 16) (1, [])" using table_upto_models by (simp add: db_rep_def)
        have "server_create (Some cfg) e =
          Some (if ok4 then (Some ?s, rec_heap (table_upto 16), 1, e4) else (None, Map.empty, 0, e4))"
          using 1 2(1) True r p Some 4 c(1) d by (auto simp: server_create_def)
        moreover have "server_ready cfg ?s" using rep q by (simp add: server_ready_def)
        moreover have "server_destroy (Some ?s) 1 = Some (Map.empty, 0)" using d by (simp add: server_destroy_def)
        ultimately show ?thesis using c(2) e3 e4 by (auto simp: creation_ok_def)
      qed
    qed
  qed
qed

section \<open>The accept loop\<close>

text \<open>The connections that are accepted before the loop ends, and where each descriptor ends up.\<close>

fun accepted :: "accept_event list \<Rightarrow> int list" where
  "accepted [] = []"
| "accepted (Connection fd _ _ # evs) = fd # accepted evs"
| "accepted (Accept_Interrupted # evs) = accepted evs"
| "accepted (_ # evs) = []"

fun handed_over :: "server_action \<Rightarrow> int list" where
  "handed_over (To_Pool fd) = [fd]"
| "handed_over (Close fd) = [fd]"
| "handed_over _ = []"

fun refusal_ok :: "bool \<Rightarrow> server_action \<Rightarrow> bool" where
  "refusal_ok complete (Refused fd sent) \<longleftrightarrow> response_sent 503 (error_body ''queue_full'' ''Server is busy'') complete sent"
| "refusal_ok complete _ \<longleftrightarrow> True"

lemma refuse_client:
  "\<exists>sent e'. send_error_body 503 ''queue_full'' ''Server is busy'' ss e = Some (sent, e') \<and>
    response_sent 503 (error_body ''queue_full'' ''Server is busy'') (all_succeed e \<and> sendable ss) sent \<and> (all_succeed e \<longrightarrow> all_succeed e')"
  by (rule send_error_cases) (simp_all add: number_ok_def INT_MIN_def INT_MAX_def)

lemma response_sent_mono: "response_sent st b c sent \<Longrightarrow> (c' \<Longrightarrow> c) \<Longrightarrow> response_sent st b c' sent"
  by (auto simp: response_sent_def)

definition clients_receive :: "accept_event list \<Rightarrow> bool" where
  "clients_receive evs \<longleftrightarrow> (\<forall>fd submitted ss. Connection fd submitted ss \<in> set evs \<longrightarrow> sendable ss)"

lemma server_run_loop_actions:
  "\<exists>as e'. server_run_loop evs e = Some (as, e') \<and> concat (map handed_over as) = accepted evs \<and>
    (\<forall>a \<in> set as. refusal_ok (all_succeed e \<and> clients_receive evs) a)"
proof (induction evs arbitrary: e)
  case (Cons ev evs)
  show ?case
  proof (cases ev)
    case (Connection fd submitted ss)
    obtain ok e0 where t: "server_set_client_socket_timeouts e = (ok, e0)" by (cases "server_set_client_socket_timeouts e")
    have e0: "all_succeed e \<longrightarrow> all_succeed e0"
      using t by (auto simp: server_set_client_socket_timeouts_def split: prod.splits if_splits dest: env_next_succeed)
    have ss: "clients_receive (ev # evs) \<longrightarrow> sendable ss \<and> clients_receive evs" using Connection by (auto simp: clients_receive_def)
    obtain sent e1 where s: "send_error_body 503 ''queue_full'' ''Server is busy'' ss e0 = Some (sent, e1)"
      "response_sent 503 (error_body ''queue_full'' ''Server is busy'') (all_succeed e0 \<and> sendable ss) sent" "all_succeed e0 \<longrightarrow> all_succeed e1"
      using refuse_client by blast
    define e2 where "e2 = (if ok \<and> \<not> submitted then e1 else e0)"
    define now where "now = (if \<not> ok then [Close fd] else if submitted then [To_Pool fd] else [Refused fd sent, Close fd])"
    obtain as e' where r: "server_run_loop evs e2 = Some (as, e')" "concat (map handed_over as) = accepted evs"
      "\<forall>a \<in> set as. refusal_ok (all_succeed e2 \<and> clients_receive evs) a"
      using Cons.IH by blast
    have "server_run_loop (ev # evs) e = Some (now @ as, e')"
      using Connection t s(1) r(1) by (cases ok; cases submitted; simp add: e2_def now_def)
    moreover have "concat (map handed_over (now @ as)) = accepted (ev # evs)" using Connection r(2) by (simp add: now_def)
    moreover have "refusal_ok (all_succeed e \<and> clients_receive (ev # evs)) a" if "a \<in> set (now @ as)" for a
    proof (cases "\<exists>fd' sent'. a = Refused fd' sent'")
      case True
      then show ?thesis using that r(3) s(2,3) e0 ss
        by (auto simp: now_def e2_def split: if_splits elim!: response_sent_mono)
    qed (cases a; simp)
    ultimately show ?thesis by blast
  qed (use Cons.IH [of e] in \<open>auto simp: clients_receive_def\<close>)
qed simp

lemma server_run_actions:
  assumes "sv_initialized s"
  shows "\<exists>as e'. server_run (Some s) evs e = Some (True, as @ [Pool_Shutdown], e') \<and> concat (map handed_over as) = accepted evs \<and>
    (\<forall>a \<in> set as. refusal_ok (all_succeed e \<and> clients_receive evs) a)"
proof -
  obtain as e' where "server_run_loop evs e = Some (as, e')" "concat (map handed_over as) = accepted evs"
    "\<forall>a \<in> set as. refusal_ok (all_succeed e \<and> clients_receive evs) a"
    using server_run_loop_actions by blast
  then show ?thesis using assms by (simp add: server_run_def)
qed

section \<open>The command line\<close>

lemma server_config_limits:
  assumes "server_config args e = Some cfg"
  shows "0 < cfg_port cfg \<and> cfg_port cfg \<le> 65535 \<and> 0 < cfg_worker_count cfg \<and> 0 < cfg_queue_capacity cfg \<and>
    0 < cfg_backlog cfg \<and> cfg_backlog cfg \<le> 128"
proof -
  have "0 < v" if "number_argument a = Some v" for a v
    using that strtoul_range [of a] by (cases "strtoul a") (auto simp: number_argument_def split: if_splits)
  then show ?thesis using assms by (auto simp: server_config_def split: bind_splits if_splits)
qed

section \<open>The program\<close>

text \<open>The connections that the pool accepts before the loop ends.\<close>

fun submitted_clients :: "accept_event list \<Rightarrow> int list" where
  "submitted_clients [] = []"
| "submitted_clients (Connection fd submitted _ # evs) = (if submitted then fd # submitted_clients evs else submitted_clients evs)"
| "submitted_clients (Accept_Interrupted # evs) = submitted_clients evs"
| "submitted_clients (_ # evs) = []"

lemma server_run_loop_pooled:
  "server_run_loop evs e = Some (as, e') \<Longrightarrow> all_succeed e \<Longrightarrow> all_succeed e' \<and> concat (map pooled as) = submitted_clients evs"
proof (induction evs arbitrary: e as)
  case (Cons ev evs)
  show ?case
  proof (cases ev)
    case (Connection fd submitted ss)
    obtain ok e0 where t: "server_set_client_socket_timeouts e = (ok, e0)" by (cases "server_set_client_socket_timeouts e")
    have e0: "ok" "all_succeed e0"
      using t Cons.prems(2) by (auto simp: server_set_client_socket_timeouts_def split: prod.splits if_splits dest: env_next_succeed)
    obtain sent e1 where s: "send_error_body 503 ''queue_full'' ''Server is busy'' ss e0 = Some (sent, e1)" "all_succeed e1"
      using refuse_client [of ss e0] e0 by blast
    show ?thesis using Cons.prems(1) Connection t s e0 Cons.IH by (auto split: bind_splits if_splits)
  qed (use Cons in auto)
qed simp

lemma signal_handlers_env: "all_succeed e \<Longrightarrow> all_succeed (snd (install_signal_handlers e))"
  by (cases "env_next e"; cases "env_next (snd (env_next e))")
    (auto simp: install_signal_handlers_def dest!: env_next_succeed)

lemma server_main_run:
  assumes cfg: "server_config args e = Some cfg" and e: "all_succeed e"
    and cs: "\<forall>fd \<in> set (schedule (submitted_clients evs)). sendable (snd (peer fd))" "int (length (schedule (submitted_clients evs))) < INT_MAX"
  shows "server_main args evs schedule peer e =
    Some (0, listening_line cfg, fst (client_replies (map (fst \<circ> peer) (schedule (submitted_clients evs))) (1, [])), Map.empty, 0)"
proof -
  let ?ds = "schedule (submitted_clients evs)"
  have peers: "\<forall>(es, ss) \<in> set (map peer ?ds). sendable ss" using cs(1) by (auto simp: image_iff split: prod.splits)
  note limits = server_config_limits [OF cfg]
  note env = signal_handlers_env [OF e]
  note created = server_create_cases [of cfg "snd (install_signal_handlers e)", unfolded creation_ok_def]
  then obtain sv h fds e1 where c: "server_create (Some cfg) (snd (install_signal_handlers e)) = Some (sv, h, fds, e1)"
    using env by (auto split: option.splits)
  then obtain s where sv: "sv = Some s" using created env limits by (cases sv) auto
  then have ready: "server_ready cfg s" "fds = 1" and e1: "all_succeed e1" using c created env by simp_all
  then obtain t where t: "sv_table s = Some t" "db_rep t (1, [])" by (auto simp: server_ready_def)
  obtain as e2 where r: "server_run_loop evs e1 = Some (as, e2)" using server_run_loop_actions by blast
  then have run': "server_run (Some s) evs e1 = Some (True, as @ [Pool_Shutdown], e2)"
    using ready(1) by (simp add: server_run_def server_ready_def)
  have pooled: "concat (map pooled (as @ [Pool_Shutdown])) = submitted_clients evs" "all_succeed e2"
    using server_run_loop_pooled [OF r e1] by simp_all
  obtain t' e3 where h: "serve_clients t (map peer ?ds) e2 = Some (t', fst (client_replies (map (fst \<circ> peer) ?ds) (1, [])), e3)"
    "db_rep t' (snd (client_replies (map (fst \<circ> peer) ?ds) (1, [])))"
    using serve_clients_replies [OF peers t(2) _ _ pooled(2)] cs(2) by auto
  have "table_destroy (Some t') = Some Map.empty" using h(2) table_destroy_ok by (auto simp: db_rep_def split: prod.splits)
  then have "server_destroy (Some (s\<lparr>sv_table := Some t'\<rparr>)) 1 = Some (Map.empty, 0)"
    using ready(1) by (simp add: server_destroy_def server_ready_def)
  then show ?thesis using cfg c sv ready(2) run' t(1) h(1) pooled(1) by (simp add: server_main_def)
qed

end
