(* ===== verification/Server_Props.thy ===== *)
theory Server_Props
  imports Server_Correct
begin

text \<open>
  The properties of the HTTP layer and of the server, from the bytes on the socket to the bytes of
  the response.
\<close>

section \<open>Properties\<close>

lemma timed_out_request: "fst (http_read_request [Data ''GET / HTTP/1.1'', Recv_Timeout]) = Inl (408, ''Request timed out'')"
  by (simp add: http_read_request_def read_until_header_end.simps HTTP_MAX_REQUEST_SIZE_def)

text \<open>The request of the README, and one whose body is no statement.\<close>

definition readme_request :: "string \<Rightarrow> string" where
  "readme_request sql =
     ''POST /query HTTP/1.1'' @ CRLF @ ''Host: localhost:8080'' @ CRLF @ ''Content-Type: text/plain'' @ CRLF @
     ''Content-Length: '' @ show_nat (length sql) @ CRLF @ CRLF @ sql"

abbreviation alice :: stmt where
  "alice \<equiv> St_Insert ''Alice'' 20"

lemma alice_parse:
  "http_parse (readme_request (render alice)) = Inr \<lparr>rq_method = ''POST'', rq_path = ''/query'', rq_version = ''HTTP/1.1'',
     rq_content_length = 39, rq_body = render alice\<rparr>"
  and no_body_parse: "http_parse (readme_request []) = Inr \<lparr>rq_method = ''POST'', rq_path = ''/query'', rq_version = ''HTTP/1.1'',
     rq_content_length = 0, rq_body = []\<rparr>"
  by code_simp+

lemma alice_ok: "stmt_ok alice"
  by (simp add: name_ok_def number_ok_def INT_MIN_def INT_MAX_def)

lemma alice_reply:
  assumes "clean es" and "stream es = readme_request (render alice)"
  shows "client_reply es db = (response_text 200 json_content_type (answer_json (fst (db_exec alice db))), snd (db_exec alice db))"
  using client_reply_body [OF read_request_stream [OF assms(1), unfolded assms(2) alice_parse] _ alice_ok]
  by (simp del: render.simps answer_json.simps)

lemma no_body_reply:
  "client_reply [Data (readme_request [])] db =
     (response_text 200 json_content_type (error_json SQL_STATUS_SYNTAX_ERROR 1064 ''42000'' (syntax_message ''end of input'')), db)"
proof -
  have r: "fst (http_read_request [Data (readme_request [])]) = http_parse (readme_request [])"
    by (subst read_request_stream) (simp_all add: readme_request_def)
  have "sql_parse (Some []) = (sql_parse (Some []))\<lparr>parsed := False, pr_status := SQL_STATUS_SYNTAX_ERROR, pr_error_code := 1064,
      pr_sql_state := ''42000'', pr_error_message := syntax_message ''end of input''\<rparr>" by code_simp
  from arg_cong [OF this, of parsed] arg_cong [OF this, of pr_status] arg_cong [OF this, of pr_error_code]
    arg_cong [OF this, of pr_sql_state] arg_cong [OF this, of pr_error_message]
  show ?thesis unfolding client_reply_def r no_body_parse by (simp add: query_answer_def Let_def)
qed

text \<open>C2: End to end, when no library call fails and the clients receive what is sent to them: whatever
  the clients of a sequence deliver, in whatever pieces (any headers and any body, a statement or
  not, malformed requests, timeouts, cut connections), each of them gets exactly one response,
  which is the error of its request if it cannot be read, the error of the parser if its body is
  no statement, and the JSON text of the answer of the abstract database otherwise; the next client
  meets the next abstract state, and at the end the table stands for the last one.\<close>

theorem server_serves_dialogue:
  assumes "\<forall>(es, ss) \<in> set conns. sendable ss" and "db_rep t (n, us)" and "n + int (length conns) \<le> INT_MAX"
    and "\<forall>u \<in> set us. user_fits u" and "all_succeed e"
  shows "\<exists>t' e'. serve_clients t conns e = Some (t', fst (client_replies (map fst conns) (n, us)), e') \<and>
    db_rep t' (snd (client_replies (map fst conns) (n, us)))"
  using serve_clients_replies [OF assms] by blast

theorem server_serves_dialogue_witness:
  "\<exists>t t' outs e'. db_rep t (4, sample_users) \<and>
     serve_clients t [([Data (take 30 (readme_request (render alice))), Recv_Interrupted, Data (drop 30 (readme_request (render alice)))],
                       [Sent 10, Send_Interrupted]),
                      ([Data (readme_request [])], []),
                      ([Data ''GET / HTTP/1.1'', Recv_Timeout], [])] [] = Some (t', outs, e') \<and>
     outs ! 1 = response_text 200 json_content_type (error_json SQL_STATUS_SYNTAX_ERROR 1064 ''42000'' (syntax_message ''end of input'')) \<and>
     outs ! 2 = response_text 408 json_content_type (error_body ''request_timeout'' ''Request timed out'') \<and>
     db_rep t' (5, sample_users @ [\<lparr>rec_id = 4, rec_name = ''Alice'', rec_age = 20\<rparr>])"
proof -
  obtain t where t: "db_rep t (4, sample_users)" using sample_table by (auto simp: db_rep_def)
  let ?es = "[Data (take 30 (readme_request (render alice))), Recv_Interrupted, Data (drop 30 (readme_request (render alice)))]"
  let ?conns = "[(?es, [Sent 10, Send_Interrupted]), ([Data (readme_request [])], []), ([Data ''GET / HTTP/1.1'', Recv_Timeout], [])]"
  have fits: "\<forall>u \<in> set sample_users. user_fits u" by (simp add: user_fits_def number_ok_def INT_MIN_def INT_MAX_def)
  have "clean ?es" "stream ?es = readme_request (render alice)" by (simp_all add: readme_request_def del: render.simps)
  note r1 = alice_reply [OF this]
  have r3: "client_reply [Data ''GET / HTTP/1.1'', Recv_Timeout] db =
      (response_text 408 json_content_type (error_body ''request_timeout'' ''Request timed out''), db)" for db
    using timed_out_request by (simp add: client_reply_def server_http_error_status_name_def)
  have ss: "\<forall>(es, ss) \<in> set ?conns. sendable ss" by (simp add: sendable_def)
  have lt: "(4 :: int) + int (length ?conns) \<le> INT_MAX" by (simp add: INT_MAX_def)
  have env: "all_succeed []" by simp
  have rs: "client_replies (map fst ?conns) (4, sample_users) =
      ([response_text 200 json_content_type (answer_json (fst (db_exec alice (4, sample_users)))),
        response_text 200 json_content_type (error_json SQL_STATUS_SYNTAX_ERROR 1064 ''42000'' (syntax_message ''end of input'')),
        response_text 408 json_content_type (error_body ''request_timeout'' ''Request timed out'')],
       snd (db_exec alice (4, sample_users)))"
    by (simp add: r1 no_body_reply r3 split_beta del: render.simps answer_json.simps db_exec.simps)
  have db: "snd (db_exec alice (4, sample_users)) = (5, sample_users @ [\<lparr>rec_id = 4, rec_name = ''Alice'', rec_age = 20\<rparr>])"
    by (simp add: Let_def)
  from server_serves_dialogue [OF ss t lt fits env] t show ?thesis unfolding rs db by fastforce
qed

text \<open>C19: The whole program, when no library call fails and the clients receive what is sent to them:
  for arguments that are accepted it prints its address, every client that was submitted to the
  pool, whatever it sends, gets the response of the abstract server that starts with an empty
  database, in the order in which the workers take them, and after the shutdown the program exits
  with 0 and leaves neither a record nor a descriptor behind.\<close>

theorem server_main_serves:
  assumes "server_config args e = Some cfg" and "all_succeed e"
    and "\<forall>fd \<in> set (schedule (submitted_clients evs)). sendable (snd (peer fd))"
    and "int (length (schedule (submitted_clients evs))) < INT_MAX"
  shows "server_main args evs schedule peer e =
    Some (0, listening_line cfg, fst (client_replies (map (fst \<circ> peer) (schedule (submitted_clients evs))) (1, [])), Map.empty, 0)"
  using assms by (rule server_main_run)

theorem server_main_serves_witness:
  "server_main [] [Connection 5 True [], Accept_Interrupted, Connection 6 False [], Connection 8 True [], Shutdown_Requested, Connection 7 True []] rev
     (\<lambda>fd. if fd = 5 then ([Data (readme_request (render alice))], [Sent 10, Send_Interrupted]) else ([Data (readme_request [])], [])) [] =
   Some (0, ''Listening on port 8080 (workers=4 queue=16 backlog=32)'' @ [CHR 0x0A],
         [response_text 200 json_content_type (error_json SQL_STATUS_SYNTAX_ERROR 1064 ''42000'' (syntax_message ''end of input'')),
          response_text 200 json_content_type (answer_json (Inserted \<lparr>rec_id = 1, rec_name = ''Alice'', rec_age = 20\<rparr>))], Map.empty, 0)"
proof -
  let ?cfg = "\<lparr>cfg_port = 8080, cfg_worker_count = 4, cfg_queue_capacity = 16, cfg_backlog = 32\<rparr>"
  let ?peer = "\<lambda>fd :: int. if fd = 5 then ([Data (readme_request (render alice))], [Sent 10, Send_Interrupted]) else ([Data (readme_request [])], [])"
  let ?evs = "[Connection 5 True [], Accept_Interrupted, Connection 6 False [], Connection 8 True [], Shutdown_Requested, Connection 7 True []]"
  have cfg: "server_config [] [] = Some ?cfg" by (simp add: server_config_def install_signal_handlers_def)
  have ss: "\<forall>fd \<in> set (rev (submitted_clients ?evs)). sendable (snd (?peer fd))" by (simp add: sendable_def)
  have lt: "int (length (rev (submitted_clients ?evs))) < INT_MAX" by (simp add: INT_MAX_def)
  have env: "all_succeed []" by simp
  have line: "listening_line ?cfg = ''Listening on port 8080 (workers=4 queue=16 backlog=32)'' @ [CHR 0x0A]"
    by (simp add: listening_line_def show_nat.simps digit_def char_of_def bit_0)
  have "clean [Data (readme_request (render alice))]" "stream [Data (readme_request (render alice))] = readme_request (render alice)"
    by (simp_all add: readme_request_def del: render.simps)
  note r1 = alice_reply [OF this]
  have a: "fst (db_exec alice (1, [])) = Inserted \<lparr>rec_id = 1, rec_name = ''Alice'', rec_age = 20\<rparr>" by (simp add: Let_def)
  have rs: "fst (client_replies (map (fst \<circ> ?peer) (rev (submitted_clients ?evs))) (1, [])) =
      [response_text 200 json_content_type (error_json SQL_STATUS_SYNTAX_ERROR 1064 ''42000'' (syntax_message ''end of input'')),
       response_text 200 json_content_type (answer_json (Inserted \<lparr>rec_id = 1, rec_name = ''Alice'', rec_age = 20\<rparr>))]"
    by (simp add: r1 no_body_reply a split_beta del: render.simps answer_json.simps db_exec.simps)
  from server_main_serves [where schedule = rev and peer = ?peer and evs = ?evs, OF cfg env ss lt] show ?thesis unfolding line rs .
qed

text \<open>An exit with 1 leaves nothing behind either, under any failure.\<close>

lemma server_main_exit_one:
  assumes "server_main args evs schedule peer e = Some (1, out, responses, h, fds)"
  shows "out = [] \<and> responses = [] \<and> h = Map.empty \<and> fds = 0"
proof (cases "server_config args e")
  case (Some cfg)
  then show ?thesis using assms server_create_cases [of cfg "snd (install_signal_handlers e)"]
    by (auto simp: server_main_def creation_ok_def split: option.splits bind_splits)
qed (use assms in \<open>simp add: server_main_def\<close>)

text \<open>C38: A request that cannot be read (malformed, too large, timed out, not a POST to /query, cut off)
  never reaches the database: the table is unchanged under any failure, the client gets nothing but
  a prefix of the one error response, and all of it when memory and the socket allow.\<close>

theorem server_rejects_bad_request:
  assumes "fst (http_read_request es) = Inl (status, message)"
  shows "\<exists>sent e'. server_handle_client t es ss e = Some (Some t, sent, e') \<and>
    response_sent status (error_body (server_http_error_status_name status) message) (all_succeed e \<and> sendable ss) sent"
  using client_error [OF assms] by blast

theorem server_rejects_bad_request_witness:
  "\<exists>sent e'. server_handle_client (table_upto 16) [Data ''GET / HTTP/1.1'', Recv_Timeout] [Sent 10, Send_Error] [True] =
    Some (Some (table_upto 16), sent, e')"
  using server_rejects_bad_request [OF timed_out_request, of "table_upto 16" "[Sent 10, Send_Error]" "[True]"] by blast



text \<open>The accept loop returns, and it loses and duplicates no connection: in the order of their
  arrival every accepted descriptor is handed to the pool or closed, exactly once; a refused client
  is sent a prefix of the one 503 response, and all of it when memory and the socket allow.\<close>

theorem server_run_keeps_no_connection:
  assumes "sv_initialized s"
  shows "\<exists>as e'. server_run (Some s) evs e = Some (True, as @ [Pool_Shutdown], e') \<and> concat (map handed_over as) = accepted evs \<and>
    (\<forall>a \<in> set as. refusal_ok (all_succeed e \<and> clients_receive evs) a)"
  using assms by (rule server_run_actions)

theorem server_run_keeps_no_connection_witness:
  "\<exists>s as e'. sv_initialized s \<and>
     server_run (Some s) [Connection 7 True [], Accept_Interrupted, Connection 8 False [Sent 5], Shutdown_Requested, Connection 9 True []] [] =
       Some (True, as @ [Pool_Shutdown], e') \<and> concat (map handed_over as) = [7, 8]"
proof -
  obtain s :: Server where s: "sv_initialized s" by (rule that [of "\<lparr>sv_listen = True, sv_table = None, sv_pool = None,
    sv_config = \<lparr>cfg_port = 8080, cfg_worker_count = 4, cfg_queue_capacity = 16, cfg_backlog = 32\<rparr>, sv_initialized = True\<rparr>"]) simp
  let ?evs = "[Connection 7 True [], Accept_Interrupted, Connection 8 False [Sent 5], Shutdown_Requested, Connection 9 True []]"
  have "accepted ?evs = [7, 8]" by simp
  then show ?thesis using server_run_keeps_no_connection [OF s, of ?evs "[]"] s by metis
qed

text \<open>C27: Reading a request depends only on the bytes of the stream: for every way to cut it into
  pieces, with interruptions anywhere, the result is that of the pure parser on the whole stream.\<close>

theorem http_read_depends_on_stream:
  assumes "clean es"
  shows "fst (http_read_request es) = http_parse (stream es)"
  using assms by (rule read_request_stream)

theorem http_read_depends_on_stream_witness:
  "fst (http_read_request [Data ''POST /query HTTP/1.1'', Recv_Interrupted, Data (CRLF @ ''Content-Length: 2'' @ CRLF @ CRLF @ ''a''), Data ''b'']) =
   Inr \<lparr>rq_method = ''POST'', rq_path = ''/query'', rq_version = ''HTTP/1.1'', rq_content_length = 2, rq_body = ''ab''\<rparr>"
proof -
  let ?es = "[Data ''POST /query HTTP/1.1'', Recv_Interrupted, Data (CRLF @ ''Content-Length: 2'' @ CRLF @ CRLF @ ''a''), Data ''b'']"
  have "show_nat 2 = ''2''" by code_simp
  then have s: "stream ?es = request_text ''ab'' @ []" by (simp add: request_text_def numeral_2_eq_2)
  have "clean ?es" by simp
  then have "fst (http_read_request ?es) = http_parse (stream ?es)" by (rule http_read_depends_on_stream)
  then show ?thesis unfolding s using http_parse_request [of "''ab''" "[]"] by (simp add: HTTP_MAX_BODY_SIZE_def)
qed

text \<open>C40: Whatever arrives on the socket, reading returns: an accepted request is a POST to /query with a
  version of 1 to 15 characters, whose body has exactly the announced length, at most 4096 bytes; a refused one has one of the five
  error statuses and a message that fits its buffer.\<close>

theorem http_request_within_limits:
  "case fst (http_read_request es) of
     Inl e \<Rightarrow> fst e \<in> {400, 404, 405, 408, 413} \<and> snd e \<noteq> [] \<and> length (snd e) < 128
   | Inr rq \<Rightarrow> rq_method rq = ''POST'' \<and> rq_path rq = ''/query'' \<and> rq_version rq \<noteq> [] \<and>
       length (rq_version rq) < HTTP_MAX_VERSION_SIZE \<and> length (rq_body rq) = rq_content_length rq \<and>
       rq_content_length rq \<le> HTTP_MAX_BODY_SIZE"
  using http_read_outcome [of es] unfolding error_ok_def .

text \<open>Sending never invents, repeats or reorders bytes: for every sequence of short writes,
  interruptions and errors, what was sent is a prefix of the response, and all of it when the
  call reports success.\<close>

theorem http_send_is_prefix:
  assumes "http_send_response st (Some ct) (Some b) ss = (ok, sent, ss')"
  shows "\<exists>rest. response_text st ct b = sent @ rest \<and> (ok \<longrightarrow> rest = [])"
  using assms by (rule http_send_sent)

theorem http_send_is_prefix_witness:
  "\<exists>ok sent ss'. http_send_response 200 (Some ''text/plain'') (Some ''hello'') [Sent 20, Send_Interrupted, Sent 7, Send_Error] = (ok, sent, ss') \<and>
     (\<exists>rest. response_text 200 ''text/plain'' ''hello'' = sent @ rest)"
proof -
  obtain ok sent ss' where r: "http_send_response 200 (Some ''text/plain'') (Some ''hello'') [Sent 20, Send_Interrupted, Sent 7, Send_Error] =
      (ok, sent, ss')" by (cases "http_send_response 200 (Some ''text/plain'') (Some ''hello'') [Sent 20, Send_Interrupted, Sent 7, Send_Error]") auto
  then show ?thesis using http_send_is_prefix [OF r] by blast
qed

section \<open>Deviations\<close>

text \<open>A negative length is not refused but negated modulo the range of \<open>unsigned long\<close>.\<close>

lemma http_accepts_negative_length:
  "http_head (''POST /query HTTP/1.1'' @ CRLF @ ''Content-Length: -18446744073709551615'') =
   Inr \<lparr>rq_method = ''POST'', rq_path = ''/query'', rq_version = ''HTTP/1.1'', rq_content_length = 1, rq_body = []\<rparr>"
  by code_simp

end

