(* ===== verification/Table_Calls.thy ===== *)
theory Table_Calls
  imports Table_Props
begin

text \<open>
  Calls of the table by several threads (\<^verbatim>\<open>sql_processor/table.c\<close>): each function as a sequence of
  steps, one per lock operation and one per piece of code between two lock operations, and the
  interleavings of any number of calls. What a piece of code does is the definition of the
  sequential model, so that the steps of one call in a row are the sequential function.
\<close>

section \<open>Where a call is\<close>

datatype call_result =
    Res_Record "nat option"
  | Res_Rows bool RecordArray

datatype insert_pc =
    Ins_Start string int              \<comment> \<open>in front of the lock of \<open>next_id\<close>\<close>
  | Ins_Id string int                 \<comment> \<open>holds it\<close>
  | Ins_Id_Unlock int string int      \<comment> \<open>holds it, has an id\<close>
  | Ins_Lock int string int           \<comment> \<open>in front of the lock of the bucket\<close>
  | Ins_Body int string int           \<comment> \<open>holds it\<close>
  | Ins_Unlock int "nat option"       \<comment> \<open>holds it, has a result\<close>

datatype find_pc =
    Find_Lock int
  | Find_Body int
  | Find_Unlock int "nat option"

text \<open>A query collects all rows, bucket by bucket, and may then filter them.\<close>

type_synonym filter_test = "(Record \<Rightarrow> bool) option"

datatype collect_pc =
    Col_Lock filter_test nat RecordArray
  | Col_Body filter_test nat RecordArray
  | Col_Unlock filter_test nat bool RecordArray
  | Col_Sort filter_test RecordArray
  | Col_Filter "Record \<Rightarrow> bool" RecordArray

datatype call_pc =
    Inserting insert_pc
  | Finding find_pc
  | Collecting collect_pc
  | Returned call_result

section \<open>Steps of one call\<close>

text \<open>\<open>None\<close> is undefined behaviour, or a lock that has to be waited for. Any call of a lock
  function may fail without waiting.\<close>

fun insert_step :: "Table \<Rightarrow> insert_pc \<Rightarrow> env \<Rightarrow> (Table \<times> call_pc \<times> env) option" where
  "insert_step t (Ins_Start name age) e =
     do { (locked, m, e') \<leftarrow> pthread_mutex_lock (next_id_lock t) e;
          Some (t\<lparr>next_id_lock := m\<rparr>, if locked then Inserting (Ins_Id name age) else Returned (Res_Record None), e') }"
| "insert_step t (Ins_Id name age) e =
     (if next_id t = INT_MAX then None
      else Some (t\<lparr>next_id := next_id t + 1\<rparr>, Inserting (Ins_Id_Unlock (next_id t) name age), e))"
| "insert_step t (Ins_Id_Unlock record_id name age) e =
     do { m \<leftarrow> pthread_mutex_unlock (next_id_lock t);
          Some (t\<lparr>next_id_lock := m\<rparr>, Inserting (Ins_Lock record_id name age), e) }"
| "insert_step t (Ins_Lock record_id name age) e =
     do { (locked, t', e') \<leftarrow> bucket_wrlock t (table_bucket_index_for_id record_id) e;
          Some (t', if locked then Inserting (Ins_Body record_id name age) else Returned (Res_Record None), e') }"
| "insert_step t (Ins_Body record_id name age) e =
     do { (r, t', e') \<leftarrow> insert_into_bucket t (table_bucket_index_for_id record_id) record_id name age e;
          Some (t', Inserting (Ins_Unlock record_id r), e') }"
| "insert_step t (Ins_Unlock record_id r) e =
     do { t' \<leftarrow> bucket_unlock t (table_bucket_index_for_id record_id);
          Some (t', Returned (Res_Record r), e) }"

fun find_step :: "Table \<Rightarrow> find_pc \<Rightarrow> env \<Rightarrow> (Table \<times> call_pc \<times> env) option" where
  "find_step t (Find_Lock key) e =
     do { (locked, t', e') \<leftarrow> bucket_rdlock t (table_bucket_index_for_id key) e;
          Some (t', if locked then Finding (Find_Body key) else Returned (Res_Record None), e') }"
| "find_step t (Find_Body key) e =
     do { b \<leftarrow> rd (buckets t) (table_bucket_index_for_id key);
          r \<leftarrow> bptree_search (pk_index b) key;
          Some (t, Finding (Find_Unlock key r), e) }"
| "find_step t (Find_Unlock key r) e =
     do { t' \<leftarrow> bucket_unlock t (table_bucket_index_for_id key);
          Some (t', Returned (Res_Record r), e) }"

text \<open>The array with which a failed collection or query returns.\<close>

definition failed_rows :: "filter_test \<Rightarrow> RecordArray \<Rightarrow> call_result" where
  "failed_rows test ra = Res_Rows False (if test = None then table_free_record_array ra else empty_array)"

fun collect_step :: "Table \<Rightarrow> collect_pc \<Rightarrow> env \<Rightarrow> (Table \<times> call_pc \<times> env) option" where
  "collect_step t (Col_Lock test index ra) e =
     (if index < TABLE_BUCKET_COUNT
      then do { (locked, t', e') \<leftarrow> bucket_rdlock t index e;
                Some (t', if locked then Collecting (Col_Body test index ra) else Returned (failed_rows test ra), e') }
      else Some (t, Collecting (Col_Sort test ra), e))"
| "collect_step t (Col_Body test index ra) e =
     do { b \<leftarrow> rd (buckets t) index;
          (ok, ra', e') \<leftarrow> table_collect_bucket_rows_locked b ra e;
          Some (t, Collecting (Col_Unlock test index ok ra'), e') }"
| "collect_step t (Col_Unlock test index ok ra) e =
     do { t' \<leftarrow> bucket_unlock t index;
          Some (t', if ok then Collecting (Col_Lock test (index + 1) ra) else Returned (failed_rows test ra), e) }"
| "collect_step t (Col_Sort test ra) e =
     do { ra' \<leftarrow> table_sort_records_by_id (rec_heap t) ra;
          Some (t, case test of None \<Rightarrow> Returned (Res_Rows True ra') | Some f \<Rightarrow> Collecting (Col_Filter f ra'), e) }"
| "collect_step t (Col_Filter f all_records) e =
     do { (ok, ra, e') \<leftarrow> filter_loop (rec_heap t) f all_records 0 empty_array e;
          Some (t, Returned (Res_Rows ok ra), e') }"

fun call_step :: "Table \<Rightarrow> call_pc \<Rightarrow> env \<Rightarrow> (Table \<times> call_pc \<times> env) option" where
  "call_step t (Inserting pc) e = insert_step t pc e"
| "call_step t (Finding pc) e = find_step t pc e"
| "call_step t (Collecting pc) e = collect_step t pc e"
| "call_step t (Returned r) e = None"

text \<open>The lock a call is in front of is held by somebody so that it has to wait.\<close>

fun waits :: "Table \<Rightarrow> call_pc \<Rightarrow> bool" where
  "waits t (Inserting (Ins_Start name age)) \<longleftrightarrow> next_id_lock t = MutexHeld"
| "waits t (Inserting (Ins_Lock record_id name age)) \<longleftrightarrow>
     bk_lock (buckets t ! table_bucket_index_for_id record_id) \<noteq> Unlocked"
| "waits t (Finding (Find_Lock key)) \<longleftrightarrow> bk_lock (buckets t ! table_bucket_index_for_id key) = WriteLocked"
| "waits t (Collecting (Col_Lock test index ra)) \<longleftrightarrow> index < 16 \<and> bk_lock (buckets t ! index) = WriteLocked"
| "waits t _ \<longleftrightarrow> False"

section \<open>Many calls\<close>

datatype table_op =
    Op_Insert string int
  | Op_Find int
  | Op_Collect filter_test

fun start_pc :: "table_op \<Rightarrow> call_pc" where
  "start_pc (Op_Insert name age) = Inserting (Ins_Start name age)"
| "start_pc (Op_Find key) = Finding (Find_Lock key)"
| "start_pc (Op_Collect test) = Collecting (Col_Lock test 0 empty_array)"

text \<open>The history of a run: the records in the order in which they entered the table, and for each call
  what it was asked for and how many records there were when it began.\<close>

record CallState =
  cs_table :: Table
  cs_calls :: "call_pc list"
  cs_ops :: "table_op list"
  cs_since :: "nat list"
  cs_log :: "Record list"

text \<open>The record that a step puts into the table.\<close>

fun committed :: "Table \<Rightarrow> call_pc \<Rightarrow> Record list" where
  "committed t (Inserting (Ins_Unlock record_id (Some p))) = (case rec_heap t p of None \<Rightarrow> [] | Some r \<Rightarrow> [r])"
| "committed t _ = []"

definition commits :: "call_pc \<Rightarrow> bool" where
  "commits pc \<longleftrightarrow> (case pc of Inserting (Ins_Body _ _ _) \<Rightarrow> True | _ \<Rightarrow> False)"

definition invoke :: "table_op \<Rightarrow> CallState \<Rightarrow> CallState" where
  "invoke op s = s\<lparr>cs_calls := cs_calls s @ [start_pc op], cs_ops := cs_ops s @ [op], cs_since := cs_since s @ [length (cs_log s)]\<rparr>"

definition advance :: "nat \<Rightarrow> env \<Rightarrow> CallState \<Rightarrow> CallState option" where
  "advance c e s =
     do { pc \<leftarrow> rd (cs_calls s) c;
          (t', pc', e') \<leftarrow> call_step (cs_table s) pc e;
          Some (s\<lparr>cs_table := t', cs_calls := (cs_calls s)[c := pc'],
                  cs_log := cs_log s @ (if commits pc then committed t' pc' else [])\<rparr>) }"

text \<open>A failure in the middle of an insertion into the index is not harmless; see the index.\<close>

definition harmless :: "call_pc \<Rightarrow> env \<Rightarrow> bool" where
  "harmless pc e \<longleftrightarrow> commits pc \<longrightarrow> guarded 1 e"

inductive calls_reach :: "CallState \<Rightarrow> bool" where
  cr_init: "table_models t [] \<Longrightarrow> next_id t = 1 \<Longrightarrow>
    calls_reach \<lparr>cs_table = t, cs_calls = [], cs_ops = [], cs_since = [], cs_log = []\<rparr>"
| cr_invoke: "calls_reach s \<Longrightarrow> calls_reach (invoke op s)"
| cr_advance: "calls_reach s \<Longrightarrow> c < length (cs_calls s) \<Longrightarrow> harmless (cs_calls s ! c) e \<Longrightarrow>
    advance c e s = Some s' \<Longrightarrow> calls_reach s'"

end
