(* ===== verification/Calls_Store.thy ===== *)
theory Calls_Store
  imports Table_Calls
begin

text \<open>
  The store under concurrent calls: the invariant of the sequential model without its locks, in
  terms of the history of the insertions, and what the pieces of code inside the critical
  sections do to it.
\<close>

section \<open>The store without its locks\<close>

abbreviation unlocked :: "TableBucket \<Rightarrow> TableBucket" where
  "unlocked b \<equiv> b\<lparr>bk_lock := Unlocked\<rparr>"

definition in_bucket :: "nat \<Rightarrow> Record \<Rightarrow> bool" where
  "in_bucket i r \<longleftrightarrow> table_bucket_index_for_id (rec_id r) = i"

text \<open>The rows of a bucket are its part of the history, in the same order.\<close>

definition store_ok :: "Table \<Rightarrow> nat list list \<Rightarrow> Record list \<Rightarrow> bool" where
  "store_ok t pss log \<longleftrightarrow>
     length (buckets t) = 16 \<and> length pss = 16 \<and>
     (\<forall>i < 16. bucket_ok (rec_heap t) i (unlocked (buckets t ! i)) (pss ! i) \<and>
        denotes (rec_heap t) (pss ! i) (filter (in_bucket i) log)) \<and>
     next_id_lock_initialized t \<and> initialized_buckets t = 16 \<and>
     distinct (concat pss) \<and> dom (rec_heap t) = set (concat pss) \<and> (\<forall>p \<in> set (concat pss). p < rec_brk t) \<and>
     distinct (map rec_id log) \<and> (\<forall>r \<in> set log. 1 \<le> rec_id r \<and> rec_id r < next_id t) \<and>
     1 \<le> next_id t \<and> next_id t \<le> INT_MAX"

lemma store_bucket:
  assumes "store_ok t pss log" and "i < 16"
  shows "bucket_ok (rec_heap t) i (unlocked (buckets t ! i)) (pss ! i)"
    and "denotes (rec_heap t) (pss ! i) (filter (in_bucket i) log)"
    and "i < length (buckets t)"
  using assms by (simp_all add: store_ok_def)

lemma relock [simp]: "(unlocked b)\<lparr>bk_lock := bk_lock b\<rparr> = b" and unlocked_twice [simp]: "unlocked (b\<lparr>bk_lock := l\<rparr>) = unlocked b"
  by simp_all

text \<open>Steps that only touch locks leave the store alone.\<close>

definition same_data :: "Table \<Rightarrow> Table \<Rightarrow> bool" where
  "same_data t t' \<longleftrightarrow> rec_heap t' = rec_heap t \<and> rec_brk t' = rec_brk t \<and> next_id t' = next_id t \<and>
     next_id_lock_initialized t' = next_id_lock_initialized t \<and> initialized_buckets t' = initialized_buckets t \<and>
     map unlocked (buckets t') = map unlocked (buckets t)"

lemma same_data_refl [simp]: "same_data t t"
  by (simp add: same_data_def)

lemma same_data_mutex [simp]: "same_data t (t\<lparr>next_id_lock := m\<rparr>)"
  by (simp add: same_data_def)

lemma same_data_bucket: "i < length (buckets t) \<Longrightarrow> unlocked b = unlocked (buckets t ! i) \<Longrightarrow> same_data t (put_bucket t i b)"
  by (simp add: same_data_def put_bucket_def map_update list_update_same_conv)

lemma store_same:
  assumes "same_data t t'" and "store_ok t pss log"
  shows "store_ok t' pss log"
proof -
  have m: "map unlocked (buckets t') = map unlocked (buckets t)" using assms(1) by (simp add: same_data_def)
  then have len: "length (buckets t') = length (buckets t)" by (metis length_map)
  have "unlocked (buckets t' ! i) = unlocked (buckets t ! i)" if "i < length (buckets t)" for i
    using m that len by (metis nth_map)
  then show ?thesis using assms len by (simp add: same_data_def store_ok_def)
qed

lemma store_next_id:
  assumes "store_ok t pss log" and "next_id t < INT_MAX"
  shows "store_ok (t\<lparr>next_id := next_id t + 1\<rparr>) pss log"
proof -
  have "\<forall>r \<in> set log. 1 \<le> rec_id r \<and> rec_id r < next_id t" using assms(1) unfolding store_ok_def by blast
  then have "\<forall>r \<in> set log. 1 \<le> rec_id r \<and> rec_id r < next_id t + 1" by auto
  then show ?thesis using assms by (simp add: store_ok_def)
qed

text \<open>When all locks are free, this is the invariant of the sequential model.\<close>

lemma mset_parts: "mset (concat (map (\<lambda>i. filter (in_bucket i) log) [0..<n])) = filter_mset (\<lambda>r. table_bucket_index_for_id (rec_id r) < n) (mset log)"
proof (induction n)
  case (Suc n)
  have "filter_mset (\<lambda>r. table_bucket_index_for_id (rec_id r) < Suc n) M =
      filter_mset (\<lambda>r. table_bucket_index_for_id (rec_id r) < n) M + filter_mset (in_bucket n) M" for M
    by (induction M) (auto simp: in_bucket_def)
  then show ?case using Suc by (simp add: mset_filter)
qed simp

lemma denotes_the: "denotes h ps us \<Longrightarrow> map (\<lambda>p. the (h p)) ps = us"
proof -
  assume d: "denotes h ps us"
  have "map (\<lambda>p. the (h p)) ps = map the (map h ps)" by simp
  also have "\<dots> = us" using d by (simp add: denotes_def comp_def)
  finally show ?thesis .
qed

lemma store_mset:
  assumes "store_ok t pss log"
  shows "mset (map (\<lambda>p. the (rec_heap t p)) (concat pss)) = mset log"
proof -
  have len: "length pss = 16" using assms by (simp add: store_ok_def)
  have "map (map (\<lambda>p. the (rec_heap t p))) pss = map (\<lambda>i. filter (in_bucket i) log) [0..<16]"
  proof (rule nth_equalityI)
    fix i
    assume "i < length (map (map (\<lambda>p. the (rec_heap t p))) pss)"
    then show "map (map (\<lambda>p. the (rec_heap t p))) pss ! i = map (\<lambda>i. filter (in_bucket i) log) [0..<16] ! i"
      using len denotes_the [OF store_bucket(2) [OF assms, of i]] by simp
  qed (use len in simp)
  then have "mset (map (\<lambda>p. the (rec_heap t p)) (concat pss)) = filter_mset (\<lambda>r. table_bucket_index_for_id (rec_id r) < 16) (mset log)"
    by (simp add: map_concat mset_parts)
  also have "\<dots> = mset log" using bucket_index_less by (simp add: filter_mset_eq_conv)
  finally show ?thesis .
qed

lemma sorted_ids:
  assumes "distinct (map rec_id log)"
  shows "sorted_wrt (\<lambda>u v. rec_id u < rec_id v) (sort_key rec_id log)"
proof -
  have "distinct (map rec_id (sort_key rec_id log))"
    using assms by (simp add: distinct_map)
  then have "sorted_wrt (<) (map rec_id (sort_key rec_id log))" by (simp add: strict_sorted_iff)
  then show ?thesis by (simp add: sorted_wrt_map)
qed

lemma store_quiescent:
  assumes s: "store_ok t pss log" and "next_id_lock t = MutexFree" and "\<forall>i < 16. bk_lock (buckets t ! i) = Unlocked"
  shows "table_rows t pss (sort_key rec_id log)"
proof -
  have "unlocked (buckets t ! i) = buckets t ! i" if "i < 16" for i using assms(3) that by simp
  then have "\<forall>i < 16. bucket_ok (rec_heap t) i (buckets t ! i) (pss ! i)" using store_bucket(1) [OF s] by metis
  moreover have "users_ok (sort_key rec_id log) (next_id t)"
    using s sorted_ids [of log] by (simp add: store_ok_def users_ok_def)
  ultimately show ?thesis using s assms(2) store_mset [OF s] unfolding table_rows_def store_ok_def by simp
qed

section \<open>The body of an insertion\<close>

lemma fresh_in_bucket:
  assumes "store_ok t pss log" and "i < 16" and "k \<notin> rec_id ` set log"
    and "set es = (\<lambda>p. (rid (rec_heap t) p, Some p)) ` set (pss ! i)"
  shows "k \<notin> fst ` set es"
proof
  assume "k \<in> fst ` set es"
  then obtain p where p: "p \<in> set (pss ! i)" "rid (rec_heap t) p = k" using assms(4) by auto
  have "the (rec_heap t p) \<in> set (filter (in_bucket i) log)"
    using p(1) denotes_the [OF store_bucket(2) [OF assms(1,2)]] by (metis image_eqI set_map)
  then show False using p(2) assms(3) by (auto simp: rid_def)
qed

lemma denotes_heap: "denotes h ps us \<Longrightarrow> (\<And>p. p \<in> set ps \<Longrightarrow> h' p = h p) \<Longrightarrow> denotes h' ps us"
  unfolding denotes_def by (metis map_eq_conv)

lemma store_replace:
  assumes s: "store_ok t pss log" and i: "i < 16" and b: "bucket_ok (rec_heap t) i (unlocked b) (pss ! i)" and m: "rec_brk t \<le> m"
  shows "store_ok (t\<lparr>buckets := (buckets t)[i := b], rec_brk := m\<rparr>) pss log"
proof -
  have "\<forall>p \<in> set (concat pss). p < m" using s m unfolding store_ok_def by (meson less_le_trans)
  moreover have "\<forall>j < 16. bucket_ok (rec_heap t) j (unlocked ((buckets t)[i := b] ! j)) (pss ! j)"
    using s i b by (auto simp: store_ok_def nth_list_update)
  ultimately show ?thesis using s unfolding store_ok_def by simp
qed

lemma store_insert:
  assumes s: "store_ok t pss log" and i: "i < 16" and p: "p = rec_brk t"
    and r: "rec_id r \<notin> rec_id ` set log" "1 \<le> rec_id r" "rec_id r < next_id t" "in_bucket i r"
    and b: "bucket_ok ((rec_heap t)(p \<mapsto> r)) i (unlocked b) (pss ! i @ [p])"
  shows "store_ok (t\<lparr>buckets := (buckets t)[i := b], rec_heap := (rec_heap t)(p \<mapsto> r), rec_brk := Suc p\<rparr>)
    (pss[i := pss ! i @ [p]]) (log @ [r])"
proof -
  let ?pss = "pss[i := pss ! i @ [p]]" and ?h = "(rec_heap t)(p \<mapsto> r)"
  have len: "length (buckets t) = 16" "length pss = 16" using s by (simp_all add: store_ok_def)
  have m: "mset (concat ?pss) = mset (p # concat pss)" using i len by (simp add: concat_update_mset)
  have lt: "\<forall>q \<in> set (concat pss). q < p" and dom: "dom (rec_heap t) = set (concat pss)" and d: "distinct (concat pss)"
    and ids: "distinct (map rec_id log)" "\<forall>r \<in> set log. 1 \<le> rec_id r \<and> rec_id r < next_id t"
    using s unfolding store_ok_def p by blast+
  have fresh: "p \<notin> set (concat pss)" using lt by blast
  have set: "set (concat ?pss) = insert p (set (concat pss))" using mset_eq_setD [OF m] by simp
  have keep: "?h q = rec_heap t q" if "q \<in> set (pss ! j)" "j < 16" for q j
    using fresh that len(2) by (auto dest: nth_mem)
  have other: "bucket_ok ?h j (unlocked (buckets t ! j)) (pss ! j)" if "j < 16" for j
    by (rule bucket_ok_heap [OF keep store_bucket(1) [OF s that]]) (use that in auto)
  have "\<forall>j < 16. bucket_ok ?h j (unlocked ((buckets t)[i := b] ! j)) (?pss ! j)"
    using b other len i by (auto simp: nth_list_update)
  moreover have "\<forall>j < 16. denotes ?h (?pss ! j) (filter (in_bucket j) (log @ [r]))"
  proof (intro allI impI)
    fix j :: nat
    assume j: "j < 16"
    have "denotes ?h (pss ! j) (filter (in_bucket j) log)" 
      by (rule denotes_heap [OF store_bucket(2) [OF s j] keep]) (use j in auto)
    then show "denotes ?h (?pss ! j) (filter (in_bucket j) (log @ [r]))"
      using r(4) len i by (auto simp: nth_list_update denotes_def in_bucket_def)
  qed
  moreover have "distinct (concat ?pss)" using mset_eq_imp_distinct_iff [OF m] d fresh by simp
  moreover have "\<forall>q \<in> set (concat ?pss). q < Suc p" unfolding set using lt less_SucI by blast
  moreover have "dom ?h = set (concat ?pss)" unfolding set using dom by simp
  moreover have "distinct (map rec_id (log @ [r]))" using ids(1) r(1) by simp
  moreover have "\<forall>q \<in> set (log @ [r]). 1 \<le> rec_id q \<and> rec_id q < next_id t" using ids(2) r(2,3) by auto
  ultimately show ?thesis using s len unfolding store_ok_def by simp
qed

definition inserted_record :: "int \<Rightarrow> string \<Rightarrow> int \<Rightarrow> Record" where
  "inserted_record k name age = \<lparr>rec_id = k, rec_name = bounded RECORD_NAME_SIZE name, rec_age = age\<rparr>"

text \<open>What the body of an insertion may do: put its record at a fresh address, or nothing.\<close>

definition body_effect :: "Table \<Rightarrow> nat list list \<Rightarrow> Record list \<Rightarrow> Record \<Rightarrow> nat option \<Rightarrow> Table \<Rightarrow> bool" where
  "body_effect t pss log u r t' \<longleftrightarrow>
     next_id t' = next_id t \<and> next_id_lock t' = next_id_lock t \<and> map bk_lock (buckets t') = map bk_lock (buckets t) \<and>
     (case r of
        None \<Rightarrow> rec_heap t' = rec_heap t \<and> store_ok t' pss log
      | Some p \<Rightarrow> rec_heap t p = None \<and> rec_heap t' = (rec_heap t)(p \<mapsto> u) \<and> (\<exists>pss'. store_ok t' pss' (log @ [u])))"

lemma insert_body_ok:
  assumes s: "store_ok t pss log" and k: "k \<notin> rec_id ` set log" "1 \<le> k" "k < next_id t" and g: "guarded 1 e"
  shows "\<exists>r t' e'. insert_into_bucket t (table_bucket_index_for_id k) k name age e = Some (r, t', e') \<and>
    body_effect t pss log (inserted_record k name age) r t' \<and> (all_succeed e \<longrightarrow> r \<noteq> None \<and> all_succeed e')"
proof -
  define i where "i = table_bucket_index_for_id k"
  let ?h = "rec_heap t" and ?b = "unlocked (buckets t ! i)" and ?l = "bk_lock (buckets t ! i)" and ?ps = "pss ! i"
    and ?p = "rec_brk t" and ?u = "inserted_record k name age"
  have i16: "i < 16" unfolding i_def by (rule bucket_index_less)
  note b = store_bucket [OF s i16]
  have hp: "?h ?p = None" using s unfolding store_ok_def by (metis domIff less_irrefl)
  have u: "rec_id ?u = k" "in_bucket i ?u" by (simp_all add: inserted_record_def in_bucket_def i_def)
  obtain ok1 b1 e1 where c: "table_ensure_capacity (?b\<lparr>bk_lock := ?l\<rparr>) e = (ok1, b1\<lparr>bk_lock := ?l\<rparr>, e1)"
    and b1: "bucket_ok ?h i b1 ?ps" "ok1 \<longrightarrow> length ?ps < length (bk_rows b1)" and a1: "all_succeed e \<longrightarrow> ok1 \<and> all_succeed e1"
    using ensure_capacity_ok [OF b(1), of ?l e] by blast
  have c': "table_ensure_capacity (buckets t ! i) e = (ok1, b1\<lparr>bk_lock := ?l\<rparr>, e1)" using c by simp
  have ul: "unlocked b1 = b1" using b1(1) by (simp add: bucket_ok_def)
  obtain ok2 e2 where c2: "env_next e1 = (ok2, e2)" by (cases "env_next e1")
  have locks: "map bk_lock ((buckets t)[i := b'\<lparr>bk_lock := ?l\<rparr>]) = map bk_lock (buckets t)" for b'
    by (simp add: map_update list_update_same_conv b(3))
  have keep: "body_effect t pss log ?u None (t\<lparr>buckets := (buckets t)[i := b'\<lparr>bk_lock := ?l\<rparr>], rec_brk := m\<rparr>)"
    if "bucket_ok ?h i b' ?ps" "?p \<le> m" for b' m
    using store_replace [OF s i16, of "b'\<lparr>bk_lock := ?l\<rparr>" m] that locks by (simp add: body_effect_def bucket_ok_def)
  show ?thesis
  proof (cases "ok1 \<and> ok2")
    case False
    then have "\<exists>e3. insert_into_bucket t i k name age e = Some (None, put_bucket t i (b1\<lparr>bk_lock := ?l\<rparr>), e3)"
      using b(3) c' c2 by (auto simp: insert_into_bucket_def array_simps split: bool.splits)
    moreover have "put_bucket t i (b1\<lparr>bk_lock := ?l\<rparr>) = t\<lparr>buckets := (buckets t)[i := b1\<lparr>bk_lock := ?l\<rparr>], rec_brk := ?p\<rparr>"
      by (simp add: put_bucket_def)
    moreover have "\<not> all_succeed e" using False a1 env_next_succeed [OF c2] by blast
    ultimately show ?thesis using keep [OF b1(1) order_refl] by (auto simp: i_def)
  next
    case True
    have g2: "guarded 0 e2"
      using ensure_capacity_guarded [of _ e _ e1] c' g c2 True guarded_step [of 0 e1 e2] by simp
    obtain ix es where ix: "pk_index b1 = Some ix" "bptree_entries ix es" "set es = (\<lambda>p. (rid ?h p, Some p)) ` set ?ps"
      using b1(1) by (auto simp: bucket_ok_def)
    obtain ok3 ix' e3 where ins: "bptree_insert (Some ix) k (Some ?p) e2 = Some (ok3, Some ix', e3)"
      "bptree_entries ix' (if ok3 then ins_entry k (Some ?p) es else es)" "all_succeed e2 \<longrightarrow> ok3 \<and> all_succeed e3"
      using index_insert_guarded [OF ix(2) fresh_in_bucket [OF s i16 k(1) ix(3)] g2] by blast
    have succ: "all_succeed e \<longrightarrow> ok3 \<and> all_succeed e3" using a1 env_next_succeed [OF c2] ins(3) by blast
    have sz: "bk_size b1 = length ?ps" using b1(1) by (simp add: bucket_ok_def)
    show ?thesis
    proof (cases ok3)
      case False
      have "?h(?p := None) = ?h" using hp by auto
      then have "insert_into_bucket t i k name age e =
          Some (None, t\<lparr>buckets := (buckets t)[i := (b1\<lparr>pk_index := Some ix'\<rparr>)\<lparr>bk_lock := ?l\<rparr>], rec_brk := Suc ?p\<rparr>, e3)"
        using b(3) c' c2 True ix(1) ins(1) False hp
        by (auto simp: insert_into_bucket_def Let_def put_bucket_def array_simps table_update_order)
      moreover have "bucket_ok ?h i (b1\<lparr>pk_index := Some ix'\<rparr>) ?ps" using b1(1) ins(2) ix(3) False by (auto simp: bucket_ok_def)
      ultimately show ?thesis using keep succ False by (auto simp: i_def)
    next
      case ok3: True
      let ?B = "b1\<lparr>pk_index := Some ix', bk_rows := (bk_rows b1)[length ?ps := Some ?p], bk_size := Suc (length ?ps)\<rparr>"
      let ?T = "t\<lparr>buckets := (buckets t)[i := ?B\<lparr>bk_lock := ?l\<rparr>], rec_heap := ?h(?p \<mapsto> ?u), rec_brk := Suc ?p\<rparr>"
      have "insert_into_bucket t i k name age e = Some (Some ?p, ?T, e3)"
        using b(3) c' c2 True ix(1) ins(1) ok3 b1(2) sz
        by (auto simp: insert_into_bucket_def Let_def inserted_record_def put_bucket_def array_simps table_update_order)
      moreover have "bucket_ok (?h(?p \<mapsto> ?u)) i ?B (?ps @ [?p])"
        using bucket_ok_insert [OF b1(1) _ ix(1,3) hp, of ix' ?u] ins(2) ok3 u b1(2) True by (simp add: in_bucket_def)
      then have "store_ok ?T (pss[i := ?ps @ [?p]]) (log @ [?u])"
        using store_insert [OF s i16 refl, of ?u "?B\<lparr>bk_lock := ?l\<rparr>"] k u ul by (simp add: bucket_ok_def)
      then have "body_effect t pss log ?u (Some ?p) ?T" using hp locks by (auto simp: body_effect_def)
      ultimately show ?thesis using succ by (auto simp: i_def)
    qed
  qed
qed

end
