(* ===== verification/Calls_Locks.thy ===== *)
theory Calls_Locks
  imports Calls_Store
begin

text \<open>
  The lock discipline of concurrent calls: the state of every lock is determined by the calls that
  are inside its critical sections, so that two calls are inside a bucket together only to read.
\<close>

section \<open>Counting calls\<close>

definition number :: "('a \<Rightarrow> bool) \<Rightarrow> 'a list \<Rightarrow> nat" where
  "number P xs = length (filter P xs)"

lemma number_simps [simp]: "number P [] = 0" "number P (xs @ ys) = number P xs + number P ys"
  "number P (x # xs) = of_bool (P x) + number P xs"
  by (simp_all add: number_def)

lemma number_update: "c < length xs \<Longrightarrow> number P (xs[c := x]) + of_bool (P (xs ! c)) = number P xs + of_bool (P x)"
proof (induction xs arbitrary: c)
  case (Cons y ys)
  then show ?case by (cases c) auto
qed simp

lemma number_positive: "c < length xs \<Longrightarrow> P (xs ! c) \<Longrightarrow> 0 < number P xs"
  unfolding number_def by (metis length_greater_0_conv filter_empty_conv nth_mem)

lemma number_unique: "number P xs \<le> 1 \<Longrightarrow> c < length xs \<Longrightarrow> d < length xs \<Longrightarrow> P (xs ! c) \<Longrightarrow> P (xs ! d) \<Longrightarrow> c = d"
proof (induction xs arbitrary: c d)
  case (Cons y ys)
  show ?case
  proof (cases "P y")
    case True
    then have "number P ys = 0" using Cons.prems(1) by simp
    then show ?thesis using Cons.prems number_positive [of _ ys P] by (cases c; cases d) force+
  next
    case False
    then show ?thesis using Cons by (cases c; cases d) auto
  qed
qed simp

section \<open>Critical sections\<close>

fun in_id_section :: "call_pc \<Rightarrow> bool" where
  "in_id_section (Inserting (Ins_Id name age)) \<longleftrightarrow> True"
| "in_id_section (Inserting (Ins_Id_Unlock k name age)) \<longleftrightarrow> True"
| "in_id_section _ \<longleftrightarrow> False"

fun writing :: "nat \<Rightarrow> call_pc \<Rightarrow> bool" where
  "writing i (Inserting (Ins_Body k name age)) \<longleftrightarrow> table_bucket_index_for_id k = i"
| "writing i (Inserting (Ins_Unlock k r)) \<longleftrightarrow> table_bucket_index_for_id k = i"
| "writing i _ \<longleftrightarrow> False"

fun reading :: "nat \<Rightarrow> call_pc \<Rightarrow> bool" where
  "reading i (Finding (Find_Body k)) \<longleftrightarrow> table_bucket_index_for_id k = i"
| "reading i (Finding (Find_Unlock k r)) \<longleftrightarrow> table_bucket_index_for_id k = i"
| "reading i (Collecting (Col_Body test j ra)) \<longleftrightarrow> j = i"
| "reading i (Collecting (Col_Unlock test j ok ra)) \<longleftrightarrow> j = i"
| "reading i _ \<longleftrightarrow> False"

fun mutex_count :: "mutex \<Rightarrow> nat \<Rightarrow> bool" where
  "mutex_count NoMutex n \<longleftrightarrow> False"
| "mutex_count MutexFree n \<longleftrightarrow> n = 0"
| "mutex_count MutexHeld n \<longleftrightarrow> n = 1"

fun rw_count :: "rwlock \<Rightarrow> nat \<Rightarrow> nat \<Rightarrow> bool" where
  "rw_count NoLock w r \<longleftrightarrow> False"
| "rw_count Unlocked w r \<longleftrightarrow> w = 0 \<and> r = 0"
| "rw_count (ReadLocked n) w r \<longleftrightarrow> w = 0 \<and> r = n \<and> 0 < n"
| "rw_count WriteLocked w r \<longleftrightarrow> w = 1 \<and> r = 0"

definition locks_ok :: "Table \<Rightarrow> call_pc list \<Rightarrow> bool" where
  "locks_ok t calls \<longleftrightarrow> mutex_count (next_id_lock t) (number in_id_section calls) \<and>
     (\<forall>i < 16. rw_count (bk_lock (buckets t ! i)) (number (writing i) calls) (number (reading i) calls))"

lemma rw_count_le: "rw_count l w r \<Longrightarrow> w \<le> 1"
  by (cases l) auto

lemma rw_count_excl: "rw_count l w r \<Longrightarrow> 0 < w \<Longrightarrow> w = 1 \<and> r = 0"
  by (cases l) auto

text \<open>What a step does to the locks and to its place in the sections.\<close>

definition lock_effect :: "Table \<Rightarrow> call_pc \<Rightarrow> Table \<Rightarrow> call_pc \<Rightarrow> bool" where
  "lock_effect t pc t' pc' \<longleftrightarrow>
     (\<forall>n. mutex_count (next_id_lock t) (n + of_bool (in_id_section pc)) \<longrightarrow>
        mutex_count (next_id_lock t') (n + of_bool (in_id_section pc'))) \<and>
     (\<forall>i < 16. \<forall>w r. rw_count (bk_lock (buckets t ! i)) (w + of_bool (writing i pc)) (r + of_bool (reading i pc)) \<longrightarrow>
        rw_count (bk_lock (buckets t' ! i)) (w + of_bool (writing i pc')) (r + of_bool (reading i pc')))"

lemma number_split: "c < length xs \<Longrightarrow> \<exists>n. number P xs = n + of_bool (P (xs ! c)) \<and> (\<forall>x. number P (xs[c := x]) = n + of_bool (P x))"
proof (induction xs arbitrary: c)
  case (Cons y ys)
  show ?case
  proof (cases c)
    case 0
    then show ?thesis by (intro exI [of _ "number P ys"]) simp
  next
    case (Suc d)
    then obtain n where "number P ys = n + of_bool (P (ys ! d)) \<and> (\<forall>x. number P (ys[d := x]) = n + of_bool (P x))"
      using Cons by fastforce
    then show ?thesis using Suc by (intro exI [of _ "of_bool (P y) + n"]) simp
  qed
qed simp

lemma locks_step:
  assumes "locks_ok t calls" and "c < length calls" and "lock_effect t (calls ! c) t' pc'"
  shows "locks_ok t' (calls[c := pc'])"
  unfolding locks_ok_def
proof (intro conjI allI impI)
  obtain n where "number in_id_section calls = n + of_bool (in_id_section (calls ! c))"
    "number in_id_section (calls[c := pc']) = n + of_bool (in_id_section pc')" using number_split [OF assms(2)] by blast
  then show "mutex_count (next_id_lock t') (number in_id_section (calls[c := pc']))"
    using assms(1,3) by (simp add: locks_ok_def lock_effect_def)
next
  fix i :: nat
  assume i: "i < 16"
  obtain w where w: "number (writing i) calls = w + of_bool (writing i (calls ! c))"
    "number (writing i) (calls[c := pc']) = w + of_bool (writing i pc')" using number_split [OF assms(2)] by blast
  obtain r where r: "number (reading i) calls = r + of_bool (reading i (calls ! c))"
    "number (reading i) (calls[c := pc']) = r + of_bool (reading i pc')" using number_split [OF assms(2)] by blast
  have "rw_count (bk_lock (buckets t ! i)) (w + of_bool (writing i (calls ! c))) (r + of_bool (reading i (calls ! c)))"
    using assms(1) i w(1) r(1) unfolding locks_ok_def by metis
  then show "rw_count (bk_lock (buckets t' ! i)) (number (writing i) (calls[c := pc'])) (number (reading i) (calls[c := pc']))"
    unfolding w(2) r(2) using assms(3) i unfolding lock_effect_def by blast
qed

section \<open>Lock operations under contention\<close>

lemma mutex_lock_effect:
  assumes "pthread_mutex_lock m e = Some (locked, m', e')"
  shows "if locked then m = MutexFree \<and> m' = MutexHeld else m' = m"
  using assms by (auto simp: pthread_mutex_lock_def split: prod.splits if_splits mutex.splits)

lemma mutex_lock_waits:
  assumes "pthread_mutex_lock m e = None" and "m \<noteq> NoMutex"
  shows "m = MutexHeld"
  using assms by (cases m) (auto simp: pthread_mutex_lock_def split: prod.splits if_splits)

lemma bucket_wrlock_effect:
  assumes "bucket_wrlock t i e = Some (locked, t', e')"
  shows "i < length (buckets t)"
    and "if locked then bk_lock (buckets t ! i) = Unlocked \<and> t' = put_bucket t i ((buckets t ! i)\<lparr>bk_lock := WriteLocked\<rparr>) else t' = t"
proof -
  show i: "i < length (buckets t)" using assms by (auto simp: bucket_wrlock_def rd_def split: bind_splits if_splits)
  show "if locked then bk_lock (buckets t ! i) = Unlocked \<and> t' = put_bucket t i ((buckets t ! i)\<lparr>bk_lock := WriteLocked\<rparr>) else t' = t"
    using assms i by (auto simp: bucket_wrlock_def array_simps pthread_rwlock_wrlock_def split: prod.splits if_splits rwlock.splits)
qed

lemma bucket_wrlock_waits:
  "bucket_wrlock t i e = None \<Longrightarrow> i < length (buckets t) \<Longrightarrow> bk_lock (buckets t ! i) \<noteq> Unlocked"
  by (auto simp: bucket_wrlock_def array_simps pthread_rwlock_wrlock_def split: prod.splits if_splits)

fun read_lock :: "rwlock \<Rightarrow> rwlock" where
  "read_lock (ReadLocked n) = ReadLocked (Suc n)"
| "read_lock _ = ReadLocked 1"

lemma bucket_rdlock_effect:
  assumes "bucket_rdlock t i e = Some (locked, t', e')"
  shows "i < length (buckets t)"
    and "if locked then bk_lock (buckets t ! i) \<notin> {NoLock, WriteLocked} \<and>
      t' = put_bucket t i ((buckets t ! i)\<lparr>bk_lock := read_lock (bk_lock (buckets t ! i))\<rparr>) else t' = t"
proof -
  show i: "i < length (buckets t)" using assms by (auto simp: bucket_rdlock_def rd_def split: bind_splits if_splits)
  show "if locked then bk_lock (buckets t ! i) \<notin> {NoLock, WriteLocked} \<and>
      t' = put_bucket t i ((buckets t ! i)\<lparr>bk_lock := read_lock (bk_lock (buckets t ! i))\<rparr>) else t' = t"
    using assms i by (auto simp: bucket_rdlock_def array_simps pthread_rwlock_rdlock_def split: prod.splits if_splits rwlock.splits)
qed

lemma bucket_rdlock_waits:
  "bucket_rdlock t i e = None \<Longrightarrow> i < length (buckets t) \<Longrightarrow> bk_lock (buckets t ! i) \<in> {NoLock, WriteLocked}"
  by (auto simp: bucket_rdlock_def array_simps pthread_rwlock_rdlock_def split: prod.splits if_splits rwlock.splits)

fun release :: "rwlock \<Rightarrow> rwlock" where
  "release (ReadLocked n) = (if n \<le> 1 then Unlocked else ReadLocked (n - 1))"
| "release _ = Unlocked"

lemma bucket_unlock_effect:
  assumes "bucket_unlock t i = Some t'"
  shows "i < length (buckets t)" and "bk_lock (buckets t ! i) \<notin> {NoLock, Unlocked}"
    and "t' = put_bucket t i ((buckets t ! i)\<lparr>bk_lock := release (bk_lock (buckets t ! i))\<rparr>)"
proof -
  show i: "i < length (buckets t)" using assms by (auto simp: bucket_unlock_def rd_def split: bind_splits if_splits)
  show "bk_lock (buckets t ! i) \<notin> {NoLock, Unlocked}"
    "t' = put_bucket t i ((buckets t ! i)\<lparr>bk_lock := release (bk_lock (buckets t ! i))\<rparr>)"
    using assms i by (cases "bk_lock (buckets t ! i)"; auto simp: bucket_unlock_def array_simps)+
qed

lemma bucket_unlock_defined:
  "i < length (buckets t) \<Longrightarrow> bk_lock (buckets t ! i) \<notin> {NoLock, Unlocked} \<Longrightarrow> bucket_unlock t i \<noteq> None"
  by (cases "bk_lock (buckets t ! i)") (auto simp: bucket_unlock_def array_simps)

end
