(* ===== verification/Calls_Invariant.thy ===== *)
theory Calls_Invariant
  imports Calls_Locks
begin

text \<open>
  The invariant of the interleavings of table calls: what every call knows at its place, relative
  to the history of the insertions, and who owns which id.
\<close>

section \<open>What a call knows\<close>

text \<open>A query sees each bucket as it was at some moment; \<open>ks\<close> are the moments, as lengths of the
  history, for the buckets visited so far.\<close>

definition cuts :: "nat \<Rightarrow> Record list \<Rightarrow> nat \<Rightarrow> nat list \<Rightarrow> bool" where
  "cuts since log n ks \<longleftrightarrow> length ks = n \<and> sorted ks \<and> (\<forall>k \<in> set ks. since \<le> k \<and> k \<le> length log)"

definition bucket_parts :: "nat list \<Rightarrow> Record list \<Rightarrow> Record list" where
  "bucket_parts ks log = concat (map (\<lambda>j. filter (in_bucket j) (take (ks ! j) log)) [0..<length ks])"

definition filter_by :: "filter_test \<Rightarrow> Record list \<Rightarrow> Record list" where
  "filter_by test us = (case test of None \<Rightarrow> us | Some f \<Rightarrow> filter f us)"

definition collected :: "nat \<Rightarrow> Record list \<Rightarrow> (nat \<rightharpoonup> Record) \<Rightarrow> nat \<Rightarrow> RecordArray \<Rightarrow> bool" where
  "collected since log h n ra \<longleftrightarrow> (\<exists>ps ks. array_view ra ps \<and> cuts since log n ks \<and> denotes h ps (bucket_parts ks log))"

definition rows_answer :: "nat \<Rightarrow> Record list \<Rightarrow> (nat \<rightharpoonup> Record) \<Rightarrow> filter_test \<Rightarrow> RecordArray \<Rightarrow> bool" where
  "rows_answer since log h test ra \<longleftrightarrow>
     (\<exists>ps ks. array_view ra ps \<and> cuts since log 16 ks \<and> denotes h ps (filter_by test (sort_key rec_id (bucket_parts ks log))))"

definition found :: "nat \<Rightarrow> Record list \<Rightarrow> (nat \<rightharpoonup> Record) \<Rightarrow> int \<Rightarrow> nat option \<Rightarrow> bool" where
  "found since log h key r \<longleftrightarrow>
     (\<exists>k. since \<le> k \<and> k \<le> length log \<and> points_to h r (find (\<lambda>u. rec_id u = key) (take k log)))"

definition stored :: "nat \<Rightarrow> Record list \<Rightarrow> (nat \<rightharpoonup> Record) \<Rightarrow> int \<Rightarrow> string \<Rightarrow> int \<Rightarrow> nat \<Rightarrow> bool" where
  "stored since log h k name age p \<longleftrightarrow> inserted_record k name age \<in> set (drop since log) \<and> h p = Some (inserted_record k name age)"

fun insert_ok :: "string \<Rightarrow> int \<Rightarrow> nat \<Rightarrow> Record list \<Rightarrow> (nat \<rightharpoonup> Record) \<Rightarrow> insert_pc \<Rightarrow> bool" where
  "insert_ok name age since log h (Ins_Start n a) \<longleftrightarrow> n = name \<and> a = age"
| "insert_ok name age since log h (Ins_Id n a) \<longleftrightarrow> n = name \<and> a = age"
| "insert_ok name age since log h (Ins_Id_Unlock k n a) \<longleftrightarrow> n = name \<and> a = age"
| "insert_ok name age since log h (Ins_Lock k n a) \<longleftrightarrow> n = name \<and> a = age"
| "insert_ok name age since log h (Ins_Body k n a) \<longleftrightarrow> n = name \<and> a = age"
| "insert_ok name age since log h (Ins_Unlock k r) \<longleftrightarrow> (\<forall>p. r = Some p \<longrightarrow> stored since log h k name age p)"

fun find_ok :: "int \<Rightarrow> nat \<Rightarrow> Record list \<Rightarrow> (nat \<rightharpoonup> Record) \<Rightarrow> find_pc \<Rightarrow> bool" where
  "find_ok key since log h (Find_Lock k) \<longleftrightarrow> k = key"
| "find_ok key since log h (Find_Body k) \<longleftrightarrow> k = key"
| "find_ok key since log h (Find_Unlock k r) \<longleftrightarrow> k = key \<and> found since log h key r"

fun collect_ok :: "filter_test \<Rightarrow> nat \<Rightarrow> Record list \<Rightarrow> (nat \<rightharpoonup> Record) \<Rightarrow> collect_pc \<Rightarrow> bool" where
  "collect_ok test since log h (Col_Lock test' index ra) \<longleftrightarrow> test' = test \<and> index \<le> 16 \<and> collected since log h index ra"
| "collect_ok test since log h (Col_Body test' index ra) \<longleftrightarrow> test' = test \<and> index < 16 \<and> collected since log h index ra"
| "collect_ok test since log h (Col_Unlock test' index ok ra) \<longleftrightarrow>
     test' = test \<and> index < 16 \<and> (ok \<longrightarrow> collected since log h (Suc index) ra)"
| "collect_ok test since log h (Col_Sort test' ra) \<longleftrightarrow> test' = test \<and> collected since log h 16 ra"
| "collect_ok test since log h (Col_Filter f ra) \<longleftrightarrow> test = Some f \<and> rows_answer since log h None ra"

fun result_ok :: "table_op \<Rightarrow> nat \<Rightarrow> Record list \<Rightarrow> (nat \<rightharpoonup> Record) \<Rightarrow> call_result \<Rightarrow> bool" where
  "result_ok (Op_Insert name age) since log h (Res_Record r) \<longleftrightarrow> (\<forall>p. r = Some p \<longrightarrow> (\<exists>k. stored since log h k name age p))"
| "result_ok (Op_Find key) since log h (Res_Record r) \<longleftrightarrow> r = None \<or> found since log h key r"
| "result_ok (Op_Collect test) since log h (Res_Rows ok ra) \<longleftrightarrow>
     (if ok then rows_answer since log h test ra else ra_cells ra = [] \<and> ra_count ra = 0)"
| "result_ok _ since log h _ \<longleftrightarrow> False"

fun call_ok :: "table_op \<Rightarrow> nat \<Rightarrow> Record list \<Rightarrow> (nat \<rightharpoonup> Record) \<Rightarrow> call_pc \<Rightarrow> bool" where
  "call_ok (Op_Insert name age) since log h (Inserting pc) \<longleftrightarrow> insert_ok name age since log h pc"
| "call_ok (Op_Find key) since log h (Finding pc) \<longleftrightarrow> find_ok key since log h pc"
| "call_ok (Op_Collect test) since log h (Collecting pc) \<longleftrightarrow> collect_ok test since log h pc"
| "call_ok op since log h (Returned r) \<longleftrightarrow> result_ok op since log h r"
| "call_ok _ since log h _ \<longleftrightarrow> False"

section \<open>Knowledge stays true\<close>

definition later :: "Record list \<Rightarrow> (nat \<rightharpoonup> Record) \<Rightarrow> Record list \<Rightarrow> (nat \<rightharpoonup> Record) \<Rightarrow> bool" where
  "later log h log' h' \<longleftrightarrow> (\<exists>zs. log' = log @ zs) \<and> h \<subseteq>\<^sub>m h'"

lemma later_refl [simp]: "later log h log h"
  by (simp add: later_def)

lemma denotes_mono: "denotes h ps us \<Longrightarrow> h \<subseteq>\<^sub>m h' \<Longrightarrow> denotes h' ps us"
proof (induction ps arbitrary: us)
  case (Cons p ps)
  then obtain u vs where us: "us = u # vs" "h p = Some u" "denotes h ps vs" by (cases us) (auto simp: denotes_def)
  then have "h' p = Some u" using Cons.prems(2) by (auto simp: map_le_def dom_def)
  then show ?case using Cons.IH [OF us(3) Cons.prems(2)] us(1) by (simp add: denotes_def)
qed (simp add: denotes_def)

lemma points_to_mono: "points_to h r u \<Longrightarrow> h \<subseteq>\<^sub>m h' \<Longrightarrow> points_to h' r u"
  by (cases r) (auto simp: points_to_def map_le_def dom_def)

lemma cuts_append: "cuts since log n ks \<Longrightarrow> cuts since (log @ zs) n ks"
  by (fastforce simp: cuts_def)

lemma bucket_parts_append: "cuts since log n ks \<Longrightarrow> bucket_parts ks (log @ zs) = bucket_parts ks log"
  unfolding bucket_parts_def by (intro arg_cong [where f = concat] map_cong refl) (auto simp: cuts_def)

lemma collected_mono: "collected since log h n ra \<Longrightarrow> later log h log' h' \<Longrightarrow> collected since log' h' n ra"
  unfolding collected_def later_def using cuts_append bucket_parts_append denotes_mono by metis

lemma rows_answer_mono: "rows_answer since log h test ra \<Longrightarrow> later log h log' h' \<Longrightarrow> rows_answer since log' h' test ra"
  unfolding rows_answer_def later_def using cuts_append bucket_parts_append denotes_mono by metis

lemma found_mono: "found since log h key r \<Longrightarrow> later log h log' h' \<Longrightarrow> found since log' h' key r"
proof -
  assume f: "found since log h key r" and l: "later log h log' h'"
  obtain zs where zs: "log' = log @ zs" "h \<subseteq>\<^sub>m h'" using l by (auto simp: later_def)
  obtain k where k: "since \<le> k" "k \<le> length log" "points_to h r (find (\<lambda>u. rec_id u = key) (take k log))"
    using f by (auto simp: found_def)
  then show "found since log' h' key r" unfolding found_def zs(1)
    using points_to_mono [OF k(3) zs(2)] by (intro exI [of _ k]) simp
qed

lemma stored_mono: "stored since log h k name age p \<Longrightarrow> later log h log' h' \<Longrightarrow> stored since log' h' k name age p"
  by (auto simp: stored_def later_def map_le_def dom_def)

lemma call_ok_mono:
  assumes "call_ok op since log h pc" and l: "later log h log' h'"
  shows "call_ok op since log' h' pc"
proof (cases pc)
  case (Inserting i)
  then show ?thesis using assms stored_mono [OF _ l] by (cases op; cases i) auto
next
  case (Finding f)
  then show ?thesis using assms found_mono [OF _ l] by (cases op; cases f) auto
next
  case (Collecting c)
  then show ?thesis using assms collected_mono [OF _ l] rows_answer_mono [OF _ l] by (cases op; cases c) auto
next
  case (Returned r)
  then show ?thesis using assms(1)
    by (cases op; cases r) (auto split: if_splits intro: found_mono [OF _ l] rows_answer_mono [OF _ l] stored_mono [OF _ l])
qed

section \<open>Ids\<close>

text \<open>The id that a call has taken, and the record that it has put into the table.\<close>

fun owned :: "(nat \<rightharpoonup> Record) \<Rightarrow> table_op \<Rightarrow> call_pc \<Rightarrow> int option" where
  "owned h op (Inserting (Ins_Id_Unlock k name age)) = Some k"
| "owned h op (Inserting (Ins_Lock k name age)) = Some k"
| "owned h op (Inserting (Ins_Body k name age)) = Some k"
| "owned h op (Inserting (Ins_Unlock k r)) = Some k"
| "owned h (Op_Insert name age) (Returned (Res_Record (Some p))) = map_option rec_id (h p)"
| "owned h op pc = None"

fun pending :: "call_pc \<Rightarrow> bool" where
  "pending (Inserting (Ins_Id_Unlock k name age)) \<longleftrightarrow> True"
| "pending (Inserting (Ins_Lock k name age)) \<longleftrightarrow> True"
| "pending (Inserting (Ins_Body k name age)) \<longleftrightarrow> True"
| "pending pc \<longleftrightarrow> False"

fun made :: "(nat \<rightharpoonup> Record) \<Rightarrow> table_op \<Rightarrow> call_pc \<Rightarrow> Record option" where
  "made h op (Inserting (Ins_Unlock k (Some p))) = h p"
| "made h (Op_Insert name age) (Returned (Res_Record (Some p))) = h p"
| "made h op pc = None"

definition ids_ok :: "int \<Rightarrow> (nat \<rightharpoonup> Record) \<Rightarrow> Record list \<Rightarrow> table_op list \<Rightarrow> call_pc list \<Rightarrow> bool" where
  "ids_ok n h log ops calls \<longleftrightarrow>
     (\<forall>c < length calls. \<forall>k. owned h (ops ! c) (calls ! c) = Some k \<longrightarrow>
        1 \<le> k \<and> k < n \<and> (pending (calls ! c) \<longrightarrow> k \<notin> rec_id ` set log)) \<and>
     (\<forall>c < length calls. \<forall>d < length calls. \<forall>k. c \<noteq> d \<longrightarrow>
        owned h (ops ! c) (calls ! c) = Some k \<longrightarrow> owned h (ops ! d) (calls ! d) \<noteq> Some k) \<and>
     (\<forall>u \<in> set log. \<exists>c < length calls. made h (ops ! c) (calls ! c) = Some u)"

text \<open>What one step does to the ids and to the history.\<close>

definition id_effect :: "int \<Rightarrow> (nat \<rightharpoonup> Record) \<Rightarrow> Record list \<Rightarrow> table_op \<Rightarrow> call_pc \<Rightarrow> int \<Rightarrow> (nat \<rightharpoonup> Record) \<Rightarrow> Record list \<Rightarrow> call_pc \<Rightarrow> bool" where
  "id_effect n h log op pc n' h' log' pc' \<longleftrightarrow>
     h \<subseteq>\<^sub>m h' \<and> n \<le> n' \<and>
     (owned h' op pc' = None \<or> owned h' op pc' = owned h op pc \<or> (owned h op pc = None \<and> owned h' op pc' = Some n \<and> n < n')) \<and>
     (pending pc' \<longrightarrow> log' = log \<and> (pending pc \<or> owned h' op pc' = Some n)) \<and>
     (\<forall>u. made h op pc = Some u \<longrightarrow> made h' op pc' = Some u) \<and>
     (log' = log \<or> (\<exists>u. log' = log @ [u] \<and> owned h op pc = Some (rec_id u) \<and> made h' op pc' = Some u))"

lemma owned_mono: "h \<subseteq>\<^sub>m h' \<Longrightarrow> owned h op pc = Some k \<Longrightarrow> owned h' op pc = Some k"
  by (cases "(h, op, pc)" rule: owned.cases) (auto simp: map_le_def dom_def)

lemma made_mono: "h \<subseteq>\<^sub>m h' \<Longrightarrow> made h op pc = Some u \<Longrightarrow> made h' op pc = Some u"
  by (cases "(h, op, pc)" rule: made.cases) (auto simp: map_le_def dom_def)

lemma call_ok_owned:
  assumes "call_ok op since log h pc" and "h \<subseteq>\<^sub>m h'"
  shows "owned h' op pc = owned h op pc"
  using assms by (cases "(h, op, pc)" rule: owned.cases) (auto simp: map_le_def dom_def stored_def)

lemma ids_step:
  assumes i: "ids_ok n h log ops calls" and c: "c < length calls" and e: "id_effect n h log (ops ! c) (calls ! c) n' h' log' pc'"
    and known: "\<And>d. d < length calls \<Longrightarrow> call_ok (ops ! d) (since ! d) log h (calls ! d)"
    and bound: "\<forall>u \<in> set log. rec_id u < n" "1 \<le> n"
  shows "ids_ok n' h' log' ops (calls[c := pc'])"
proof -
  have h: "h \<subseteq>\<^sub>m h'" and n: "n \<le> n'" using e by (simp_all add: id_effect_def)
  note own = call_ok_owned [OF known h]
  have taken: "1 \<le> k \<and> k < n" if "d < length calls" "owned h (ops ! d) (calls ! d) = Some k" for d k
    using i that by (auto simp: ids_ok_def)
  have new: "owned h' (ops ! c) pc' = Some k \<Longrightarrow> owned h (ops ! c) (calls ! c) = Some k \<or> (k = n \<and> n < n')" for k
    using e by (auto simp: id_effect_def)
  show ?thesis unfolding ids_ok_def
  proof (intro conjI allI impI ballI)
    fix d k
    assume d: "d < length (calls[c := pc'])" "owned h' (ops ! d) (calls[c := pc'] ! d) = Some k"
    show "1 \<le> k" "k < n'"
      using d own [of d] taken [of d k] taken [of c k] new [of k] c n bound(2) by (cases "d = c"; fastforce)+
    assume p: "pending (calls[c := pc'] ! d)"
    show "k \<notin> rec_id ` set log'"
    proof (cases "d = c")
      case True
      then have p': "pending pc'" and ok: "owned h' (ops ! c) pc' = Some k" using d p c by simp_all
      then have "log' = log" "pending (calls ! c) \<or> owned h' (ops ! c) pc' = Some n" using e by (simp_all add: id_effect_def)
      moreover have "n \<notin> rec_id ` set log" using bound by auto
      moreover have "k \<noteq> n \<Longrightarrow> pending (calls ! c) \<Longrightarrow> k \<notin> rec_id ` set log"
        using new [OF ok] i c by (auto simp: ids_ok_def)
      ultimately show ?thesis using ok by auto
    next
      case False
      then have k: "owned h (ops ! d) (calls ! d) = Some k" "d < length calls" "pending (calls ! d)" using d p own [of d] by simp_all
      then have old: "k \<notin> rec_id ` set log" using i by (auto simp: ids_ok_def)
      have "owned h (ops ! c) (calls ! c) \<noteq> Some k" using i k(1,2) c False unfolding ids_ok_def by metis
      then have "\<forall>u. log' = log @ [u] \<and> owned h (ops ! c) (calls ! c) = Some (rec_id u) \<longrightarrow> rec_id u \<noteq> k" by auto
      moreover have "log' = log \<or> (\<exists>u. log' = log @ [u] \<and> owned h (ops ! c) (calls ! c) = Some (rec_id u))"
        using e by (auto simp: id_effect_def)
      ultimately show ?thesis using old by auto
    qed
  next
    fix d d' k
    assume d: "d < length (calls[c := pc'])" "d' < length (calls[c := pc'])" "d \<noteq> d'"
      and k: "owned h' (ops ! d) (calls[c := pc'] ! d) = Some k"
    have apart: "owned h (ops ! a) (calls ! a) = Some k \<Longrightarrow> owned h (ops ! b) (calls ! b) \<noteq> Some k"
      if "a < length calls" "b < length calls" "a \<noteq> b" for a b
      using i that unfolding ids_ok_def by blast
    show "owned h' (ops ! d') (calls[c := pc'] ! d') \<noteq> Some k"
    proof
      assume k': "owned h' (ops ! d') (calls[c := pc'] ! d') = Some k"
      consider "d = c" "d' \<noteq> c" | "d' = c" "d \<noteq> c" | "d \<noteq> c" "d' \<noteq> c" using d(3) by blast
      then show False
      proof cases
        case 1
        then have "owned h (ops ! d') (calls ! d') = Some k" "owned h' (ops ! c) pc' = Some k" using k k' d own [of d'] by simp_all
        then show False using new [of k] apart [of d' c] taken [of d' k] d 1 c by auto
      next
        case 2
        then have "owned h (ops ! d) (calls ! d) = Some k" "owned h' (ops ! c) pc' = Some k" using k k' d own [of d] by simp_all
        then show False using new [of k] apart [of d c] taken [of d k] d 2 c by auto
      next
        case 3
        then show False using k k' d own [of d] own [of d'] apart [of d d'] by simp
      qed
    qed
  next
    fix u
    assume "u \<in> set log'"
    then consider "u \<in> set log" | "made h' (ops ! c) pc' = Some u" using e by (auto simp: id_effect_def)
    then show "\<exists>d < length (calls[c := pc']). made h' (ops ! d) (calls[c := pc'] ! d) = Some u"
    proof cases
      case 1
      then obtain d where d: "d < length calls" "made h (ops ! d) (calls ! d) = Some u" using i by (auto simp: ids_ok_def)
      then have "made h' (ops ! d) (calls[c := pc'] ! d) = Some u"
        using e made_mono [OF h d(2)] by (cases "d = c") (auto simp: id_effect_def)
      then show ?thesis using d(1) by auto
    next
      case 2
      then show ?thesis using c by (intro exI [of _ c]) simp
    qed
  qed
qed

end
