(* ===== verification/Calls_Steps.thy ===== *)
theory Calls_Steps
  imports Calls_Invariant
begin

text \<open>
  Every step of a call keeps the invariant of the interleavings, and no step is undefined: a call
  that cannot go on has returned, or waits for a lock that another call holds.
\<close>

section \<open>Effects on locks\<close>

lemma lock_effect_same:
  assumes "next_id_lock t' = next_id_lock t" and "\<And>i. i < 16 \<Longrightarrow> bk_lock (buckets t' ! i) = bk_lock (buckets t ! i)"
    and "in_id_section pc' = in_id_section pc" and "\<And>i. writing i pc' = writing i pc" and "\<And>i. reading i pc' = reading i pc"
  shows "lock_effect t pc t' pc'"
  using assms by (simp add: lock_effect_def)

lemma lock_effect_bucket:
  assumes "i < length (buckets t)" and "\<not> in_id_section pc" and "\<not> in_id_section pc'"
    and "\<And>j. j \<noteq> i \<Longrightarrow> writing j pc' = writing j pc \<and> reading j pc' = reading j pc"
    and "\<And>w r. rw_count (bk_lock (buckets t ! i)) (w + of_bool (writing i pc)) (r + of_bool (reading i pc)) \<Longrightarrow>
      rw_count l (w + of_bool (writing i pc')) (r + of_bool (reading i pc'))"
  shows "lock_effect t pc (put_bucket t i ((buckets t ! i)\<lparr>bk_lock := l\<rparr>)) pc'"
  unfolding lock_effect_def
proof (intro conjI allI impI)
  fix n
  assume "mutex_count (next_id_lock t) (n + of_bool (in_id_section pc))"
  then show "mutex_count (next_id_lock (put_bucket t i ((buckets t ! i)\<lparr>bk_lock := l\<rparr>))) (n + of_bool (in_id_section pc'))"
    using assms(2,3) by (simp add: put_bucket_def)
next
  fix j w r
  assume "rw_count (bk_lock (buckets t ! j)) (w + of_bool (writing j pc)) (r + of_bool (reading j pc))"
  then show "rw_count (bk_lock (buckets (put_bucket t i ((buckets t ! i)\<lparr>bk_lock := l\<rparr>)) ! j)) (w + of_bool (writing j pc')) (r + of_bool (reading j pc'))"
    using assms(1,4,5) by (cases "j = i") (auto simp: put_bucket_def)
qed

lemma lock_effect_mutex:
  assumes "\<And>n. mutex_count (next_id_lock t) (n + of_bool (in_id_section pc)) \<Longrightarrow> mutex_count m (n + of_bool (in_id_section pc'))"
    and "\<And>i. writing i pc' = writing i pc" and "\<And>i. reading i pc' = reading i pc"
  shows "lock_effect t pc (t\<lparr>next_id_lock := m\<rparr>) pc'"
  using assms by (simp add: lock_effect_def)

lemma id_effect_refl:
  assumes "owned h op pc' = None \<or> owned h op pc' = owned h op pc" and "pending pc' \<Longrightarrow> pending pc"
    and "\<And>u. made h op pc = Some u \<Longrightarrow> made h op pc' = Some u"
  shows "id_effect n h log op pc n h log pc'"
  using assms by (auto simp: id_effect_def)

section \<open>Reading the store\<close>

lemma found_in_store:
  assumes s: "store_ok t pss log" and b: "rd (buckets t) (table_bucket_index_for_id key) = Some b"
    and r: "bptree_search (pk_index b) key = Some r"
  shows "points_to (rec_heap t) r (find (\<lambda>u. rec_id u = key) log)"
proof -
  let ?i = "table_bucket_index_for_id key" and ?h = "rec_heap t"
  have i: "?i < 16" by (rule bucket_index_less)
  have b': "b = buckets t ! ?i" using b by (simp add: rd_eq_Some_iff)
  then obtain ix es where ix: "pk_index b = Some ix" "bptree_entries ix es" "set es = (\<lambda>p. (rid ?h p, Some p)) ` set (pss ! ?i)"
    using store_bucket(1) [OF s i] by (auto simp: bucket_ok_def)
  then have r': "r = (case map_of es key of None \<Rightarrow> None | Some v \<Rightarrow> v)" using r bp.ix_search_model [OF ix(2), of key] by simp
  have rows: "map (\<lambda>p. the (?h p)) (pss ! ?i) = filter (in_bucket ?i) log" by (rule denotes_the [OF store_bucket(2) [OF s i]])
  have d: "distinct (map rec_id log)" using s by (simp add: store_ok_def)
  show ?thesis
  proof (cases "map_of es key")
    case None
    have "rec_id u \<noteq> key" if "u \<in> set log" for u
    proof
      assume key: "rec_id u = key"
      then have "u \<in> set (map (\<lambda>p. the (?h p)) (pss ! ?i))" unfolding rows using that by (simp add: in_bucket_def)
      then obtain p where "p \<in> set (pss ! ?i)" "the (?h p) = u" by auto
      then have "(key, Some p) \<in> set es" unfolding ix(3) using key by (auto simp: rid_def)
      then show False using None by (simp add: map_of_eq_None_iff) force
    qed
    then have "find (\<lambda>u. rec_id u = key) log = None" by (simp add: find_None_iff)
    then show ?thesis using r' None by (simp add: points_to_def)
  next
    case (Some v)
    then obtain p where p: "p \<in> set (pss ! ?i)" "rid ?h p = key" "v = Some p" using map_of_SomeD [OF Some] ix(3) by auto
    then obtain u where u: "?h p = Some u" using store_bucket(1) [OF s i] by (auto simp: bucket_ok_def)
    have "u \<in> set log" using p(1) u rows by (metis filter_is_subset image_eqI list.set_map option.sel subsetD)
    moreover have "rec_id u = key" using p(2) u by (simp add: rid_def)
    ultimately have "find (\<lambda>u. rec_id u = key) log = Some u" using d
    proof (induction log)
      case (Cons v log)
      then show ?case by (auto simp: image_iff)
    qed simp
    then show ?thesis using r' Some p(3) u by (simp add: points_to_def)
  qed
qed

section \<open>One step\<close>

definition step_effect :: "table_op \<Rightarrow> nat \<Rightarrow> Table \<Rightarrow> Record list \<Rightarrow> call_pc \<Rightarrow> Table \<Rightarrow> Record list \<Rightarrow> call_pc \<Rightarrow> bool" where
  "step_effect op since t log pc t' log' pc' \<longleftrightarrow>
     (\<exists>pss'. store_ok t' pss' log') \<and> (\<exists>zs. log' = log @ zs) \<and> call_ok op since log' (rec_heap t') pc' \<and>
     lock_effect t pc t' pc' \<and> id_effect (next_id t) (rec_heap t) log op pc (next_id t') (rec_heap t') log' pc'"

text \<open>A step that leaves the data alone.\<close>

lemma step_effect_same:
  assumes "store_ok t pss log" and "same_data t t'" and "call_ok op since log (rec_heap t) pc'" and "lock_effect t pc t' pc'"
    and "id_effect (next_id t) (rec_heap t) log op pc (next_id t) (rec_heap t) log pc'"
  shows "step_effect op since t log pc t' log pc'"
  using assms store_same [OF assms(2,1)] by (auto simp: step_effect_def same_data_def)

lemma same_data_relock: "i < length (buckets t) \<Longrightarrow> same_data t (put_bucket t i ((buckets t ! i)\<lparr>bk_lock := l\<rparr>))"
  by (rule same_data_bucket) simp_all

lemma insert_step_effect:
  assumes s: "store_ok t pss log" and k: "call_ok op since log (rec_heap t) (Inserting pc)" and since: "since \<le> length log"
    and pend: "\<And>k. pending (Inserting pc) \<Longrightarrow> owned (rec_heap t) op (Inserting pc) = Some k \<Longrightarrow> 1 \<le> k \<and> k < next_id t \<and> k \<notin> rec_id ` set log"
    and g: "harmless (Inserting pc) e" and step: "insert_step t pc e = Some (t', pc', e')"
  shows "step_effect op since t log (Inserting pc) t' (log @ (if commits (Inserting pc) then committed t' pc' else [])) pc'"
proof -
  obtain name age where op: "op = Op_Insert name age" using k by (cases op) simp_all
  show ?thesis
  proof (cases pc)
    case (Ins_Start n a)
    obtain locked m where m: "pthread_mutex_lock (next_id_lock t) e = Some (locked, m, e')" "t' = t\<lparr>next_id_lock := m\<rparr>"
      "pc' = (if locked then Inserting (Ins_Id n a) else Returned (Res_Record None))"
      using step Ins_Start by (auto split: bind_splits)
    note lock = mutex_lock_effect [OF m(1)]
    have "lock_effect t (Inserting pc) t' pc'" unfolding m(2) using lock m(3) Ins_Start by (intro lock_effect_mutex) (cases locked; simp)+
    moreover have "same_data t t'" unfolding m(2) by simp
    ultimately show ?thesis using k Ins_Start op m(3)
      by (auto simp: commits_def intro!: step_effect_same [OF s] id_effect_refl)
  next
    case (Ins_Id n a)
    then have t': "t' = t\<lparr>next_id := next_id t + 1\<rparr>" and pc': "pc' = Inserting (Ins_Id_Unlock (next_id t) n a)" and "next_id t \<noteq> INT_MAX"
      using step by (auto split: if_splits)
    then have "next_id t < INT_MAX" using s by (simp add: store_ok_def)
    from store_next_id [OF s this] show ?thesis using k Ins_Id op t' pc'
      by (auto simp: step_effect_def commits_def id_effect_def intro!: lock_effect_same)
  next
    case (Ins_Id_Unlock j n a)
    obtain m where m: "pthread_mutex_unlock (next_id_lock t) = Some m" "t' = t\<lparr>next_id_lock := m\<rparr>" "pc' = Inserting (Ins_Lock j n a)"
      using step Ins_Id_Unlock by (auto split: bind_splits)
    show ?thesis using k Ins_Id_Unlock op m(2,3) m(1)
      by (cases "next_id_lock t") (auto simp: commits_def intro!: step_effect_same [OF s] lock_effect_mutex id_effect_refl)
  next
    case (Ins_Lock j n a)
    let ?i = "table_bucket_index_for_id j"
    obtain locked where l: "bucket_wrlock t ?i e = Some (locked, t', e')"
      "pc' = (if locked then Inserting (Ins_Body j n a) else Returned (Res_Record None))"
      using step Ins_Lock by (auto split: bind_splits)
    note lock = bucket_wrlock_effect [OF l(1)]
    show ?thesis
    proof (cases locked)
      case True
      then show ?thesis using k Ins_Lock op l(2) lock
        by (auto simp: commits_def same_data_relock intro!: step_effect_same [OF s] lock_effect_bucket id_effect_refl)
    next
      case False
      then show ?thesis using k Ins_Lock op l(2) lock
        by (auto simp: commits_def intro!: step_effect_same [OF s] lock_effect_same id_effect_refl)
    qed
  next
    case (Ins_Body j n a)
    let ?u = "inserted_record j n a"
    have j: "1 \<le> j" "j < next_id t" "j \<notin> rec_id ` set log" and na: "n = name" "a = age" using pend [of j] Ins_Body k op by simp_all
    have "guarded 1 e" using g Ins_Body by (simp add: harmless_def commits_def)
    from insert_body_ok [OF s j(3,1,2) this, of n a] step Ins_Body
    obtain r where r: "body_effect t pss log ?u r t'" "pc' = Inserting (Ins_Unlock j r)"
      by (auto split: bind_splits)
    have locks: "bk_lock (buckets t' ! i) = bk_lock (buckets t ! i)" if "i < 16" for i
    proof -
      have "map bk_lock (buckets t') = map bk_lock (buckets t)" "length (buckets t) = 16" using r(1) s by (simp_all add: body_effect_def store_ok_def)
      then show ?thesis using that by (metis length_map nth_map)
    qed
    have le: "lock_effect t (Inserting pc) t' pc'" using locks r Ins_Body
      by (auto simp: body_effect_def intro!: lock_effect_same)
    show ?thesis
    proof (cases r)
      case None
      then show ?thesis using le r Ins_Body op by (auto simp: step_effect_def body_effect_def commits_def id_effect_def)
    next
      case (Some p)
      then have h: "rec_heap t p = None" "rec_heap t' = (rec_heap t)(p \<mapsto> ?u)" and st: "\<exists>pss'. store_ok t' pss' (log @ [?u])"
        and n: "next_id t' = next_id t" using r(1) by (auto simp: body_effect_def)
      have "committed t' pc' = [?u]" using r(2) Some h(2) by simp
      moreover have "call_ok op since (log @ [?u]) (rec_heap t') pc'" using op na r(2) Some h(2) since by (simp add: stored_def)
      moreover have "id_effect (next_id t) (rec_heap t) log op (Inserting pc) (next_id t') (rec_heap t') (log @ [?u]) pc'"
        using h n r(2) Some Ins_Body by (auto simp: id_effect_def inserted_record_def map_le_def)
      ultimately show ?thesis using st le Ins_Body by (simp add: step_effect_def commits_def)
    qed
  next
    case (Ins_Unlock j r)
    let ?i = "table_bucket_index_for_id j"
    have l: "bucket_unlock t ?i = Some t'" "pc' = Returned (Res_Record r)" using step Ins_Unlock by (auto split: bind_splits)
    note lock = bucket_unlock_effect [OF l(1)]
    have "lock_effect t (Inserting pc) t' pc'" unfolding lock(3)
      using lock(1,2) Ins_Unlock l(2) by (intro lock_effect_bucket) (cases "bk_lock (buckets t ! ?i)"; auto)+
    moreover have "same_data t t'" unfolding lock(3) by (rule same_data_relock [OF lock(1)])
    ultimately show ?thesis using k Ins_Unlock op l(2)
      by (cases r) (auto simp: commits_def stored_def inserted_record_def intro!: step_effect_same [OF s] id_effect_refl)
  qed
qed

lemma find_step_effect:
  assumes s: "store_ok t pss log" and k: "call_ok op since log (rec_heap t) (Finding pc)" and since: "since \<le> length log"
    and step: "find_step t pc e = Some (t', pc', e')"
  shows "step_effect op since t log (Finding pc) t' log pc'"
proof -
  obtain key where op: "op = Op_Find key" using k by (cases op) simp_all
  let ?i = "table_bucket_index_for_id key"
  show ?thesis
  proof (cases pc)
    case (Find_Lock key')
    then have key: "key' = key" using k op by simp
    obtain locked where l: "bucket_rdlock t ?i e = Some (locked, t', e')"
      "pc' = (if locked then Finding (Find_Body key) else Returned (Res_Record None))"
      using step Find_Lock key by (auto split: bind_splits)
    note lock = bucket_rdlock_effect [OF l(1)]
    show ?thesis
    proof (cases locked)
      case True
      then have t': "t' = put_bucket t ?i ((buckets t ! ?i)\<lparr>bk_lock := read_lock (bk_lock (buckets t ! ?i))\<rparr>)"
        and free: "bk_lock (buckets t ! ?i) \<notin> {NoLock, WriteLocked}" using lock(2) by simp_all
      have "lock_effect t (Finding pc) t' pc'" unfolding t'
        using lock(1) free Find_Lock l(2) True by (intro lock_effect_bucket) (cases "bk_lock (buckets t ! ?i)"; auto)+
      moreover have "same_data t t'" unfolding t' by (rule same_data_relock [OF lock(1)])
      ultimately show ?thesis using k Find_Lock op l(2) True
        by (auto intro!: step_effect_same [OF s] id_effect_refl)
    next
      case False
      then show ?thesis using k Find_Lock op l(2) lock
        by (auto intro!: step_effect_same [OF s] lock_effect_same id_effect_refl)
    qed
  next
    case (Find_Body key')
    then have key: "key' = key" using k op by simp
    obtain b r where b: "rd (buckets t) ?i = Some b" "bptree_search (pk_index b) key = Some r"
      "t' = t" "pc' = Finding (Find_Unlock key r)"
      using step Find_Body key by (auto split: bind_splits)
    have "found since log (rec_heap t) key r" using found_in_store [OF s b(1,2)] since by (auto simp: found_def intro: exI [of _ "length log"])
    then show ?thesis using k Find_Body op b(3,4) key
      by (auto intro!: step_effect_same [OF s] lock_effect_same id_effect_refl)
  next
    case (Find_Unlock key' r)
    then have key: "key' = key" using k op by simp
    have l: "bucket_unlock t ?i = Some t'" "pc' = Returned (Res_Record r)" using step Find_Unlock key by (auto split: bind_splits)
    note lock = bucket_unlock_effect [OF l(1)]
    have "lock_effect t (Finding pc) t' pc'" unfolding lock(3)
      using lock(1,2) Find_Unlock l(2) key by (intro lock_effect_bucket) (cases "bk_lock (buckets t ! ?i)"; auto)+
    moreover have "same_data t t'" unfolding lock(3) by (rule same_data_relock [OF lock(1)])
    ultimately show ?thesis using k Find_Unlock op l(2)
      by (auto intro!: step_effect_same [OF s] id_effect_refl)
  qed
qed

section \<open>Steps of a collection\<close>

lemma bucket_parts_snoc:
  "bucket_parts (ks @ [k]) log = bucket_parts ks log @ filter (in_bucket (length ks)) (take k log)"
proof -
  have "map (\<lambda>j. filter (in_bucket j) (take ((ks @ [k]) ! j) log)) [0..<length ks] =
      map (\<lambda>j. filter (in_bucket j) (take (ks ! j) log)) [0..<length ks]"
    by (intro map_cong) (auto simp: nth_append)
  then show ?thesis unfolding bucket_parts_def by (simp del: map_eq_conv)
qed

lemma cuts_snoc: "cuts since log n ks \<Longrightarrow> since \<le> length log \<Longrightarrow> cuts since log (Suc n) (ks @ [length log])"
  by (auto simp: cuts_def sorted_append)

lemma denotes_append: "denotes h ps us \<Longrightarrow> denotes h qs vs \<Longrightarrow> denotes h (ps @ qs) (us @ vs)"
  by (simp add: denotes_def)

lemma collect_body_ok:
  assumes s: "store_ok t pss log" and i: "i < 16" and c: "collected since log (rec_heap t) i ra" and since: "since \<le> length log"
  shows "\<exists>ok ra' e'. table_collect_bucket_rows_locked (buckets t ! i) ra e = Some (ok, ra', e') \<and>
    (ok \<longrightarrow> collected since log (rec_heap t) (Suc i) ra') \<and> (all_succeed e \<longrightarrow> ok)"
proof -
  obtain ps ks where k: "array_view ra ps" "cuts since log i ks" "denotes (rec_heap t) ps (bucket_parts ks log)"
    using c by (auto simp: collected_def)
  note b = store_bucket [OF s i]
  obtain ok ra' e' where r: "table_collect_bucket_rows_locked (buckets t ! i) ra e = Some (ok, ra', e')"
    "ok \<longrightarrow> array_view ra' (ps @ pss ! i)" "all_succeed e \<longrightarrow> ok"
    using collect_bucket_ok [OF b(1) k(1), of "bk_lock (buckets t ! i)" e] by auto
  have "length ks = i" using k(2) by (simp add: cuts_def)
  then have "denotes (rec_heap t) (ps @ pss ! i) (bucket_parts (ks @ [length log]) log)"
    using denotes_append [OF k(3) b(2)] by (simp add: bucket_parts_snoc)
  then have "ok \<longrightarrow> collected since log (rec_heap t) (Suc i) ra'"
    unfolding collected_def using r(2) cuts_snoc [OF k(2) since] by blast
  then show ?thesis using r by blast
qed

lemma denotes_sort: "denotes h ps us \<Longrightarrow> denotes h (sort_key (rid h) ps) (sort_key rec_id us)"
proof -
  assume d: "denotes h ps us"
  have valid: "\<forall>p \<in> set ps. h p \<noteq> None" using d unfolding denotes_def by (metis in_set_conv_nth length_map nth_map option.simps(3))
  have "map Some (sort_key rec_id us) = map Some (sort_key rec_id (map (\<lambda>p. the (h p)) ps))" using denotes_the [OF d] by simp
  also have "\<dots> = map (\<lambda>p. Some (the (h p))) (sort_key (rid h) ps)"
    unfolding map_sort_key [symmetric] rid_def by simp
  also have "\<dots> = map h (sort_key (rid h) ps)" using valid by (intro map_cong) auto
  finally show ?thesis by (simp add: denotes_def)
qed

lemma collect_sort_ok:
  assumes "collected since log h 16 ra"
  shows "\<exists>ra'. table_sort_records_by_id h ra = Some ra' \<and> rows_answer since log h None ra'"
proof -
  obtain ps ks where k: "array_view ra ps" "cuts since log 16 ks" "denotes h ps (bucket_parts ks log)"
    using assms by (auto simp: collected_def)
  have "\<forall>p \<in> set ps. h p \<noteq> None" using k(3) unfolding denotes_def by (metis in_set_conv_nth length_map nth_map option.simps(3))
  from table_sort_records_by_id_view [OF k(1) this] denotes_sort [OF k(3)] k(2) show ?thesis
    by (auto simp: rows_answer_def filter_by_def)
qed

lemma collect_filter_ok:
  assumes "rows_answer since log h None all"
  shows "\<exists>ok ra e'. filter_loop h f all 0 empty_array e = Some (ok, ra, e') \<and>
    (if ok then rows_answer since log h (Some f) ra else ra_cells ra = [] \<and> ra_count ra = 0) \<and> (all_succeed e \<longrightarrow> ok)"
proof -
  obtain ps ks where k: "array_view all ps" "cuts since log 16 ks" "denotes h ps (sort_key rec_id (bucket_parts ks log))"
    using assms by (auto simp: rows_answer_def filter_by_def)
  obtain ok ra e' qs where r: "filter_loop h f all 0 empty_array e = Some (ok, ra, e')"
    "if ok then array_view ra qs \<and> denotes h qs (filter f (sort_key rec_id (bucket_parts ks log))) else ra_cells ra = [] \<and> ra_count ra = 0"
    "all_succeed e \<longrightarrow> ok" using filter_loop_ok [OF k(1,3), of f e] by blast
  then show ?thesis using k(2) by (cases ok) (auto simp: rows_answer_def filter_by_def)
qed

lemma failed_rows_ok: "result_ok (Op_Collect test) since log h (failed_rows test ra)"
  by (simp add: failed_rows_def table_free_record_array_def empty_array_def)

lemma collect_owned [simp]: "owned h op (Collecting pc) = None" "owned h (Op_Collect test) (Returned r) = None"
  "made h op (Collecting pc) = None" "made h (Op_Collect test) (Returned r) = None"
  by (cases r; simp)+

lemma collect_step_effect:
  assumes s: "store_ok t pss log" and k: "call_ok op since log (rec_heap t) (Collecting pc)" and since: "since \<le> length log"
    and step: "collect_step t pc e = Some (t', pc', e')"
  shows "step_effect op since t log (Collecting pc) t' log pc'"
proof -
  obtain test where op: "op = Op_Collect test" using k by (cases op) simp_all
  have len: "length (buckets t) = 16" using s by (simp add: store_ok_def)
  show ?thesis
  proof (cases pc)
    case (Col_Lock test' index ra)
    then have c: "test' = test" "index \<le> 16" "collected since log (rec_heap t) index ra" using k op by simp_all
    show ?thesis
    proof (cases "index < 16")
      case False
      then have "t' = t" "pc' = Collecting (Col_Sort test ra)" "index = 16"
        using Col_Lock step c by (simp_all add: TABLE_BUCKET_COUNT_def)
      then show ?thesis using Col_Lock op c
        by (auto intro!: step_effect_same [OF s] lock_effect_same id_effect_refl)
    next
      case True
      then obtain locked where l: "bucket_rdlock t index e = Some (locked, t', e')"
        "pc' = (if locked then Collecting (Col_Body test index ra) else Returned (failed_rows test ra))"
        using step Col_Lock c(1) by (auto simp: TABLE_BUCKET_COUNT_def split: bind_splits)
      note lock = bucket_rdlock_effect [OF l(1)]
      show ?thesis
      proof (cases locked)
        case locked: True
        then have t': "t' = put_bucket t index ((buckets t ! index)\<lparr>bk_lock := read_lock (bk_lock (buckets t ! index))\<rparr>)"
          and free: "bk_lock (buckets t ! index) \<notin> {NoLock, WriteLocked}" using lock(2) by simp_all
        have "lock_effect t (Collecting pc) t' pc'" unfolding t'
          using lock(1) free Col_Lock l(2) locked by (intro lock_effect_bucket) (cases "bk_lock (buckets t ! index)"; auto)+
        moreover have "same_data t t'" unfolding t' by (rule same_data_relock [OF lock(1)])
        ultimately show ?thesis using Col_Lock op l(2) locked c True
          by (auto intro!: step_effect_same [OF s] id_effect_refl)
      next
        case False
        then have "t' = t" "pc' = Returned (failed_rows test ra)" using l(2) lock by simp_all
        then show ?thesis using Col_Lock op failed_rows_ok
          by (auto intro!: step_effect_same [OF s] lock_effect_same id_effect_refl simp del: result_ok.simps)
      qed
    qed
  next
    case (Col_Body test' index ra)
    then have c: "test' = test" "index < 16" "collected since log (rec_heap t) index ra" using k op by simp_all
    obtain ok ra' e1 where "table_collect_bucket_rows_locked (buckets t ! index) ra e = Some (ok, ra', e1)"
      "ok \<longrightarrow> collected since log (rec_heap t) (Suc index) ra'" using collect_body_ok [OF s c(2,3) since] by blast
    then have "t' = t" "pc' = Collecting (Col_Unlock test index ok ra')" "ok \<longrightarrow> collected since log (rec_heap t) (Suc index) ra'"
      using Col_Body step c len by (simp_all add: array_simps)
    then show ?thesis using Col_Body op c
      by (auto intro!: step_effect_same [OF s] lock_effect_same id_effect_refl)
  next
    case (Col_Unlock test' index ok ra)
    then have c: "test' = test" "index < 16" "ok \<longrightarrow> collected since log (rec_heap t) (Suc index) ra" using k op by simp_all
    have l: "bucket_unlock t index = Some t'"
      "pc' = (if ok then Collecting (Col_Lock test (index + 1) ra) else Returned (failed_rows test ra))"
      using step Col_Unlock c(1) by (auto split: bind_splits)
    note lock = bucket_unlock_effect [OF l(1)]
    have "lock_effect t (Collecting pc) t' pc'" unfolding lock(3)
      using lock(1,2) Col_Unlock l(2) by (intro lock_effect_bucket) (cases "bk_lock (buckets t ! index)"; auto)+
    moreover have "same_data t t'" unfolding lock(3) by (rule same_data_relock [OF lock(1)])
    moreover have "call_ok op since log (rec_heap t) pc'" using op l(2) c failed_rows_ok by simp
    ultimately show ?thesis using op l(2) by (auto intro!: step_effect_same [OF s] id_effect_refl)
  next
    case (Col_Sort test' ra)
    then have c: "test' = test" "collected since log (rec_heap t) 16 ra" using k op by simp_all
    obtain ra' where "table_sort_records_by_id (rec_heap t) ra = Some ra'" "rows_answer since log (rec_heap t) None ra'"
      using collect_sort_ok [OF c(2)] by blast
    then have "t' = t" "pc' = (case test of None \<Rightarrow> Returned (Res_Rows True ra') | Some f \<Rightarrow> Collecting (Col_Filter f ra'))"
      "rows_answer since log (rec_heap t) None ra'" using Col_Sort step c by simp_all
    then show ?thesis using Col_Sort op
      by (cases test) (auto intro!: step_effect_same [OF s] lock_effect_same id_effect_refl)
  next
    case (Col_Filter f all)
    then have c: "test = Some f" "rows_answer since log (rec_heap t) None all" using k op by simp_all
    obtain ok ra e1 where "filter_loop (rec_heap t) f all 0 empty_array e = Some (ok, ra, e1)"
      "if ok then rows_answer since log (rec_heap t) (Some f) ra else ra_cells ra = [] \<and> ra_count ra = 0"
      using collect_filter_ok [OF c(2)] by blast
    then have "t' = t" "pc' = Returned (Res_Rows ok ra)"
      "if ok then rows_answer since log (rec_heap t) (Some f) ra else ra_cells ra = [] \<and> ra_count ra = 0" using Col_Filter step by simp_all
    then show ?thesis using Col_Filter op c(1)
      by (auto intro!: step_effect_same [OF s] lock_effect_same id_effect_refl)
  qed
qed

section \<open>The invariant\<close>

definition calls_ok :: "CallState \<Rightarrow> bool" where
  "calls_ok s \<longleftrightarrow>
     length (cs_ops s) = length (cs_calls s) \<and> length (cs_since s) = length (cs_calls s) \<and>
     (\<exists>pss. store_ok (cs_table s) pss (cs_log s)) \<and> locks_ok (cs_table s) (cs_calls s) \<and>
     ids_ok (next_id (cs_table s)) (rec_heap (cs_table s)) (cs_log s) (cs_ops s) (cs_calls s) \<and>
     (\<forall>c < length (cs_calls s). cs_since s ! c \<le> length (cs_log s) \<and>
        call_ok (cs_ops s ! c) (cs_since s ! c) (cs_log s) (rec_heap (cs_table s)) (cs_calls s ! c))"

text \<open>A step of one call, with everything that it does.\<close>

lemma advance_effect:
  assumes inv: "calls_ok s" and c: "c < length (cs_calls s)" and g: "harmless (cs_calls s ! c) e" and a: "advance c e s = Some s'"
  shows "\<exists>t' pc' log' e'. call_step (cs_table s) (cs_calls s ! c) e = Some (t', pc', e') \<and>
    s' = s\<lparr>cs_table := t', cs_calls := (cs_calls s)[c := pc'], cs_log := log'\<rparr> \<and>
    step_effect (cs_ops s ! c) (cs_since s ! c) (cs_table s) (cs_log s) (cs_calls s ! c) t' log' pc'"
proof -
  let ?t = "cs_table s" and ?log = "cs_log s" and ?pc = "cs_calls s ! c" and ?op = "cs_ops s ! c" and ?since = "cs_since s ! c"
  obtain t' pc' e' where step: "call_step ?t ?pc e = Some (t', pc', e')"
    and s': "s' = s\<lparr>cs_table := t', cs_calls := (cs_calls s)[c := pc'], cs_log := ?log @ (if commits ?pc then committed t' pc' else [])\<rparr>"
    using a c by (auto simp: advance_def array_simps split: bind_splits)
  obtain pss where st: "store_ok ?t pss ?log" using inv by (auto simp: calls_ok_def)
  have since: "?since \<le> length ?log" and known: "call_ok ?op ?since ?log (rec_heap ?t) ?pc" using inv c by (auto simp: calls_ok_def)
  have pend: "1 \<le> k \<and> k < next_id ?t \<and> k \<notin> rec_id ` set ?log" if "pending ?pc" "owned (rec_heap ?t) ?op ?pc = Some k" for k
    using inv c that unfolding calls_ok_def ids_ok_def by blast
  have "step_effect ?op ?since ?t ?log ?pc t' (?log @ (if commits ?pc then committed t' pc' else [])) pc'"
  proof (cases ?pc)
    case (Inserting i)
    then show ?thesis using insert_step_effect [OF st, of ?op ?since i e t' pc' e'] known since pend g step by simp
  next
    case (Finding f)
    then show ?thesis using find_step_effect [OF st, of ?op ?since f e t' pc' e'] known since step by (simp add: commits_def)
  next
    case (Collecting f)
    then show ?thesis using collect_step_effect [OF st, of ?op ?since f e t' pc' e'] known since step by (simp add: commits_def)
  qed (use step in simp)
  then show ?thesis using step s' by blast
qed

lemma step_effect_later: "step_effect op since t log pc t' log' pc' \<Longrightarrow> later log (rec_heap t) log' (rec_heap t')"
  by (auto simp: step_effect_def id_effect_def later_def)

lemma calls_ok_advance:
  assumes inv: "calls_ok s" and c: "c < length (cs_calls s)" and g: "harmless (cs_calls s ! c) e" and a: "advance c e s = Some s'"
  shows "calls_ok s'"
proof -
  let ?t = "cs_table s" and ?log = "cs_log s"
  obtain t' pc' log' where s': "s' = s\<lparr>cs_table := t', cs_calls := (cs_calls s)[c := pc'], cs_log := log'\<rparr>"
    and eff: "step_effect (cs_ops s ! c) (cs_since s ! c) ?t ?log (cs_calls s ! c) t' log' pc'"
    using advance_effect [OF assms] by blast
  obtain pss where st: "store_ok ?t pss ?log" using inv by (auto simp: calls_ok_def)
  note later = step_effect_later [OF eff]
  have bound: "\<forall>u \<in> set ?log. rec_id u < next_id ?t" "1 \<le> next_id ?t" using st unfolding store_ok_def by blast+
  have "locks_ok t' ((cs_calls s)[c := pc'])" using locks_step [of ?t "cs_calls s" c t' pc'] inv c eff by (simp add: calls_ok_def step_effect_def)
  moreover have "ids_ok (next_id t') (rec_heap t') log' (cs_ops s) ((cs_calls s)[c := pc'])"
    by (rule ids_step [where since = "cs_since s", OF _ c _ _ bound]) (use inv eff in \<open>auto simp: calls_ok_def step_effect_def\<close>)
  moreover have "cs_since s ! d \<le> length log' \<and> call_ok (cs_ops s ! d) (cs_since s ! d) log' (rec_heap t') ((cs_calls s)[c := pc'] ! d)"
    if "d < length (cs_calls s)" for d
  proof -
    have "cs_since s ! d \<le> length ?log" "call_ok (cs_ops s ! d) (cs_since s ! d) ?log (rec_heap ?t) (cs_calls s ! d)"
      using inv that by (auto simp: calls_ok_def)
    then show ?thesis using call_ok_mono [OF _ later] eff later c by (cases "d = c") (auto simp: step_effect_def later_def)
  qed
  moreover have "\<exists>pss. store_ok t' pss log'" using eff by (simp add: step_effect_def)
  ultimately show ?thesis using inv s' unfolding calls_ok_def by simp
qed

lemma start_pc_simps [simp]:
  "\<not> in_id_section (start_pc op)" "\<not> writing i (start_pc op)" "\<not> reading i (start_pc op)" "owned h op (start_pc op) = None"
  "made h op (start_pc op) = None" "\<not> pending (start_pc op)"
  by (cases op; simp)+

lemma start_ok: "call_ok op since log h (start_pc op)"
  by (cases op) (auto simp: collected_def cuts_def bucket_parts_def intro!: exI [of _ "[]"])

lemma ids_snoc:
  assumes i: "ids_ok n h log ops calls" and len: "length ops = length calls"
  shows "ids_ok n h log (ops @ [op]) (calls @ [start_pc op])"
proof -
  let ?o = "\<lambda>c. owned h ((ops @ [op]) ! c) ((calls @ [start_pc op]) ! c)"
  have old: "c < length calls \<and> owned h (ops ! c) (calls ! c) = Some k" if "c < Suc (length calls)" "?o c = Some k" for c k
    using that len by (cases "c = length calls") (simp_all add: nth_append)
  have same: "(calls @ [start_pc op]) ! c = calls ! c" "(ops @ [op]) ! c = ops ! c" if "c < length calls" for c
    using that len by (simp_all add: nth_append)
  show ?thesis unfolding ids_ok_def
  proof (intro conjI allI impI ballI)
    fix c k
    assume "c < length (calls @ [start_pc op])" "?o c = Some k"
    then have c: "c < length calls" "owned h (ops ! c) (calls ! c) = Some k" using old [of c k] by simp_all
    then show "1 \<le> k" "k < n" using i unfolding ids_ok_def by blast+
    assume "pending ((calls @ [start_pc op]) ! c)"
    then have "pending (calls ! c)" using same c(1) by simp
    then show "k \<notin> rec_id ` set log" using i c unfolding ids_ok_def by blast
  next
    fix c d k
    assume "c < length (calls @ [start_pc op])" "d < length (calls @ [start_pc op])" "c \<noteq> d" "?o c = Some k"
    then show "?o d \<noteq> Some k" using old [of c k] old [of d k] i unfolding ids_ok_def by (metis Suc_eq_plus1 length_append_singleton)
  next
    fix u
    assume "u \<in> set log"
    then obtain c where "c < length calls" "made h (ops ! c) (calls ! c) = Some u" using i unfolding ids_ok_def by blast
    then show "\<exists>c < length (calls @ [start_pc op]). made h ((ops @ [op]) ! c) ((calls @ [start_pc op]) ! c) = Some u"
      using same by (intro exI [of _ c]) simp
  qed
qed

lemma calls_ok_invoke:
  assumes inv: "calls_ok s"
  shows "calls_ok (invoke op s)"
proof -
  have "locks_ok (cs_table s) (cs_calls s @ [start_pc op])" using inv by (simp add: calls_ok_def locks_ok_def)
  moreover have "ids_ok (next_id (cs_table s)) (rec_heap (cs_table s)) (cs_log s) (cs_ops s @ [op]) (cs_calls s @ [start_pc op])"
    using inv by (intro ids_snoc) (simp_all add: calls_ok_def)
  moreover have "(cs_since s @ [length (cs_log s)]) ! d \<le> length (cs_log s) \<and>
      call_ok ((cs_ops s @ [op]) ! d) ((cs_since s @ [length (cs_log s)]) ! d) (cs_log s) (rec_heap (cs_table s)) ((cs_calls s @ [start_pc op]) ! d)"
    if "d < Suc (length (cs_calls s))" for d
    using inv that start_ok by (auto simp: calls_ok_def nth_append less_Suc_eq)
  ultimately show ?thesis using inv unfolding calls_ok_def invoke_def by simp
qed

lemma calls_ok_reach: "calls_reach s \<Longrightarrow> calls_ok s"
proof (induction rule: calls_reach.induct)
  case (cr_init t)
  obtain pss where t: "table_rows t pss []" using cr_init(1) by (auto simp: table_models_def)
  then have "map (\<lambda>p. the (rec_heap t p)) (concat pss) = []" unfolding table_rows_def by (metis mset_zero_iff_right)
  then have "concat pss = []" by simp
  then have e: "\<forall>ps \<in> set pss. ps = []" by simp
  have "bucket_ok (rec_heap t) i (unlocked (buckets t ! i)) (pss ! i) \<and> denotes (rec_heap t) (pss ! i) (filter (in_bucket i) [])"
    if "i < 16" for i
  proof -
    have "unlocked (buckets t ! i) = buckets t ! i" using table_rows_bucket [OF t that] by (simp add: bucket_ok_def)
    moreover have "pss ! i = []" using e t that by (simp add: table_rows_def)
    ultimately show ?thesis using table_rows_bucket [OF t that] by simp
  qed
  then have "store_ok t pss []" using t unfolding table_rows_def store_ok_def users_ok_def by simp
  moreover have "locks_ok t []" using t table_rows_bucket [OF t] by (auto simp: locks_ok_def table_rows_def bucket_ok_def)
  ultimately show ?case by (auto simp: calls_ok_def ids_ok_def)
qed (auto intro: calls_ok_invoke calls_ok_advance)

end
