(* ===== verification/Calls_Progress.thy ===== *)
theory Calls_Progress
  imports Calls_Steps
begin

text \<open>
  Concurrent calls of the table come to an end: a call that cannot go on waits for a lock whose
  holder can, every step takes some work off its call, and the steps of one call alone are the
  sequential function.
\<close>

section \<open>No call is stuck\<close>

lemma inside_locked:
  assumes "locks_ok t calls" and "c < length calls"
  shows "in_id_section (calls ! c) \<Longrightarrow> next_id_lock t = MutexHeld"
    and "i < 16 \<Longrightarrow> writing i (calls ! c) \<Longrightarrow> bk_lock (buckets t ! i) = WriteLocked"
    and "i < 16 \<Longrightarrow> reading i (calls ! c) \<Longrightarrow> \<exists>n. bk_lock (buckets t ! i) = ReadLocked n"
proof -
  have m: "mutex_count (next_id_lock t) (number in_id_section calls)"
    and b: "i < 16 \<Longrightarrow> rw_count (bk_lock (buckets t ! i)) (number (writing i) calls) (number (reading i) calls)"
    using assms(1) by (simp_all add: locks_ok_def)
  show "next_id_lock t = MutexHeld" if "in_id_section (calls ! c)"
    using number_positive [OF assms(2), of in_id_section] that m by (cases "next_id_lock t") simp_all
  show "bk_lock (buckets t ! i) = WriteLocked" if "i < 16" "writing i (calls ! c)"
    using number_positive [OF assms(2), of "writing i"] that(2) b [OF that(1)] by (cases "bk_lock (buckets t ! i)") simp_all
  show "\<exists>n. bk_lock (buckets t ! i) = ReadLocked n" if "i < 16" "reading i (calls ! c)"
    using number_positive [OF assms(2), of "reading i"] that(2) b [OF that(1)] by (cases "bk_lock (buckets t ! i)") simp_all
qed

definition takes_id :: "call_pc \<Rightarrow> bool" where
  "takes_id pc \<longleftrightarrow> (case pc of Inserting (Ins_Start _ _) \<Rightarrow> True | Inserting (Ins_Id _ _) \<Rightarrow> True | _ \<Rightarrow> False)"

lemma call_step_defined:
  assumes inv: "calls_ok s" and c: "c < length (cs_calls s)" and g: "harmless (cs_calls s ! c) e"
    and n: "takes_id (cs_calls s ! c) \<Longrightarrow> next_id (cs_table s) < INT_MAX" and none: "call_step (cs_table s) (cs_calls s ! c) e = None"
  shows "(\<exists>r. cs_calls s ! c = Returned r) \<or> waits (cs_table s) (cs_calls s ! c)"
proof -
  let ?t = "cs_table s" and ?pc = "cs_calls s ! c" and ?log = "cs_log s"
  obtain pss where st: "store_ok ?t pss ?log" using inv by (auto simp: calls_ok_def)
  have len: "length (buckets ?t) = 16" using st by (simp add: store_ok_def)
  have since: "cs_since s ! c \<le> length ?log" and known: "call_ok (cs_ops s ! c) (cs_since s ! c) ?log (rec_heap ?t) ?pc"
    using inv c by (auto simp: calls_ok_def)
  have locks: "locks_ok ?t (cs_calls s)" using inv by (simp add: calls_ok_def)
  note inside = inside_locked [OF locks c]
  have nolock: "bk_lock (buckets ?t ! i) \<noteq> NoLock" "next_id_lock ?t \<noteq> NoMutex" if "i < 16" for i
    using locks that unfolding locks_ok_def by (metis rw_count.simps(1)) (metis locks locks_ok_def mutex_count.simps(1))
  show ?thesis
  proof (cases ?pc)
    case (Inserting pc)
    show ?thesis
    proof (cases pc)
      case (Ins_Start name age)
      then show ?thesis using none Inserting mutex_lock_waits [of "next_id_lock ?t" e] nolock(2) [of 0] by (auto split: bind_splits)
    next
      case (Ins_Id name age)
      then show ?thesis using none Inserting n by (simp add: takes_id_def)
    next
      case (Ins_Id_Unlock k name age)
      then show ?thesis using none Inserting inside(1) by simp
    next
      case (Ins_Lock k name age)
      then show ?thesis using none Inserting bucket_wrlock_waits [of ?t "table_bucket_index_for_id k" e] bucket_index_less len
        by (auto split: bind_splits)
    next
      case (Ins_Body k name age)
      have "1 \<le> k \<and> k < next_id ?t \<and> k \<notin> rec_id ` set ?log"
        using inv c Inserting Ins_Body unfolding calls_ok_def ids_ok_def by auto
      moreover have "guarded 1 e" using g Inserting Ins_Body by (simp add: harmless_def commits_def)
      ultimately show ?thesis using none Inserting Ins_Body insert_body_ok [OF st, of k e name age] by (auto split: bind_splits)
    next
      case (Ins_Unlock k r)
      then show ?thesis using none Inserting inside(2) [of "table_bucket_index_for_id k"] bucket_index_less len
          bucket_unlock_defined [of "table_bucket_index_for_id k" ?t] by (auto split: bind_splits)
    qed
  next
    case (Finding pc)
    show ?thesis
    proof (cases pc)
      case (Find_Lock k)
      then show ?thesis using none Finding bucket_rdlock_waits [of ?t "table_bucket_index_for_id k" e] bucket_index_less len nolock(1)
        by (auto split: bind_splits)
    next
      case (Find_Body k)
      let ?i = "table_bucket_index_for_id k"
      obtain ix es where "pk_index (buckets ?t ! ?i) = Some ix" "bptree_entries ix es"
        using store_bucket(1) [OF st bucket_index_less, of k] by (auto simp: bucket_ok_def)
      then show ?thesis using none Finding Find_Body bucket_index_less [of k] len bp.ix_search_model [of ix es k]
        by (auto simp: array_simps split: bind_splits)
    next
      case (Find_Unlock k r)
      then show ?thesis using none Finding inside(3) [of "table_bucket_index_for_id k"] bucket_index_less len
          bucket_unlock_defined [of "table_bucket_index_for_id k" ?t] by (auto split: bind_splits)
    qed
  next
    case (Collecting pc)
    then obtain test where op: "cs_ops s ! c = Op_Collect test" using known by (cases "cs_ops s ! c") simp_all
    show ?thesis
    proof (cases pc)
      case (Col_Lock test' index ra)
      then show ?thesis using none Collecting bucket_rdlock_waits [of ?t index e] len nolock(1) [of index]
        by (auto simp: TABLE_BUCKET_COUNT_def split: bind_splits if_splits)
    next
      case (Col_Body test' index ra)
      then have "index < 16" "collected (cs_since s ! c) ?log (rec_heap ?t) index ra" using known op Collecting by simp_all
      then show ?thesis using none Collecting Col_Body len collect_body_ok [OF st _ _ since, of index ra e]
        by (auto simp: array_simps split: bind_splits)
    next
      case (Col_Unlock test' index ok ra)
      then have "index < 16" using known op Collecting by simp
      then show ?thesis using none Collecting Col_Unlock inside(3) [of index] len bucket_unlock_defined [of index ?t]
        by (auto split: bind_splits)
    next
      case (Col_Sort test' ra)
      then show ?thesis using none Collecting known op collect_sort_ok [of "cs_since s ! c" ?log "rec_heap ?t" ra] by (auto split: bind_splits)
    next
      case (Col_Filter f ra)
      then show ?thesis using none Collecting known op collect_filter_ok [of "cs_since s ! c" ?log "rec_heap ?t" ra f e]
        by (auto split: bind_splits)
    qed
  qed auto
qed

text \<open>Whoever is inside a critical section does not wait, so the holder of a lock can go on.\<close>

lemma inside_not_waiting: "in_id_section pc \<or> writing i pc \<or> reading i pc \<Longrightarrow> \<not> waits t pc \<and> (\<forall>r. pc \<noteq> Returned r)"
  by (cases "(t, pc)" rule: waits.cases) auto

lemma waits_holder:
  assumes "calls_ok s" and "c < length (cs_calls s)" and "waits (cs_table s) (cs_calls s ! c)"
  shows "\<exists>d < length (cs_calls s). \<not> waits (cs_table s) (cs_calls s ! d) \<and> (\<forall>r. cs_calls s ! d \<noteq> Returned r)"
proof -
  let ?t = "cs_table s" and ?calls = "cs_calls s"
  have locks: "locks_ok ?t ?calls" using assms(1) by (simp add: calls_ok_def)
  have some: "\<exists>d < length ?calls. P (?calls ! d)" if "0 < number P ?calls" for P
    using that unfolding number_def by (metis filter_empty_conv in_set_conv_nth length_greater_0_conv)
  consider "next_id_lock ?t = MutexHeld" | i where "i < 16" "bk_lock (buckets ?t ! i) \<noteq> Unlocked"
    using assms(3) bucket_index_less by (cases "(?t, ?calls ! c)" rule: waits.cases) (auto, (metis rwlock.distinct)+)
  then show ?thesis
  proof cases
    case 1
    then have "0 < number in_id_section ?calls" using locks by (simp add: locks_ok_def)
    then show ?thesis using some inside_not_waiting by meson
  next
    case 2
    then have "rw_count (bk_lock (buckets ?t ! i)) (number (writing i) ?calls) (number (reading i) ?calls)" using locks by (simp add: locks_ok_def)
    then have "0 < number (writing i) ?calls \<or> 0 < number (reading i) ?calls" using 2(2) by (cases "bk_lock (buckets ?t ! i)") auto
    then show ?thesis using some inside_not_waiting by meson
  qed
qed

section \<open>Work\<close>

text \<open>Interleavings of calls whose steps each take some work off their call.\<close>

locale working_calls =
  fixes wc_ok :: "'s \<Rightarrow> 'pc \<Rightarrow> bool" and wc_step :: "'s \<Rightarrow> 'pc \<Rightarrow> env \<Rightarrow> ('s \<times> 'pc \<times> env) option" and wc_work :: "'pc \<Rightarrow> nat"
  assumes wc_less: "wc_ok t pc \<Longrightarrow> wc_step t pc e = Some (t', pc', e') \<Longrightarrow> wc_work pc' < wc_work pc"
begin

definition total_work :: "'pc list \<Rightarrow> nat" where
  "total_work pcs = sum_list (map wc_work pcs)"

lemma total_work_step:
  assumes "c < length pcs" and "wc_ok t (pcs ! c)" and "wc_step t (pcs ! c) e = Some (t', pc', e')"
  shows "total_work (pcs[c := pc']) < total_work pcs"
proof -
  have "wc_work pc' < wc_work (pcs ! c)" using wc_less assms(2,3) .
  then show ?thesis using assms(1) unfolding total_work_def
  proof (induction pcs arbitrary: c)
    case (Cons p ps)
    then show ?case by (cases c) auto
  qed simp
qed

lemma total_work_member: "pc \<in> set pcs \<Longrightarrow> wc_work pc \<le> total_work pcs"
  by (simp add: total_work_def member_le_sum_list)

end

fun work :: "call_pc \<Rightarrow> nat" where
  "work (Inserting (Ins_Start name age)) = 6"
| "work (Inserting (Ins_Id name age)) = 5"
| "work (Inserting (Ins_Id_Unlock k name age)) = 4"
| "work (Inserting (Ins_Lock k name age)) = 3"
| "work (Inserting (Ins_Body k name age)) = 2"
| "work (Inserting (Ins_Unlock k r)) = 1"
| "work (Finding (Find_Lock k)) = 3"
| "work (Finding (Find_Body k)) = 2"
| "work (Finding (Find_Unlock k r)) = 1"
| "work (Collecting (Col_Lock test i ra)) = 3 * (16 - i) + 3"
| "work (Collecting (Col_Body test i ra)) = 3 * (16 - i) + 2"
| "work (Collecting (Col_Unlock test i ok ra)) = 3 * (16 - i) + 1"
| "work (Collecting (Col_Sort test ra)) = 2"
| "work (Collecting (Col_Filter f ra)) = 1"
| "work (Returned r) = 0"

fun in_range :: "call_pc \<Rightarrow> bool" where
  "in_range (Collecting (Col_Unlock test i ok ra)) \<longleftrightarrow> i < 16"
| "in_range _ \<longleftrightarrow> True"

lemma call_ok_in_range: "call_ok op since log h pc \<Longrightarrow> in_range pc"
  by (cases pc rule: in_range.cases; cases op) auto

interpretation tc: working_calls "\<lambda>t. in_range" call_step work
proof
  fix t pc e t' pc' e'
  assume r: "in_range pc" and s: "call_step t pc e = Some (t', pc', e')"
  show "work pc' < work pc"
    using r s by (cases pc rule: work.cases)
      (auto simp: TABLE_BUCKET_COUNT_def failed_rows_def split: bind_splits if_splits option.splits prod.splits)
qed

text \<open>\<open>n\<close> steps of the calls that have begun.\<close>

inductive advances :: "nat \<Rightarrow> CallState \<Rightarrow> CallState \<Rightarrow> bool" where
  adv_none: "advances 0 s s"
| adv_step: "c < length (cs_calls s) \<Longrightarrow> harmless (cs_calls s ! c) e \<Longrightarrow> advance c e s = Some s' \<Longrightarrow>
    advances n s' s'' \<Longrightarrow> advances (Suc n) s s''"

lemma advances_ok: "advances n s s' \<Longrightarrow> calls_ok s \<Longrightarrow> calls_ok s'"
  by (induction rule: advances.induct) (auto intro: calls_ok_advance)

lemma advance_step:
  assumes "advance c e s = Some s'" and "c < length (cs_calls s)"
  shows "\<exists>t' pc' e'. call_step (cs_table s) (cs_calls s ! c) e = Some (t', pc', e') \<and> cs_table s' = t' \<and> cs_calls s' = (cs_calls s)[c := pc'] \<and>
    cs_ops s' = cs_ops s \<and> cs_since s' = cs_since s"
  using assms by (auto simp: advance_def array_simps split: bind_splits)

lemma advance_work:
  assumes "calls_ok s" and "c < length (cs_calls s)" and "advance c e s = Some s'"
  shows "tc.total_work (cs_calls s') < tc.total_work (cs_calls s)"
proof -
  obtain t' pc' e' where "call_step (cs_table s) (cs_calls s ! c) e = Some (t', pc', e')" "cs_calls s' = (cs_calls s)[c := pc']"
    using advance_step [OF assms(3,2)] by blast
  moreover have "in_range (cs_calls s ! c)" using assms(1,2) call_ok_in_range by (auto simp: calls_ok_def)
  ultimately show ?thesis using tc.total_work_step [OF assms(2)] by simp
qed

lemma advances_bounded: "advances n s s' \<Longrightarrow> calls_ok s \<Longrightarrow> n + tc.total_work (cs_calls s') \<le> tc.total_work (cs_calls s)"
proof (induction rule: advances.induct)
  case (adv_step c s e s' n s'')
  then show ?case using advance_work [OF adv_step.prems adv_step.hyps(1,3)] calls_ok_advance [OF adv_step.prems adv_step.hyps(1-3)] by simp
qed simp

section \<open>Every run can be completed\<close>

definition ids_left :: "CallState \<Rightarrow> bool" where
  "ids_left s \<longleftrightarrow> next_id (cs_table s) + int (number takes_id (cs_calls s)) \<le> INT_MAX"

definition returned :: "call_pc \<Rightarrow> bool" where
  "returned pc \<longleftrightarrow> (\<exists>r. pc = Returned r)"

text \<open>When all calls have returned, the table is as it is between sequential calls.\<close>

lemma calls_quiescent:
  assumes ok: "calls_ok s" and all: "\<forall>c < length (cs_calls s). returned (cs_calls s ! c)"
  shows "table_models (cs_table s) (sort_key rec_id (cs_log s))"
proof -
  let ?t = "cs_table s" and ?calls = "cs_calls s"
  obtain pss where st: "store_ok ?t pss (cs_log s)" using ok by (auto simp: calls_ok_def)
  have none: "number P ?calls = 0" if "\<And>r. \<not> P (Returned r)" for P
    using all that unfolding number_def returned_def by (metis filter_False in_set_conv_nth length_0_conv)
  have l: "locks_ok ?t ?calls" using ok by (simp add: calls_ok_def)
  then have "next_id_lock ?t = MutexFree" using none [of in_id_section] by (cases "next_id_lock ?t") (simp_all add: locks_ok_def)
  moreover have "bk_lock (buckets ?t ! i) = Unlocked" if "i < 16" for i
    using l that none [of "writing i"] none [of "reading i"] by (cases "bk_lock (buckets ?t ! i)") (auto simp: locks_ok_def)
  ultimately have "table_rows ?t pss (sort_key rec_id (cs_log s))" using store_quiescent [OF st] by simp
  then show ?thesis by (auto simp: table_models_def)
qed

lemma insert_into_bucket_next_id:
  assumes "insert_into_bucket t i k name age e = Some (r, t', e')"
  shows "next_id t' = next_id t"
  using assms by (auto simp: insert_into_bucket_def put_bucket_def Let_def split: bind_splits bool.splits prod.splits if_splits)

lemma call_step_ids:
  assumes "call_step t pc e = Some (t', pc', e')"
  shows "next_id t' + of_bool (takes_id pc') \<le> next_id t + (of_bool (takes_id pc) :: int)"
  using assms insert_into_bucket_next_id
  by (cases pc rule: work.cases)
    (auto simp: takes_id_def failed_rows_def bucket_wrlock_def bucket_rdlock_def bucket_unlock_def put_bucket_def
      split: bind_splits if_splits option.splits prod.splits)

lemma advance_ids:
  assumes "advance k e s = Some s'" and "k < length (cs_calls s)"
  shows "next_id (cs_table s') + int (number takes_id (cs_calls s')) \<le> next_id (cs_table s) + int (number takes_id (cs_calls s))"
proof -
  obtain t' pc' e' where s: "call_step (cs_table s) (cs_calls s ! k) e = Some (t', pc', e')" "cs_table s' = t'" "cs_calls s' = (cs_calls s)[k := pc']"
    using advance_step [OF assms] by blast
  have "number takes_id (cs_calls s') + of_bool (takes_id (cs_calls s ! k)) = number takes_id (cs_calls s) + of_bool (takes_id pc')"
    unfolding s(3) by (rule number_update [OF assms(2)])
  then have "int (number takes_id (cs_calls s')) + of_bool (takes_id (cs_calls s ! k)) = int (number takes_id (cs_calls s)) + of_bool (takes_id pc')"
    by (metis of_nat_add of_nat_of_bool)
  then show ?thesis using call_step_ids [OF s(1)] s(2) by simp
qed

lemma ids_left_advance: "ids_left s \<Longrightarrow> c < length (cs_calls s) \<Longrightarrow> advance c e s = Some s' \<Longrightarrow> ids_left s'"
  using advance_ids [of c e s s'] by (simp add: ids_left_def)

lemma ids_left_next: "ids_left s \<Longrightarrow> c < length (cs_calls s) \<Longrightarrow> takes_id (cs_calls s ! c) \<Longrightarrow> next_id (cs_table s) < INT_MAX"
  using number_positive [of c "cs_calls s" takes_id] by (auto simp: ids_left_def)

lemma some_call_goes_on:
  assumes inv: "calls_ok s" and ids: "ids_left s" and busy: "\<exists>c < length (cs_calls s). \<not> returned (cs_calls s ! c)"
  shows "\<exists>c < length (cs_calls s). \<exists>s'. advance c [] s = Some s'"
proof -
  obtain c where c: "c < length (cs_calls s)" "\<not> returned (cs_calls s ! c)" using busy by blast
  obtain d where d: "d < length (cs_calls s)" "\<not> waits (cs_table s) (cs_calls s ! d)" "\<not> returned (cs_calls s ! d)"
  proof (cases "waits (cs_table s) (cs_calls s ! c)")
    case True
    then show ?thesis using waits_holder [OF inv c(1)] that by (auto simp: returned_def)
  next
    case False
    then show ?thesis using that c by blast
  qed
  have "harmless (cs_calls s ! d) []" by (simp add: harmless_def)
  from call_step_defined [OF inv d(1) this ids_left_next [OF ids d(1)]] d(2,3)
  have "call_step (cs_table s) (cs_calls s ! d) [] \<noteq> None" unfolding returned_def by blast
  then show ?thesis using d(1) by (intro exI [of _ d]) (auto simp: advance_def array_simps)
qed

lemma calls_complete:
  assumes "calls_ok s" and "ids_left s"
  shows "\<exists>n s'. advances n s s' \<and> (\<forall>c < length (cs_calls s'). returned (cs_calls s' ! c)) \<and> length (cs_calls s') = length (cs_calls s)"
  using assms
proof (induction "tc.total_work (cs_calls s)" arbitrary: s rule: less_induct)
  case less
  show ?case
  proof (cases "\<exists>c < length (cs_calls s). \<not> returned (cs_calls s ! c)")
    case False
    then show ?thesis using adv_none by blast
  next
    case True
    then obtain c s1 where c: "c < length (cs_calls s)" "advance c [] s = Some s1" using some_call_goes_on [OF less.prems] by blast
    have h: "harmless (cs_calls s ! c) []" by (simp add: harmless_def)
    note ok1 = calls_ok_advance [OF less.prems(1) c(1) h c(2)] and left1 = ids_left_advance [OF less.prems(2) c]
    obtain n s' where "advances n s1 s'" "\<forall>c < length (cs_calls s'). returned (cs_calls s' ! c)" "length (cs_calls s') = length (cs_calls s1)"
      using less.hyps [OF advance_work [OF less.prems(1) c] ok1 left1] by blast
    moreover have "length (cs_calls s1) = length (cs_calls s)" using advance_step [OF c(2,1)] by auto
    ultimately show ?thesis using adv_step [OF c(1) h c(2)] by (intro exI [of _ "Suc n"] exI [of _ s']) simp
  qed
qed

section \<open>One call alone\<close>

text \<open>The steps of one call in a row, with the outcomes of the library calls passed on.\<close>

fun run_alone :: "nat \<Rightarrow> Table \<Rightarrow> call_pc \<Rightarrow> env \<Rightarrow> (call_result \<times> Table \<times> env) option" where
  "run_alone n t (Returned r) e = Some (r, t, e)"
| "run_alone 0 t pc e = None"
| "run_alone (Suc n) t pc e = do { (t', pc', e') \<leftarrow> call_step t pc e; run_alone n t' pc' e' }"

lemma same_mutex: "t\<lparr>next_id_lock := next_id_lock t\<rparr> = t"
  by simp

lemma insert_alone:
  "run_alone 6 t (start_pc (Op_Insert name age)) e =
     do { (r, tbl, e') \<leftarrow> table_insert (Some t) (Some name) age e; t' \<leftarrow> tbl; Some (Res_Record r, t', e') }"
proof (cases "pthread_mutex_lock (next_id_lock t) e")
  case None
  then show ?thesis by (simp add: numeral_eq_Suc table_insert_def take_next_id_def)
next
  case (Some x)
  then obtain locked m e1 where x: "pthread_mutex_lock (next_id_lock t) e = Some (locked, m, e1)" by (cases x) auto
  note lock = mutex_lock_effect [OF x]
  show ?thesis
  proof (cases locked)
    case False
    then show ?thesis using x lock by (simp add: numeral_eq_Suc table_insert_def take_next_id_def)
  next
    case True
    let ?t1 = "t\<lparr>next_id := next_id t + 1, next_id_lock := MutexFree\<rparr>" and ?i = "table_bucket_index_for_id (next_id t)"
    have comm: "t\<lparr>next_id_lock := a, next_id := b\<rparr> = t\<lparr>next_id := b, next_id_lock := a\<rparr>" for a b by simp
    show ?thesis
    proof (cases "next_id t = INT_MAX")
      case True
      then show ?thesis using x \<open>locked\<close> lock by (simp add: numeral_eq_Suc table_insert_def take_next_id_def)
    next
      case False
      have take: "take_next_id t e = Some (Some (next_id t), ?t1, e1)"
        using x lock \<open>locked\<close> False by (simp add: take_next_id_def)
      have start: "run_alone 6 t (start_pc (Op_Insert name age)) e = run_alone 3 ?t1 (Inserting (Ins_Lock (next_id t) name age)) e1"
        using x lock \<open>locked\<close> False by (simp add: numeral_eq_Suc)
      show ?thesis unfolding start using take
        by (auto simp: numeral_eq_Suc table_insert_def Let_def split: bind_splits)
    qed
  qed
qed

lemma find_alone:
  "run_alone 3 t (start_pc (Op_Find key)) e =
     do { (r, tbl, e') \<leftarrow> table_find_by_id (Some t) key e; t' \<leftarrow> tbl; Some (Res_Record r, t', e') }"
  by (auto simp: numeral_eq_Suc table_find_by_id_def Let_def split: bind_splits)

lemma collect_loop_alone:
  "i \<le> 16 \<Longrightarrow> run_alone (3 * (16 - i) + 3) t (Collecting (Col_Lock test i ra)) e =
     do { (ok, ra', t', e') \<leftarrow> collect_buckets_loop t i ra e;
          if ok then run_alone 2 t' (Collecting (Col_Sort test ra')) e'
          else Some (Res_Rows False (if test = None then ra' else empty_array), t', e') }"
proof (induction "16 - i" arbitrary: i t ra e)
  case 0
  then show ?case by (subst collect_buckets_loop.simps) (simp add: numeral_3_eq_3 TABLE_BUCKET_COUNT_def numeral_2_eq_2)
next
  case (Suc d)
  then have i: "i < 16" and d: "d = 16 - Suc i" by simp_all
  obtain m where m: "3 * (16 - Suc i) + 3 = m" by blast
  have n: "3 * (16 - i) + 3 = Suc (Suc (Suc m))" using i m by simp
  have IH: "run_alone m t (Collecting (Col_Lock test (Suc i) ra)) e =
     do { (ok, ra', t', e') \<leftarrow> collect_buckets_loop t (Suc i) ra e;
          if ok then run_alone 2 t' (Collecting (Col_Sort test ra')) e'
          else Some (Res_Rows False (if test = None then ra' else empty_array), t', e') }" for t ra e
    using Suc.hyps(1) [OF d] i unfolding m by simp
  show ?case unfolding n
    using i by (subst collect_buckets_loop.simps)
      (auto simp: IH TABLE_BUCKET_COUNT_def failed_rows_def split: bind_splits)
qed

text \<open>What a query is in the sequential model.\<close>

fun query_of :: "filter_test \<Rightarrow> Table \<Rightarrow> env \<Rightarrow> (bool \<times> RecordArray \<times> Table option \<times> env) option" where
  "query_of None t e = table_collect_all (Some t) e"
| "query_of (Some f) t e = collect_filtered t f e"

lemma collect_alone:
  "run_alone 51 t (start_pc (Op_Collect test)) e =
     do { (ok, ra, tbl, e') \<leftarrow> query_of test t e; t' \<leftarrow> tbl; Some (Res_Rows ok ra, t', e') }"
  using collect_loop_alone [of 0 t test empty_array e]
  by (cases test) (auto simp: table_collect_all_def table_collect_all_sorted_def collect_filtered_def numeral_2_eq_2 split: bind_splits)

end
