(* ===== verification/Calls_Success.thy ===== *)
theory Calls_Success
  imports Calls_Progress
begin

text \<open>
  Runs of concurrent calls in which no call of the library fails: then every insertion and every
  query succeeds and every lookup gives an answer, which the general runs cannot promise.
\<close>

inductive smooth_reach :: "CallState \<Rightarrow> bool" where
  sr_init: "table_models t [] \<Longrightarrow> next_id t = 1 \<Longrightarrow>
    smooth_reach \<lparr>cs_table = t, cs_calls = [], cs_ops = [], cs_since = [], cs_log = []\<rparr>"
| sr_invoke: "smooth_reach s \<Longrightarrow> smooth_reach (invoke op s)"
| sr_advance: "smooth_reach s \<Longrightarrow> c < length (cs_calls s) \<Longrightarrow> advance c [] s = Some s' \<Longrightarrow> smooth_reach s'"

lemma harmless_empty [simp]: "harmless pc []"
  by (simp add: harmless_def)

lemma smooth_reach_calls: "smooth_reach s \<Longrightarrow> calls_reach s"
proof (induction rule: smooth_reach.induct)
  case (sr_advance s c s')
  then show ?case using cr_advance [of s c "[]" s'] by simp
qed (auto intro: calls_reach.intros)

fun succeeded :: "table_op \<Rightarrow> nat \<Rightarrow> Record list \<Rightarrow> (nat \<rightharpoonup> Record) \<Rightarrow> call_pc \<Rightarrow> bool" where
  "succeeded op since log h (Inserting (Ins_Unlock k r)) \<longleftrightarrow> r \<noteq> None"
| "succeeded op since log h (Collecting (Col_Unlock test i ok ra)) \<longleftrightarrow> ok"
| "succeeded (Op_Insert name age) since log h (Returned (Res_Record r)) \<longleftrightarrow> r \<noteq> None"
| "succeeded (Op_Find key) since log h (Returned (Res_Record r)) \<longleftrightarrow> found since log h key r"
| "succeeded op since log h (Returned (Res_Rows ok ra)) \<longleftrightarrow> ok"
| "succeeded op since log h pc \<longleftrightarrow> True"

lemma succeeded_mono: "succeeded op since log h pc \<Longrightarrow> later log h log' h' \<Longrightarrow> succeeded op since log' h' pc"
  by (cases "(op, since, log, h, pc)" rule: succeeded.cases) (auto intro: found_mono)

lemma lock_succeeds:
  "pthread_mutex_lock m [] = Some (locked, m', e') \<Longrightarrow> locked"
  "bucket_wrlock t i [] = Some (locked, t', e') \<Longrightarrow> locked"
  "bucket_rdlock t i [] = Some (locked, t', e') \<Longrightarrow> locked"
  by (auto simp: pthread_mutex_lock_def bucket_wrlock_def bucket_rdlock_def pthread_rwlock_wrlock_def pthread_rwlock_rdlock_def
      split: bind_splits mutex.splits rwlock.splits)

lemma insert_step_succeeds:
  assumes st: "store_ok t pss log" and known: "call_ok (Op_Insert n a) since log (rec_heap t) (Inserting pc)"
    and good: "succeeded (Op_Insert n a) since log (rec_heap t) (Inserting pc)"
    and pend: "\<And>k. pending (Inserting pc) \<Longrightarrow> owned (rec_heap t) (Op_Insert n a) (Inserting pc) = Some k \<Longrightarrow>
      1 \<le> k \<and> k < next_id t \<and> k \<notin> rec_id ` set log"
    and step: "insert_step t pc [] = Some (t', pc', e')"
  shows "succeeded (Op_Insert n a) since log' h' pc'"
proof (cases pc)
  case (Ins_Start name age)
  then show ?thesis using step by (auto dest: lock_succeeds(1) split: bind_splits)
next
  case (Ins_Id name age)
  then show ?thesis using step by (auto split: if_splits)
next
  case (Ins_Id_Unlock k name age)
  then show ?thesis using step by (auto split: bind_splits)
next
  case (Ins_Lock k name age)
  then show ?thesis using step by (auto dest: lock_succeeds(2) split: bind_splits)
next
  case (Ins_Body k name age)
  then show ?thesis using step insert_body_ok [OF st, of k "[]" name age] pend [of k] by (auto split: bind_splits)
next
  case (Ins_Unlock k r)
  then show ?thesis using step good by (auto split: bind_splits)
qed

lemma find_step_succeeds:
  assumes known: "call_ok (Op_Find key) since log (rec_heap t) (Finding pc)" and step: "find_step t pc [] = Some (t', pc', e')"
    and l: "later log (rec_heap t) log' h'"
  shows "succeeded (Op_Find key) since log' h' pc'"
proof (cases pc)
  case (Find_Lock k)
  then show ?thesis using step by (auto dest: lock_succeeds(3) split: bind_splits)
next
  case (Find_Body k)
  then show ?thesis using step by (auto split: bind_splits)
next
  case (Find_Unlock k r)
  then show ?thesis using step known found_mono [OF _ l] by (auto split: bind_splits)
qed

lemma collect_step_succeeds:
  assumes st: "store_ok t pss log" and since: "since \<le> length log"
    and known: "call_ok (Op_Collect f) since log (rec_heap t) (Collecting pc)"
    and good: "succeeded (Op_Collect f) since log (rec_heap t) (Collecting pc)"
    and step: "collect_step t pc [] = Some (t', pc', e')"
  shows "succeeded (Op_Collect f) since log' h' pc'"
proof (cases pc)
  case (Col_Lock test i ra)
  then show ?thesis using step by (auto dest: lock_succeeds(3) split: bind_splits if_splits)
next
  case (Col_Body test i ra)
  then have "i < 16" "collected since log (rec_heap t) i ra" using known by simp_all
  moreover from this(1) have "i < length (buckets t)" using store_bucket(3) [OF st] by simp
  ultimately show ?thesis using Col_Body step collect_body_ok [OF st _ _ since, of i ra "[]"]
    by (auto simp: array_simps split: bind_splits)
next
  case (Col_Unlock test i ok ra)
  then show ?thesis using step good by (auto split: bind_splits)
next
  case (Col_Sort test ra)
  then show ?thesis using step known by (auto split: bind_splits option.splits)
next
  case (Col_Filter test ra)
  then show ?thesis using step known collect_filter_ok [of since log "rec_heap t" ra test "[]"] by (auto split: bind_splits)
qed

definition all_succeeded :: "CallState \<Rightarrow> bool" where
  "all_succeeded s \<longleftrightarrow> (\<forall>c < length (cs_calls s).
     succeeded (cs_ops s ! c) (cs_since s ! c) (cs_log s) (rec_heap (cs_table s)) (cs_calls s ! c))"

lemma start_succeeded [simp]: "succeeded op since log h (start_pc op)"
  by (cases op) simp_all

lemma all_succeeded_advance:
  assumes inv: "calls_ok s" and good: "all_succeeded s" and c: "c < length (cs_calls s)" and a: "advance c [] s = Some s'"
  shows "all_succeeded s'"
proof -
  let ?t = "cs_table s" and ?log = "cs_log s" and ?pc = "cs_calls s ! c" and ?op = "cs_ops s ! c" and ?since = "cs_since s ! c"
  obtain t' pc' log' e' where step: "call_step ?t ?pc [] = Some (t', pc', e')"
    and s': "s' = s\<lparr>cs_table := t', cs_calls := (cs_calls s)[c := pc'], cs_log := log'\<rparr>"
    and eff: "step_effect ?op ?since ?t ?log ?pc t' log' pc'"
    using advance_effect [OF inv c harmless_empty a] by blast
  note later = step_effect_later [OF eff]
  obtain pss where st: "store_ok ?t pss ?log" using inv by (auto simp: calls_ok_def)
  have since: "?since \<le> length ?log" and known: "call_ok ?op ?since ?log (rec_heap ?t) ?pc" using inv c by (auto simp: calls_ok_def)
  have pend: "1 \<le> k \<and> k < next_id ?t \<and> k \<notin> rec_id ` set ?log" if "pending ?pc" "owned (rec_heap ?t) ?op ?pc = Some k" for k
    using inv c that unfolding calls_ok_def ids_ok_def by blast
  have this_pc: "succeeded ?op ?since ?log (rec_heap ?t) ?pc" using good c by (simp add: all_succeeded_def)
  have new: "succeeded ?op ?since log' (rec_heap t') pc'"
  proof (cases ?pc)
    case (Inserting i)
    then obtain n a where "?op = Op_Insert n a" using known by (cases ?op) auto
    then show ?thesis using insert_step_succeeds [OF st, of n a ?since i t' pc' e' log' "rec_heap t'"] Inserting known this_pc pend step by simp
  next
    case (Finding i)
    then obtain k where "?op = Op_Find k" using known by (cases ?op) auto
    then show ?thesis using find_step_succeeds [OF _ _ later, of k ?since i t' pc' e'] Finding known step by simp
  next
    case (Collecting i)
    then obtain f where "?op = Op_Collect f" using known by (cases ?op) auto
    then show ?thesis using collect_step_succeeds [OF st since, of f i t' pc' e' log' "rec_heap t'"] Collecting known this_pc step by simp
  qed (use step in simp)
  have "succeeded (cs_ops s ! d) (cs_since s ! d) log' (rec_heap t') ((cs_calls s)[c := pc'] ! d)" if "d < length (cs_calls s)" for d
    using new good succeeded_mono [OF _ later] that by (cases "d = c") (simp_all add: all_succeeded_def)
  then show ?thesis using s' by (simp add: all_succeeded_def)
qed

lemma smooth_ok: "smooth_reach s \<Longrightarrow> calls_ok s \<and> all_succeeded s"
proof (induction rule: smooth_reach.induct)
  case (sr_init t)
  then show ?case using calls_ok_reach [OF cr_init] by (simp add: all_succeeded_def)
next
  case (sr_invoke s op)
  then have "length (cs_ops s) = length (cs_calls s)" "length (cs_since s) = length (cs_calls s)" by (auto simp: calls_ok_def)
  then show ?case using sr_invoke calls_ok_invoke [of s op]
    by (auto simp: all_succeeded_def invoke_def nth_append less_Suc_eq)
next
  case (sr_advance s c s')
  then show ?case using calls_ok_advance [of s c "[]" s'] all_succeeded_advance [of s c s'] by simp
qed

text \<open>Ids are unique, so that a lookup in the history finds what is there.\<close>

lemma user_with_id_recorded:
  assumes "distinct (map rec_id us)" and "u \<in> set us"
  shows "user_with_id us (rec_id u) = Some u"
proof -
  have "find (\<lambda>v. rec_id v = rec_id u) us \<noteq> None" unfolding find_None_iff using assms(2) by blast
  then obtain v where v: "find (\<lambda>v. rec_id v = rec_id u) us = Some v" by blast
  then have "v \<in> set us" "rec_id v = rec_id u" unfolding find_Some_iff by (metis nth_mem)+
  then have "v = u" using assms unfolding distinct_map by (metis inj_onD)
  then show ?thesis using v unfolding user_with_id_def by simp
qed

end
