(* ===== verification/Calls_Props.thy ===== *)
theory Calls_Props
  imports Calls_Success
begin

text \<open>
  The properties of concurrent table calls: the locks exclude one another, nothing undefined
  happens, lookups are atomic, a SELECT sees each bucket at some moment but not the table, ids are
  unique, everything comes to an end, and one call alone is the sequential function.
\<close>

section \<open>Playing a schedule\<close>

definition empty_calls :: CallState where
  "empty_calls = \<lparr>cs_table = table_upto 16, cs_calls = [], cs_ops = [], cs_since = [], cs_log = []\<rparr>"

fun play :: "nat list \<Rightarrow> CallState \<Rightarrow> CallState option" where
  "play [] s = Some s"
| "play (c # cs) s = do { s' \<leftarrow> advance c [] s; play cs s' }"

lemma empty_calls_smooth: "smooth_reach empty_calls"
  unfolding empty_calls_def by (rule sr_init [OF table_upto_models table_upto_next])

lemma play_smooth: "play cs s = Some s' \<Longrightarrow> smooth_reach s \<Longrightarrow> smooth_reach s'"
proof (induction cs arbitrary: s)
  case (Cons c cs)
  then obtain s1 where s1: "advance c [] s = Some s1" "play cs s1 = Some s'" by (auto split: bind_splits)
  then have "c < length (cs_calls s)" by (auto simp: advance_def rd_def split: bind_splits if_splits)
  then show ?case using Cons.IH [OF s1(2)] sr_advance [OF Cons.prems(2) _ s1(1)] by blast
qed simp

lemma play_ops: "play cs s = Some s' \<Longrightarrow> cs_ops s' = cs_ops s"
proof (induction cs arbitrary: s)
  case (Cons c cs)
  then obtain s1 where s1: "advance c [] s = Some s1" "play cs s1 = Some s'" by (auto split: bind_splits)
  then have "cs_ops s1 = cs_ops s" by (auto simp: advance_def split: bind_splits)
  then show ?case using Cons.IH [OF s1(2)] by simp
qed simp

text \<open>What can be seen of a run: the results of the calls, the beginnings of the calls and the history.\<close>

fun result_of :: "call_pc \<Rightarrow> call_result option" where
  "result_of (Returned r) = Some r"
| "result_of pc = None"

definition outcome :: "CallState option \<Rightarrow> (call_result option list \<times> nat list \<times> Record list) option" where
  "outcome so = map_option (\<lambda>s. (map result_of (cs_calls s), cs_since s, cs_log s)) so"

lemma outcome_Some: "outcome so = Some (rs, ks, log) \<longleftrightarrow> (\<exists>s. so = Some s \<and> map result_of (cs_calls s) = rs \<and> cs_since s = ks \<and> cs_log s = log)"
  by (cases so) (auto simp: outcome_def)

lemma result_of_Some: "result_of pc = Some r \<longleftrightarrow> pc = Returned r"
  by (cases pc) auto

text \<open>A SELECT that has read the buckets 0, 1 and 2 when two insertions take place, into the buckets
  1 and 2, one after the other, and a lookup at the end.\<close>

abbreviation Ann :: Record where "Ann \<equiv> \<lparr>rec_id = 1, rec_name = ''Ann'', rec_age = 7\<rparr>"
abbreviation Bob :: Record where "Bob \<equiv> \<lparr>rec_id = 2, rec_name = ''Bob'', rec_age = 8\<rparr>"

definition overtaken_select :: "CallState option" where
  "overtaken_select = do {
     s \<leftarrow> play (replicate 6 0) (invoke (Op_Collect None) empty_calls);
     s \<leftarrow> play (replicate 6 1) (invoke (Op_Insert ''Ann'' 7) s);
     s \<leftarrow> play (replicate 6 2) (invoke (Op_Insert ''Bob'' 8) s);
     s \<leftarrow> play (replicate 44 0) s;
     play [3, 3, 3] (invoke (Op_Find 2) s) }"

abbreviation overtaken_results :: "call_result option list" where
  "overtaken_results \<equiv>
     [Some (Res_Rows True \<lparr>ra_cells = [Some 1, None, None, None, None, None, None, None], ra_count = 1, ra_capacity = 8\<rparr>),
      Some (Res_Record (Some 0)), Some (Res_Record (Some 1)), Some (Res_Record (Some 1))]"

lemma overtaken_outcome:
  "outcome overtaken_select =
     Some (overtaken_results, [0, 0, 1, 2], [Ann, Bob])"
  by code_simp

lemma overtaken_smooth:
  obtains s where "smooth_reach s" and "map result_of (cs_calls s) = overtaken_results"
    and "cs_ops s = [Op_Collect None, Op_Insert ''Ann'' 7, Op_Insert ''Bob'' 8, Op_Find 2]"
    and "cs_since s = [0, 0, 1, 2]" and "cs_log s = [Ann, Bob]"
proof -
  obtain s where s: "overtaken_select = Some s" "map result_of (cs_calls s) = overtaken_results"
    "cs_since s = [0, 0, 1, 2]" "cs_log s = [Ann, Bob]"
    using overtaken_outcome unfolding outcome_Some by (elim exE conjE)
  obtain s1 s2 s3 s4 where p: "play (replicate 6 0) (invoke (Op_Collect None) empty_calls) = Some s1"
    "play (replicate 6 1) (invoke (Op_Insert ''Ann'' 7) s1) = Some s2" "play (replicate 6 2) (invoke (Op_Insert ''Bob'' 8) s2) = Some s3"
    "play (replicate 44 0) s3 = Some s4" "play [3, 3, 3] (invoke (Op_Find 2) s4) = Some s"
    using s(1) unfolding overtaken_select_def bind_eq_Some_conv by blast
  have ops: "cs_ops (invoke op s) = cs_ops s @ [op]" "cs_ops empty_calls = []" for op s by (simp_all add: invoke_def empty_calls_def)
  have "smooth_reach s1" using play_smooth [OF p(1)] sr_invoke empty_calls_smooth by blast
  then have "smooth_reach s2" using play_smooth [OF p(2)] sr_invoke by blast
  then have "smooth_reach s3" using play_smooth [OF p(3)] sr_invoke by blast
  then have "smooth_reach s4" using play_smooth [OF p(4)] by blast
  then have "smooth_reach s" using play_smooth [OF p(5)] sr_invoke by blast
  moreover have "cs_ops s = [Op_Collect None, Op_Insert ''Ann'' 7, Op_Insert ''Bob'' 8, Op_Find 2]"
    unfolding p [THEN play_ops] ops by simp
  ultimately show ?thesis by (rule that [OF _ s(2) _ s(3,4)])
qed

lemma overtaken_at:
  assumes "map result_of (cs_calls s) = rs" and "c < length rs" and "rs ! c = Some r"
  shows "c < length (cs_calls s) \<and> cs_calls s ! c = Returned r"
  using assms by (metis length_map nth_map result_of_Some)


text \<open>Two insertions, one of them inside the lock of the next id, the other one in front of it.\<close>

definition blocked_insert :: "CallState option" where
  "blocked_insert = play [0] (invoke (Op_Insert ''Bob'' 8) (invoke (Op_Insert ''Ann'' 7) empty_calls))"

lemma blocked_look:
  "map_option (\<lambda>s. (length (cs_calls s), map in_id_section (cs_calls s), map (waits (cs_table s)) (cs_calls s), map takes_id (cs_calls s),
     next_id (cs_table s), length (cs_log s))) blocked_insert =
   Some (2, [True, False], [False, True], [True, True], 1, 0)"
  by code_simp

lemma blocked_smooth:
  obtains s where "smooth_reach s" and "length (cs_calls s) = 2" and "in_id_section (cs_calls s ! 0)" and "waits (cs_table s) (cs_calls s ! 1)"
    and "ids_left s" and "next_id (cs_table s) = 1"
proof -
  obtain s where s: "blocked_insert = Some s" "length (cs_calls s) = 2" "map in_id_section (cs_calls s) = [True, False]"
    "map (waits (cs_table s)) (cs_calls s) = [False, True]" "map takes_id (cs_calls s) = [True, True]" "next_id (cs_table s) = 1"
    using blocked_look by (cases blocked_insert) auto
  obtain x y where xy: "cs_calls s = [x, y]" using s(2) by (auto simp: numeral_2_eq_2 length_Suc_conv)
  have "smooth_reach s"
    using play_smooth [OF s(1) [unfolded blocked_insert_def]] sr_invoke empty_calls_smooth by blast
  then show ?thesis using that s(3-6) xy by (simp add: ids_left_def INT_MAX_def)
qed

section \<open>Properties\<close>

text \<open>C22: In every reachable state of any number of concurrent calls, under any failures of the library
  calls (for insertions, the harmless ones), at most one call is inside the section of the next id,
  and a call that works on a bucket to write it is the only one that reads or writes it.\<close>

theorem table_calls_exclusive:
  assumes "calls_reach s" and "c < length (cs_calls s)" and "d < length (cs_calls s)" and "c \<noteq> d"
  shows "\<not> (in_id_section (cs_calls s ! c) \<and> in_id_section (cs_calls s ! d)) \<and>
    (\<forall>i < 16. writing i (cs_calls s ! c) \<longrightarrow> \<not> writing i (cs_calls s ! d) \<and> \<not> reading i (cs_calls s ! d))"
proof -
  have "locks_ok (cs_table s) (cs_calls s)" using calls_ok_reach [OF assms(1)] by (simp add: calls_ok_def)
  then have m: "mutex_count (next_id_lock (cs_table s)) (number in_id_section (cs_calls s))"
    and b: "i < 16 \<Longrightarrow> rw_count (bk_lock (buckets (cs_table s) ! i)) (number (writing i) (cs_calls s)) (number (reading i) (cs_calls s))" for i
    by (simp_all add: locks_ok_def)
  have "number in_id_section (cs_calls s) \<le> 1" using m by (cases "next_id_lock (cs_table s)") simp_all
  then have "\<not> (in_id_section (cs_calls s ! c) \<and> in_id_section (cs_calls s ! d))"
    using number_unique [OF _ assms(2,3)] assms(4) by blast
  moreover have "\<not> writing i (cs_calls s ! d) \<and> \<not> reading i (cs_calls s ! d)" if i: "i < 16" and w: "writing i (cs_calls s ! c)" for i
  proof -
    have "0 < number (writing i) (cs_calls s)" by (rule number_positive [OF assms(2)]) (rule w)
    from rw_count_excl [OF b [OF i] this] have n: "number (writing i) (cs_calls s) = 1" "number (reading i) (cs_calls s) = 0" by simp_all
    have "\<not> writing i (cs_calls s ! d)" using number_unique [of "writing i" "cs_calls s" c d] n(1) assms(2-4) w by auto
    moreover have "\<not> reading i (cs_calls s ! d)" using number_positive [of d "cs_calls s" "reading i"] n(2) assms(3) by auto
    ultimately show ?thesis ..
  qed
  ultimately show ?thesis by blast
qed

theorem table_calls_exclusive_witness:
  "\<exists>s. calls_reach s \<and> in_id_section (cs_calls s ! 0) \<and> \<not> in_id_section (cs_calls s ! 1)"
proof (rule blocked_smooth)
  fix s
  assume s: "smooth_reach s" "length (cs_calls s) = 2" "in_id_section (cs_calls s ! 0)"
  show ?thesis
    using table_calls_exclusive [OF smooth_reach_calls [OF s(1)], of 0 1] s smooth_reach_calls [OF s(1)] by auto
qed

text \<open>C16: No step of a call is undefined behaviour, whatever the other calls do: in a reachable state a call
  that has no next step has returned or is in front of a lock that somebody holds, and then some
  other call is neither, so that there is no deadlock. The ids must not be used up.\<close>

theorem table_calls_never_stuck:
  assumes "calls_reach s" and "c < length (cs_calls s)" and "harmless (cs_calls s ! c) e"
    and "takes_id (cs_calls s ! c) \<longrightarrow> next_id (cs_table s) < INT_MAX"
  shows "call_step (cs_table s) (cs_calls s ! c) e \<noteq> None \<or> returned (cs_calls s ! c) \<or>
    (waits (cs_table s) (cs_calls s ! c) \<and>
     (\<exists>d < length (cs_calls s). \<not> waits (cs_table s) (cs_calls s ! d) \<and> \<not> returned (cs_calls s ! d)))"
proof -
  note ok = calls_ok_reach [OF assms(1)]
  show ?thesis
    using call_step_defined [OF ok assms(2,3)] assms(4) waits_holder [OF ok assms(2)] unfolding returned_def by blast
qed

theorem table_calls_never_stuck_witness:
  "\<exists>s. calls_reach s \<and> waits (cs_table s) (cs_calls s ! 1) \<and> call_step (cs_table s) (cs_calls s ! 0) [] \<noteq> None"
proof (rule blocked_smooth)
  fix s
  assume s: "smooth_reach s" "length (cs_calls s) = 2" "in_id_section (cs_calls s ! 0)" "waits (cs_table s) (cs_calls s ! 1)"
    "next_id (cs_table s) = 1"
  have "\<not> returned (cs_calls s ! 0)" "\<not> waits (cs_table s) (cs_calls s ! 0)"
    using inside_not_waiting [of "cs_calls s ! 0"] s(3) by (auto simp: returned_def)
  then have "call_step (cs_table s) (cs_calls s ! 0) [] \<noteq> None"
    using table_calls_never_stuck [OF smooth_reach_calls [OF s(1)], of 0 "[]"] s(2,5) by (auto simp: INT_MAX_def)
  then show ?thesis using smooth_reach_calls [OF s(1)] s(4) by blast
qed

text \<open>C12: A lookup by id among concurrent calls is atomic in runs in which no library call fails: its answer is right for the users that had been
  inserted at one moment between its beginning and its end. So it finds every user whose insertion
  was over when it began.\<close>

theorem table_find_is_atomic:
  assumes "smooth_reach s" and "c < length (cs_calls s)" and "cs_ops s ! c = Op_Find key" and "cs_calls s ! c = Returned (Res_Record r)"
  shows "(\<exists>k. cs_since s ! c \<le> k \<and> k \<le> length (cs_log s) \<and>
      points_to (rec_heap (cs_table s)) r (user_with_id (take k (cs_log s)) key)) \<and>
    (\<forall>u \<in> set (take (cs_since s ! c) (cs_log s)). rec_id u = key \<longrightarrow> (\<exists>p. r = Some p \<and> rec_heap (cs_table s) p = Some u))"
proof -
  have ok: "calls_ok s" and "all_succeeded s" using smooth_ok [OF assms(1)] by simp_all
  then have "found (cs_since s ! c) (cs_log s) (rec_heap (cs_table s)) key r" using assms(2-4) unfolding all_succeeded_def by fastforce
  then obtain k where k: "cs_since s ! c \<le> k" "k \<le> length (cs_log s)"
    "points_to (rec_heap (cs_table s)) r (user_with_id (take k (cs_log s)) key)" by (auto simp: found_def user_with_id_def)
  obtain pss where st: "store_ok (cs_table s) pss (cs_log s)" using ok by (auto simp: calls_ok_def)
  have "user_with_id (take k (cs_log s)) key = Some u" if mem: "u \<in> set (take (cs_since s ! c) (cs_log s))" and key: "rec_id u = key" for u
  proof -
    have "distinct (map rec_id (cs_log s))" using st unfolding store_ok_def by blast
    then have "distinct (map rec_id (take k (cs_log s)))" by (metis distinct_take take_map)
    moreover have "u \<in> set (take k (cs_log s))" using mem set_take_subset_set_take [OF k(1), of "cs_log s"] by blast
    ultimately show ?thesis using user_with_id_recorded key by blast
  qed
  then show ?thesis using k by (fastforce simp: points_to_def split: option.splits)
qed

theorem table_find_is_atomic_witness:
  "\<exists>s. smooth_reach s \<and> cs_ops s ! 3 = Op_Find 2 \<and> cs_calls s ! 3 = Returned (Res_Record (Some 1)) \<and> rec_heap (cs_table s) 1 = Some Bob"
proof (rule overtaken_smooth)
  fix s
  assume s: "smooth_reach s" "map result_of (cs_calls s) = overtaken_results"
    "cs_ops s = [Op_Collect None, Op_Insert ''Ann'' 7, Op_Insert ''Bob'' 8, Op_Find 2]" "cs_since s = [0, 0, 1, 2]" "cs_log s = [Ann, Bob]"
  have c: "3 < length (cs_calls s)" "cs_calls s ! 3 = Returned (Res_Record (Some 1))" using overtaken_at [OF s(2), of 3] by simp_all
  have "cs_ops s ! 3 = Op_Find 2" by (simp add: s(3))
  moreover from table_find_is_atomic [OF s(1) c(1) this c(2)] have "rec_heap (cs_table s) 1 = Some Bob" by (simp add: s(4,5))
  ultimately show ?thesis using s(1) c(2) by blast
qed

text \<open>C18: In runs in which no library call fails, a SELECT over all buckets among concurrent calls succeeds and returns valid pointers, in order
  of id, to the matching users of each bucket as it was at some moment of the call; the moments
  do not decrease from bucket to bucket, but they may differ.\<close>

theorem table_select_sees_each_bucket:
  assumes "smooth_reach s" and "c < length (cs_calls s)" and "cs_ops s ! c = Op_Collect test" and "cs_calls s ! c = Returned (Res_Rows ok ra)"
  shows "ok \<and> (\<exists>ps ks. array_view ra ps \<and> length ks = 16 \<and> sorted ks \<and> (\<forall>k \<in> set ks. cs_since s ! c \<le> k \<and> k \<le> length (cs_log s)) \<and>
    denotes (rec_heap (cs_table s)) ps (filter_by test (sort_key rec_id
      (concat (map (\<lambda>j. filter (in_bucket j) (take (ks ! j) (cs_log s))) [0..<16])))))"
proof -
  have "calls_ok s" "all_succeeded s" using smooth_ok [OF assms(1)] by simp_all
  then have ok: ok and r: "result_ok (cs_ops s ! c) (cs_since s ! c) (cs_log s) (rec_heap (cs_table s)) (Res_Rows ok ra)"
    using assms(2-4) unfolding all_succeeded_def calls_ok_def by fastforce+
  then have "rows_answer (cs_since s ! c) (cs_log s) (rec_heap (cs_table s)) test ra" by (simp add: assms(3))
  then obtain ps ks where a: "array_view ra ps" "cuts (cs_since s ! c) (cs_log s) 16 ks"
    "denotes (rec_heap (cs_table s)) ps (filter_by test (sort_key rec_id (bucket_parts ks (cs_log s))))"
    by (auto simp: rows_answer_def)
  have len: "length ks = 16" and ks: "sorted ks" "\<forall>k \<in> set ks. cs_since s ! c \<le> k \<and> k \<le> length (cs_log s)" using a(2) by (simp_all add: cuts_def)
  show ?thesis using ok a(1) a(3) [unfolded bucket_parts_def len] len ks by blast
qed

theorem table_select_sees_each_bucket_witness:
  "\<exists>s ok ra ps ks. smooth_reach s \<and> cs_calls s ! 0 = Returned (Res_Rows ok ra) \<and> array_view ra ps \<and> length ks = 16 \<and>
     denotes (rec_heap (cs_table s)) ps (sort_key rec_id (concat (map (\<lambda>j. filter (in_bucket j) (take (ks ! j) [Ann, Bob])) [0..<16])))"
proof (rule overtaken_smooth)
  fix s
  assume s: "smooth_reach s" "map result_of (cs_calls s) = overtaken_results"
    "cs_ops s = [Op_Collect None, Op_Insert ''Ann'' 7, Op_Insert ''Bob'' 8, Op_Find 2]" "cs_log s = [Ann, Bob]"
  obtain ok ra where c: "0 < length (cs_calls s)" "cs_calls s ! 0 = Returned (Res_Rows ok ra)" using overtaken_at [OF s(2), of 0] by auto
  have "cs_ops s ! 0 = Op_Collect None" by (simp add: s(3))
  from table_select_sees_each_bucket [OF s(1) c(1) this c(2), unfolded s(4) filter_by_def option.case]
  show ?thesis using s(1) c(2) by blast
qed

text \<open>C5: When all concurrent calls have returned, under any failures of the library calls (for
  insertions, the harmless ones), the table satisfies the sequential invariant again, with all
  locks free, and its users are exactly the records that the insertions returned, each with its
  name and age and an id of its own: nothing is lost, doubled or invented.\<close>

theorem table_inserts_all_stored:
  assumes "calls_reach s" and "\<forall>c < length (cs_calls s). returned (cs_calls s ! c)"
  shows "\<exists>us. table_models (cs_table s) us \<and>
    (\<forall>u. u \<in> set us \<longleftrightarrow> (\<exists>c < length (cs_calls s). \<exists>name age p k. cs_ops s ! c = Op_Insert name age \<and>
       cs_calls s ! c = Returned (Res_Record (Some p)) \<and> rec_heap (cs_table s) p = Some u \<and> u = inserted_record k name age)) \<and>
    (\<forall>c < length (cs_calls s). \<forall>d < length (cs_calls s). \<forall>n a n' a' p q. c \<noteq> d \<and> cs_ops s ! c = Op_Insert n a \<and> cs_ops s ! d = Op_Insert n' a' \<and>
       cs_calls s ! c = Returned (Res_Record (Some p)) \<and> cs_calls s ! d = Returned (Res_Record (Some q)) \<longrightarrow>
       map_option rec_id (rec_heap (cs_table s) p) \<noteq> map_option rec_id (rec_heap (cs_table s) q))"
proof -
  let ?t = "cs_table s" and ?h = "rec_heap (cs_table s)" and ?calls = "cs_calls s" and ?log = "cs_log s"
  note ok = calls_ok_reach [OF assms(1)]
  have models: "table_models ?t (sort_key rec_id ?log)" by (rule calls_quiescent [OF ok assms(2)])
  have ids: "ids_ok (next_id ?t) ?h ?log (cs_ops s) ?calls" using ok by (simp add: calls_ok_def)
  have known: "call_ok (cs_ops s ! c) (cs_since s ! c) ?log ?h (?calls ! c)" if "c < length ?calls" for c
    using ok that by (simp add: calls_ok_def)
  have stored: "u \<in> set ?log \<longleftrightarrow> (\<exists>c < length ?calls. \<exists>name age p k. cs_ops s ! c = Op_Insert name age \<and>
       ?calls ! c = Returned (Res_Record (Some p)) \<and> ?h p = Some u \<and> u = inserted_record k name age)" (is "_ \<longleftrightarrow> ?made") for u
  proof
    assume "u \<in> set ?log"
    then obtain c where c: "c < length ?calls" "made ?h (cs_ops s ! c) (?calls ! c) = Some u" using ids by (auto simp: ids_ok_def)
    then obtain r where r: "?calls ! c = Returned r" using assms(2) by (auto simp: returned_def)
    obtain name age p where op: "cs_ops s ! c = Op_Insert name age" "r = Res_Record (Some p)" "?h p = Some u"
      using c(2) r by (cases "(?h, cs_ops s ! c, ?calls ! c)" rule: made.cases) auto
    then have "\<exists>k. u = inserted_record k name age" using known [OF c(1)] r by (auto simp: stored_def)
    then show ?made using c(1) r op by blast
  next
    assume ?made
    then obtain c name age p where c: "c < length ?calls" "cs_ops s ! c = Op_Insert name age" "?calls ! c = Returned (Res_Record (Some p))" "?h p = Some u"
      by blast
    then show "u \<in> set ?log" using known [OF c(1)] by (auto simp: stored_def dest: in_set_dropD)
  qed
  have own_id: "map_option rec_id (?h p) \<noteq> map_option rec_id (?h q)"
    if cd: "c < length ?calls" "d < length ?calls" "c \<noteq> d" and op: "cs_ops s ! c = Op_Insert n a" "cs_ops s ! d = Op_Insert n' a'"
      and r: "?calls ! c = Returned (Res_Record (Some p))" "?calls ! d = Returned (Res_Record (Some q))" for c d n a n' a' p q
  proof -
    have own: "owned ?h (cs_ops s ! c) (?calls ! c) = map_option rec_id (?h p)" "owned ?h (cs_ops s ! d) (?calls ! d) = map_option rec_id (?h q)"
      using op r by simp_all
    obtain u where "?h p = Some u" using known [OF cd(1)] op(1) r(1) by (auto simp: stored_def)
    then show ?thesis using ids cd own unfolding ids_ok_def by (metis option.simps(9))
  qed
  show ?thesis
    by (rule exI [of _ "sort_key rec_id ?log"], unfold set_sort stored, intro conjI models allI impI refl) (use own_id in blast)
qed

theorem table_inserts_all_stored_witness:
  "\<exists>s us. calls_reach s \<and> cs_calls s = [Returned (Res_Record (Some 0)), Returned (Res_Record (Some 1))] \<and>
     table_models (cs_table s) us \<and> rec_heap (cs_table s) 1 = Some Bob \<and> Bob \<in> set us"
proof -
  let ?s0 = "invoke (Op_Insert ''Bob'' 8) (invoke (Op_Insert ''Ann'' 7) empty_calls)" and ?cs = "[0, 0, 0, 1, 1, 1, 1, 0, 0, 1, 1, 0]"
  have p: "map_option (\<lambda>s. (map result_of (cs_calls s), rec_heap (cs_table s) 1)) (play ?cs ?s0) =
      Some ([Some (Res_Record (Some 0)), Some (Res_Record (Some 1))], Some Bob)" by code_simp
  obtain s where s: "play ?cs ?s0 = Some s" "map result_of (cs_calls s) = [Some (Res_Record (Some 0)), Some (Res_Record (Some 1))]"
    "rec_heap (cs_table s) 1 = Some Bob" using p unfolding map_option_eq_Some by (elim exE conjE) simp
  have calls: "cs_calls s = [Returned (Res_Record (Some 0)), Returned (Res_Record (Some 1))]"
    using s(2) by (auto simp: map_eq_Cons_conv result_of_Some)
  have smooth: "smooth_reach s" using play_smooth [OF s(1)] sr_invoke empty_calls_smooth by blast
  have ops: "cs_ops s = [Op_Insert ''Ann'' 7, Op_Insert ''Bob'' 8]" using play_ops [OF s(1)] by (simp add: invoke_def empty_calls_def)
  have "\<forall>c < length (cs_calls s). returned (cs_calls s ! c)" by (auto simp: calls returned_def less_Suc_eq)
  from table_inserts_all_stored [OF smooth_reach_calls [OF smooth] this] obtain us where us: "table_models (cs_table s) us"
    "Bob \<in> set us \<longleftrightarrow> (\<exists>c < length (cs_calls s). \<exists>name age p k. cs_ops s ! c = Op_Insert name age \<and>
       cs_calls s ! c = Returned (Res_Record (Some p)) \<and> rec_heap (cs_table s) p = Some Bob \<and> Bob = inserted_record k name age)" by (elim exE conjE allE [where x = Bob]) (rule that)
  have bob: "Bob = inserted_record 2 ''Bob'' 8" by (simp add: inserted_record_def bounded_def RECORD_NAME_SIZE_def)
  have at: "1 < length (cs_calls s)" "cs_ops s ! 1 = Op_Insert ''Bob'' 8" "cs_calls s ! 1 = Returned (Res_Record (Some 1))"
    by (simp_all add: calls ops)
  have "Bob \<in> set us" unfolding us(2)
    by (intro exI [of _ 1] exI [of _ "''Bob''"] exI [of _ 8] exI [of _ "1 :: nat"] exI [of _ 2] conjI at s(3) bob)
  then show ?thesis using smooth_reach_calls [OF smooth] calls us(1) s(3) by blast
qed

text \<open>C23: Any run of concurrent calls comes to an end: from a reachable state on, the calls that have begun
  make at most as many steps as there is work left in them, and as long as there are ids left every
  such run can be continued until all calls have returned.\<close>

theorem table_calls_complete:
  assumes "calls_reach s" and "ids_left s" and "advances n s s'"
  shows "n \<le> sum_list (map work (cs_calls s)) \<and>
    (\<exists>m s''. advances m s' s'' \<and> length (cs_calls s'') = length (cs_calls s) \<and> (\<forall>c < length (cs_calls s''). returned (cs_calls s'' ! c)))"
proof -
  note ok = calls_ok_reach [OF assms(1)]
  have "ids_left s' \<and> length (cs_calls s') = length (cs_calls s)" using assms(3,2)
  proof (induction rule: advances.induct)
    case (adv_step c s e s1 n s2)
    then show ?case using ids_left_advance [OF _ adv_step.hyps(1,3)] advance_step [OF adv_step.hyps(3,1)] by auto
  qed simp
  then show ?thesis
    using advances_bounded [OF assms(3) ok] calls_complete [OF advances_ok [OF assms(3) ok]] by (auto simp: tc.total_work_def)
qed

theorem table_calls_complete_witness:
  "\<exists>s m s''. calls_reach s \<and> waits (cs_table s) (cs_calls s ! 1) \<and> advances m s s'' \<and> (\<forall>c < 2. returned (cs_calls s'' ! c))"
proof (rule blocked_smooth)
  fix s
  assume s: "smooth_reach s" "length (cs_calls s) = 2" "waits (cs_table s) (cs_calls s ! 1)" "ids_left s"
  note reach = smooth_reach_calls [OF s(1)]
  show ?thesis
    using table_calls_complete [OF reach s(4) adv_none, unfolded s(2)] reach s(3) by metis
qed

text \<open>The steps of one call in a row, with nobody else, are the function of the sequential model: the
  split of each function at its locks neither adds nor drops anything, in any table and for any
  outcomes of the library calls.\<close>

theorem table_call_alone_is_sequential:
  "run_alone 6 t (start_pc (Op_Insert name age)) e =
     do { (r, tbl, e') \<leftarrow> table_insert (Some t) (Some name) age e; t' \<leftarrow> tbl; Some (Res_Record r, t', e') } \<and>
   run_alone 3 t (start_pc (Op_Find key)) e =
     do { (r, tbl, e') \<leftarrow> table_find_by_id (Some t) key e; t' \<leftarrow> tbl; Some (Res_Record r, t', e') } \<and>
   run_alone 51 t (start_pc (Op_Collect None)) e =
     do { (ok, ra, tbl, e') \<leftarrow> table_collect_all (Some t) e; t' \<leftarrow> tbl; Some (Res_Rows ok ra, t', e') } \<and>
   run_alone 51 t (start_pc (Op_Collect (Some f))) e =
     do { (ok, ra, tbl, e') \<leftarrow> collect_filtered t f e; t' \<leftarrow> tbl; Some (Res_Rows ok ra, t', e') }"
  using insert_alone [of t name age e] find_alone [of t key e] collect_alone [of t None e] collect_alone [of t "Some f" e]
  by (simp only: query_of.simps simp_thms)

text \<open>C24: A SELECT is not a snapshot of the table. In this run, without any failure, it returns only the
  second of two users although the insertion of the first was over before the second began: it has
  passed the bucket of the first one and not yet reached that of the second. There was no moment
  at which the table held just these users.\<close>

theorem table_select_is_no_snapshot:
  "\<exists>s p. smooth_reach s \<and> cs_ops s ! 0 = Op_Collect None \<and> cs_log s = [Ann, Bob] \<and>
     cs_ops s ! 1 = Op_Insert ''Ann'' 7 \<and> cs_ops s ! 2 = Op_Insert ''Bob'' 8 \<and> cs_since s ! 2 = 1 \<and>
     (\<exists>ra. cs_calls s ! 0 = Returned (Res_Rows True ra) \<and> array_view ra [p] \<and> rec_heap (cs_table s) p = Some Bob) \<and>
     (\<forall>k. map Some (take k (cs_log s)) \<noteq> [rec_heap (cs_table s) p])"
proof (rule overtaken_smooth)
  fix s
  assume s: "smooth_reach s" "map result_of (cs_calls s) = overtaken_results"
    "cs_ops s = [Op_Collect None, Op_Insert ''Ann'' 7, Op_Insert ''Bob'' 8, Op_Find 2]" "cs_since s = [0, 0, 1, 2]" "cs_log s = [Ann, Bob]"
  let ?ra = "\<lparr>ra_cells = [Some 1, None, None, None, None, None, None, None], ra_count = 1, ra_capacity = 8\<rparr>"
  have c: "cs_calls s ! 0 = Returned (Res_Rows True ?ra)" "2 < length (cs_calls s)" "cs_calls s ! 2 = Returned (Res_Record (Some 1))"
    using overtaken_at [OF s(2), of 0] overtaken_at [OF s(2), of 2] by simp_all
  have "\<exists>k. stored 1 [Ann, Bob] (rec_heap (cs_table s)) k ''Bob'' 8 1"
    using smooth_ok [OF s(1)] c(2,3) by (auto simp: calls_ok_def s(3-5) dest!: spec [where x = 2])
  then have "rec_heap (cs_table s) 1 = Some Bob" by (auto simp: stored_def inserted_record_def)
  moreover have "map Some (take k [Ann, Bob]) \<noteq> [Some Bob]" for k
    by (cases k; cases "k - 1") auto
  ultimately show ?thesis using s(1) c(1) by (intro exI [of _ s] exI [of _ 1] conjI) (auto simp: s(3-5) array_view_def)
qed

end
