(* ===== verification/Benchmarks.thy ===== *)
theory Benchmarks
  imports Table_Props Complex_Main
begin

text \<open>
  The two short benchmarks (\<^verbatim>\<open>sql_processor/perf10.c\<close>, \<^verbatim>\<open>cond10.c\<close>): clients of the table that compare
  the indexed queries with scans over all rows. The clock is a parameter, the readings of
  \<open>now_ms\<close> in their order as exact numbers; the table layout of the report is left out.
\<close>

section \<open>Samples\<close>

definition PERF_INSERT_COUNT :: nat where "PERF_INSERT_COUNT = 1000000"
definition PERF_SEARCH_COUNT :: nat where "PERF_SEARCH_COUNT = 10"
definition EXACT_QUERY_COUNT :: nat where "EXACT_QUERY_COUNT = 10"
definition RANGE_QUERY_COUNT :: nat where "RANGE_QUERY_COUNT = 10"

text \<open>The whole array is written; the remainder by zero is undefined.\<close>

definition build_sample_ids :: "nat \<Rightarrow> int \<Rightarrow> int list option" where
  "build_sample_ids n max_id =
     (if 0 < n \<and> max_id = 0 then None else Some (map (\<lambda>index. (int index * 97) smod max_id + 1) [0..<n]))"

definition build_exact_id_samples :: "nat \<Rightarrow> int \<Rightarrow> int list option" where
  "build_exact_id_samples n max_id =
     (if 0 < n \<and> max_id = 0 then None else Some (map (\<lambda>index. int index smod max_id + 1) [0..<n]))"

text \<open>\<open>now_ms\<close>, from the seconds and microseconds of \<open>gettimeofday\<close>.\<close>

definition now_ms :: "int \<times> int \<Rightarrow> rat" where
  "now_ms tv = of_int (fst tv) * 1000 + of_int (snd tv) / 1000"

section \<open>Queries by scanning the rows\<close>

fun compare_int :: "int \<Rightarrow> TableComparison \<Rightarrow> int \<Rightarrow> bool" where
  "compare_int left comparison right =
     (if comparison = TABLE_COMPARISON_EQ then left = right
      else if comparison = TABLE_COMPARISON_LT then left < right
      else if comparison = TABLE_COMPARISON_LE then left \<le> right
      else if comparison = TABLE_COMPARISON_GT then left > right
      else left \<ge> right)"

definition append_record :: "RecordArray \<Rightarrow> nat \<Rightarrow> env \<Rightarrow> (bool \<times> RecordArray \<times> env) option" where
  "append_record ra r e =
     (if ra_count ra \<ge> ra_capacity ra
      then let new_capacity = (if ra_capacity ra = 0 then 16 else ra_capacity ra * 2)
           in case env_next e of (ok, e') \<Rightarrow>
                if \<not> ok then Some (False, ra, e')
                else do { cells \<leftarrow> wr (grow_cells (ra_cells ra) new_capacity) (ra_count ra) (Some r);
                          Some (True, \<lparr>ra_cells = cells, ra_count = ra_count ra + 1, ra_capacity = new_capacity\<rparr>, e') }
      else do { cells \<leftarrow> wr (ra_cells ra) (ra_count ra) (Some r);
                Some (True, ra\<lparr>ra_cells := cells, ra_count := ra_count ra + 1\<rparr>, e) })"

function row_scan_loop ::
    "(nat \<rightharpoonup> Record) \<Rightarrow> TableComparison \<Rightarrow> int \<Rightarrow> RecordArray \<Rightarrow> nat \<Rightarrow> RecordArray \<Rightarrow> env \<Rightarrow> (bool \<times> RecordArray \<times> env) option" where
  "row_scan_loop h comparison key all_records index ra e =
     (if index < ra_count all_records
      then do { p \<leftarrow> rd_init (ra_cells all_records) index;
                r \<leftarrow> h p;
                if compare_int (rec_id r) comparison key
                then do { (ok, ra', e') \<leftarrow> append_record ra p e;
                          if ok then row_scan_loop h comparison key all_records (index + 1) ra' e'
                          else Some (False, ra'\<lparr>ra_cells := [], ra_count := 0\<rparr>, e') }
                else row_scan_loop h comparison key all_records (index + 1) ra e }
      else Some (True, ra, e))"
  by pat_completeness auto
termination
  by (relation "measure (\<lambda>(h, comparison, key, all_records, index, ra, e). ra_count all_records - index)") auto

definition collect_id_condition_by_row_scan ::
    "Table option \<Rightarrow> TableComparison \<Rightarrow> int \<Rightarrow> env \<Rightarrow> (bool \<times> RecordArray \<times> Table option \<times> env) option" where
  "collect_id_condition_by_row_scan table comparison key e =
     (case table of None \<Rightarrow> Some (False, empty_array, None, e)
      | Some t \<Rightarrow>
          if comparison = TABLE_COMPARISON_EQ
          then do { (r, tbl, e') \<leftarrow> table_scan_by_id table key e;
                    (case r of None \<Rightarrow> Some (True, empty_array, tbl, e')
                     | Some p \<Rightarrow> do { (ok, ra, e'') \<leftarrow> append_record empty_array p e'; Some (ok, ra, tbl, e'') }) }
          else do { (ok, all_records, tbl, e') \<leftarrow> table_collect_all table e;
                    if \<not> ok then Some (False, empty_array, tbl, e')
                    else do { t' \<leftarrow> tbl;
                              (ok', ra, e'') \<leftarrow> row_scan_loop (rec_heap t') comparison key all_records 0 empty_array e';
                              Some (ok', ra, tbl, e'') } })"

section \<open>Measured loops\<close>

text \<open>The lookups of \<open>values\<close>: how many hit and the sum of the ids found.\<close>

fun exact_lookups_loop :: "Table \<Rightarrow> int list \<Rightarrow> bool \<Rightarrow> int \<Rightarrow> int \<Rightarrow> env \<Rightarrow> (int \<times> int \<times> Table \<times> env) option" where
  "exact_lookups_loop t [] use_btree row_checksum first_id_checksum e = Some (row_checksum, first_id_checksum, t, e)"
| "exact_lookups_loop t (v # vs) use_btree row_checksum first_id_checksum e =
     do { (r, tbl, e') \<leftarrow> (if use_btree then table_find_by_id (Some t) v e else table_scan_by_id (Some t) v e);
          t' \<leftarrow> tbl;
          (case r of
             None \<Rightarrow> exact_lookups_loop t' vs use_btree row_checksum first_id_checksum e'
           | Some p \<Rightarrow> do { u \<leftarrow> rec_heap t' p;
                            exact_lookups_loop t' vs use_btree (row_checksum + 1) (first_id_checksum + rec_id u) e' }) }"

definition benchmark_exact_id_lookups ::
    "Table \<Rightarrow> int list \<Rightarrow> bool \<Rightarrow> rat \<Rightarrow> rat \<Rightarrow> env \<Rightarrow> (rat \<times> int \<times> int \<times> Table \<times> env) option" where
  "benchmark_exact_id_lookups t values use_btree start_ms end_ms e =
     do { (row_checksum, first_id_checksum, t', e') \<leftarrow> exact_lookups_loop t values use_btree 0 0 e;
          Some (end_ms - start_ms, row_checksum, first_id_checksum, t', e') }"

text \<open>The repeated condition query; the first component says whether all of them succeeded.\<close>

fun id_condition_loop ::
    "Table \<Rightarrow> TableComparison \<Rightarrow> int \<Rightarrow> nat \<Rightarrow> bool \<Rightarrow> int \<Rightarrow> int \<Rightarrow> env \<Rightarrow> (bool \<times> int \<times> int \<times> Table \<times> env) option" where
  "id_condition_loop t comparison key 0 use_btree row_checksum first_id_checksum e = Some (True, row_checksum, first_id_checksum, t, e)"
| "id_condition_loop t comparison key (Suc repeat) use_btree row_checksum first_id_checksum e =
     do { (ok, ra, tbl, e') \<leftarrow> (if use_btree then table_find_by_id_condition (Some t) comparison key e
                                 else collect_id_condition_by_row_scan (Some t) comparison key e);
          t' \<leftarrow> tbl;
          if \<not> ok then Some (False, row_checksum, first_id_checksum, t', e')
          else if ra_count ra > 0
          then do { p \<leftarrow> rd_init (ra_cells ra) 0;
                    u \<leftarrow> rec_heap t' p;
                    id_condition_loop t' comparison key repeat use_btree (row_checksum + int (ra_count ra)) (first_id_checksum + rec_id u) e' }
          else id_condition_loop t' comparison key repeat use_btree (row_checksum + int (ra_count ra)) first_id_checksum e' }"

definition benchmark_id_condition_queries ::
    "Table \<Rightarrow> TableComparison \<Rightarrow> int \<Rightarrow> nat \<Rightarrow> bool \<Rightarrow> rat \<Rightarrow> rat \<Rightarrow> env \<Rightarrow> (rat \<times> int \<times> int \<times> Table \<times> env) option" where
  "benchmark_id_condition_queries t comparison key repeat_count use_btree start_ms end_ms e =
     do { (ok, row_checksum, first_id_checksum, t', e') \<leftarrow> id_condition_loop t comparison key repeat_count use_btree 0 0 e;
          Some (if ok then end_ms - start_ms else - 1, row_checksum, first_id_checksum, t', e') }"

section \<open>The programs\<close>

text \<open>\<open>for (index = 0; index < PERF_INSERT_COUNT; index++)\<close>, for the indices that are left; false at the first failure.\<close>

fun insert_rows_loop :: "Table \<Rightarrow> nat \<Rightarrow> nat \<Rightarrow> env \<Rightarrow> (bool \<times> Table \<times> env) option" where
  "insert_rows_loop t index 0 e = Some (True, t, e)"
| "insert_rows_loop t index (Suc n) e =
     do { (r, tbl, e') \<leftarrow> table_insert (Some t) (Some (bounded RECORD_NAME_SIZE (''user'' @ show_int (int index + 1)))) (int (index mod 100)) e;
          t' \<leftarrow> tbl;
          (case r of None \<Rightarrow> Some (False, t', e') | Some p \<Rightarrow> insert_rows_loop t' (index + 1) n e') }"

text \<open>The exit status, the report (the average number of rows and the time of both methods, the speedup),
  and the records that are left. Every path behind the creation destroys the table.\<close>

type_synonym PerfReport = "(rat \<times> rat) \<times> (rat \<times> rat) \<times> rat"

definition perf10_main :: "(nat \<Rightarrow> int \<times> int) \<Rightarrow> env \<Rightarrow> (int \<times> PerfReport option \<times> (nat \<rightharpoonup> Record)) option" where
  "perf10_main clock e =
     do { (table, e1) \<leftarrow> table_create e;
          (case table of
             None \<Rightarrow> Some (1, None, Map.empty)
           | Some t \<Rightarrow>
               (case env_next e1 of (ok, e2) \<Rightarrow>
                  if \<not> ok then do { h \<leftarrow> table_destroy (Some t); Some (1, None, h) }
                  else do { (inserted, t1, e3) \<leftarrow> insert_rows_loop t 0 PERF_INSERT_COUNT e2;
                            if \<not> inserted then do { h \<leftarrow> table_destroy (Some t1); Some (1, None, h) }
                            else do { sample_ids \<leftarrow> build_sample_ids PERF_SEARCH_COUNT (int PERF_INSERT_COUNT);
                                      (hit_count_index, checksum_index, t2, e4) \<leftarrow> exact_lookups_loop t1 sample_ids True 0 0 e3;
                                      (hit_count_linear, checksum_linear, t3, e5) \<leftarrow> exact_lookups_loop t2 sample_ids False 0 0 e4;
                                      let bptree_ms = now_ms (clock 1) - now_ms (clock 0);
                                      let linear_ms = now_ms (clock 3) - now_ms (clock 2);
                                      h \<leftarrow> table_destroy (Some t3);
                                      if checksum_index \<noteq> checksum_linear \<or> hit_count_index \<noteq> hit_count_linear then Some (1, None, h)
                                      else let speedup = (if bptree_ms > 0 then linear_ms / bptree_ms else 0)
                                           in Some (0, Some ((of_int hit_count_index / of_nat PERF_SEARCH_COUNT, bptree_ms),
                                                             (of_int hit_count_linear / of_nat PERF_SEARCH_COUNT, linear_ms), speedup), h) } })) }"

text \<open>The report of the second program: the average numbers of rows and the times.\<close>

type_synonym CondReport = "(rat \<times> rat) \<times> (rat \<times> rat) \<times> (rat \<times> rat) \<times> (rat \<times> rat)"

definition cond10_main :: "(nat \<Rightarrow> int \<times> int) \<Rightarrow> env \<Rightarrow> (int \<times> CondReport option \<times> (nat \<rightharpoonup> Record)) option" where
  "cond10_main clock e =
     do { (table, e1) \<leftarrow> table_create e;
          (case table of
             None \<Rightarrow> Some (1, None, Map.empty)
           | Some t \<Rightarrow>
               (case env_next e1 of (ok, e2) \<Rightarrow>
                  if \<not> ok then do { h \<leftarrow> table_destroy (Some t); Some (1, None, h) }
                  else do { (inserted, t1, e3) \<leftarrow> insert_rows_loop t 0 PERF_INSERT_COUNT e2;
                            if \<not> inserted then do { h \<leftarrow> table_destroy (Some t1); Some (1, None, h) }
                            else do { sample_ids \<leftarrow> build_exact_id_samples EXACT_QUERY_COUNT (int PERF_INSERT_COUNT);
                                      (exact_btree_ms, exact_btree_rows, _, t2, e4) \<leftarrow>
                                        benchmark_exact_id_lookups t1 sample_ids True (now_ms (clock 0)) (now_ms (clock 1)) e3;
                                      (exact_scan_ms, exact_scan_rows, _, t3, e5) \<leftarrow>
                                        benchmark_exact_id_lookups t2 sample_ids False (now_ms (clock 2)) (now_ms (clock 3)) e4;
                                      (range_btree_ms, range_btree_rows, _, t4, e6) \<leftarrow>
                                        benchmark_id_condition_queries t3 TABLE_COMPARISON_GE 990001 RANGE_QUERY_COUNT True
                                          (now_ms (clock 4)) (now_ms (clock 5)) e5;
                                      (range_scan_ms, range_scan_rows, _, t5, e7) \<leftarrow>
                                        benchmark_id_condition_queries t4 TABLE_COMPARISON_GE 990001 RANGE_QUERY_COUNT False
                                          (now_ms (clock 6)) (now_ms (clock 7)) e6;
                                      h \<leftarrow> table_destroy (Some t5);
                                      if exact_btree_ms < 0 \<or> exact_scan_ms < 0 \<or> range_btree_ms < 0 \<or> range_scan_ms < 0
                                      then Some (1, None, h)
                                      else Some (0, Some ((of_int exact_btree_rows / of_nat EXACT_QUERY_COUNT, exact_btree_ms),
                                                          (of_int exact_scan_rows / of_nat EXACT_QUERY_COUNT, exact_scan_ms),
                                                          (of_int range_btree_rows / of_nat RANGE_QUERY_COUNT, range_btree_ms),
                                                          (of_int range_scan_rows / of_nat RANGE_QUERY_COUNT, range_scan_ms)), h) } })) }"

end
