(* ===== verification/Bench_Props.thy ===== *)
theory Bench_Props
  imports Benchmarks
begin

text \<open>
  The benchmarks are right: the scans they compare the index with compute the same answers, and
  without a failure each program reports the numbers of rows that its text promises.
\<close>

section \<open>Scans agree with the index\<close>

lemma append_record_with: "append_record = append_with 16"
  by (intro ext) (auto simp: append_record_def append_with_def Let_def split: prod.splits)

interpretation br: growable append_record array_view
  unfolding append_record_with by (rule append_with_growable) simp

lemma compare_int_compared [simp]: "compare_int x c y \<longleftrightarrow> compared c x y"
  by (cases c) simp_all

declare compare_int.simps [simp del] row_scan_loop.simps [simp del]

lemma row_scan_loop_with:
  "row_scan_loop h c k all i ra e = filter_with append_record h (\<lambda>u. compared c (rec_id u) k) all i ra e"
proof (induction "ra_count all - i" arbitrary: i ra e)
  case 0
  then show ?case by (subst row_scan_loop.simps, subst filter_with.simps) simp
next
  case (Suc d)
  have IH: "row_scan_loop h c k all (Suc i) ra e = filter_with append_record h (\<lambda>u. compared c (rec_id u) k) all (Suc i) ra e" for ra e
    using Suc.hyps(1) [of "Suc i" ra e] Suc.hyps(2) by simp
  show ?case by (subst row_scan_loop.simps, subst filter_with.simps)
      (auto simp: IH table_free_record_array_def intro!: Option.bind_cong)
qed

lemma row_scan_result:
  assumes t: "table_models t us" and e: "all_succeed e"
  shows "\<exists>ra e'. collect_id_condition_by_row_scan (Some t) c k e = Some (True, ra, Some t, e') \<and>
    query_result t (filter (\<lambda>u. compared c (rec_id u) k) us) True ra \<and> all_succeed e'"
proof (cases "c = TABLE_COMPARISON_EQ")
  case False
  obtain all e1 ps where a: "table_collect_all_sorted (Some t) e = Some (True, all, Some t, e1)"
    "array_view all ps" "denotes (rec_heap t) ps us" "all_succeed e1"
    using collect_all_sorted_ok [OF t, of e] e by (auto split: if_splits)
  obtain ok ra e2 qs where f: "row_scan_loop (rec_heap t) c k all 0 empty_array e1 = Some (ok, ra, e2)"
    "if ok then array_view ra qs \<and> denotes (rec_heap t) qs (filter (\<lambda>u. compared c (rec_id u) k) us) else ra_cells ra = [] \<and> ra_count ra = 0"
    "all_succeed e1 \<longrightarrow> ok \<and> all_succeed e2"
    unfolding row_scan_loop_with using filter_with_ok [OF br.growable_axioms a(2,3)] by blast
  then show ?thesis using False a(1,4)
    by (auto simp: collect_id_condition_by_row_scan_def table_collect_all_def query_result_def)
next
  case True
  obtain pss where "table_rows t pss us" using t by (auto simp: table_models_def)
  then have ok: "users_ok us (next_id t)" by (simp add: table_rows_def)
  obtain r e1 where r: "table_scan_by_id (Some t) k e = Some (r, Some t, e1)" "points_to (rec_heap t) r (user_with_id us k)" "all_succeed e1"
    using table_scan_by_id_ok [OF t e] by blast
  show ?thesis
  proof (cases r)
    case None
    then have "filter (\<lambda>u. rec_id u = k) us = []" using r(2) filter_id_eq [OF ok, of k] by (simp add: points_to_def)
    then show ?thesis using r(1,3) True None
      by (auto simp: collect_id_condition_by_row_scan_def query_result_def denotes_def intro!: exI [of _ "[]"])
  next
    case (Some p)
    then obtain u where u: "rec_heap t p = Some u" "user_with_id us k = Some u" using r(2) by (auto simp: points_to_def)
    obtain ra e2 where a: "append_record empty_array p e1 = Some (True, ra, e2)" "array_view ra [p]" "all_succeed e2"
      using br.gr_step [OF array_view_empty, of p e1] r(3) by auto
    have "denotes (rec_heap t) [p] (filter (\<lambda>u. rec_id u = k) us)"
      using u filter_id_eq [OF ok, of k] by (simp add: denotes_def)
    then show ?thesis using r(1) True Some a by (auto simp: collect_id_condition_by_row_scan_def query_result_def)
  qed
qed

section \<open>Measured loops\<close>

text \<open>What the lookups should report.\<close>

definition hits :: "Record list \<Rightarrow> int list \<Rightarrow> Record list" where
  "hits us vs = concat (map (\<lambda>v. case user_with_id us v of None \<Rightarrow> [] | Some u \<Rightarrow> [u]) vs)"

lemma exact_lookups_result:
  "table_models t us \<Longrightarrow> all_succeed e \<Longrightarrow>
   \<exists>e'. exact_lookups_loop t vs use_btree n s e = Some (n + int (length (hits us vs)), s + sum_list (map rec_id (hits us vs)), t, e') \<and> all_succeed e'"
proof (induction vs arbitrary: n s e)
  case (Cons v vs)
  obtain e0 where e0: "env_next e = (True, e0)" "all_succeed e0" using Cons.prems(2) by (rule env_nextE)
  obtain r e1 where r: "(if use_btree then table_find_by_id (Some t) v e else table_scan_by_id (Some t) v e) = Some (r, Some t, e1)"
    "points_to (rec_heap t) r (user_with_id us v)" "all_succeed e1"
    using table_find_by_id_ok [OF Cons.prems(1) e0(1), of v] e0(2) table_scan_by_id_ok [OF Cons.prems, of v] by (cases use_btree) auto
  show ?case
  proof (cases r)
    case None
    then show ?thesis using r Cons.IH [OF Cons.prems(1) r(3)] by (auto simp: points_to_def hits_def)
  next
    case (Some p)
    then obtain u where u: "rec_heap t p = Some u" "user_with_id us v = Some u" using r(2) by (auto simp: points_to_def)
    then have h: "hits us (v # vs) = u # hits us vs" by (simp add: hits_def)
    obtain e' where "exact_lookups_loop t vs use_btree (n + 1) (s + rec_id u) e1 =
        Some (n + 1 + int (length (hits us vs)), s + rec_id u + sum_list (map rec_id (hits us vs)), t, e')" "all_succeed e'"
      using Cons.IH [OF Cons.prems(1) r(3)] by blast
    then show ?thesis using r(1) Some u h by (simp add: algebra_simps)
  qed
qed (simp add: hits_def)

lemma id_condition_result_loop:
  assumes t: "table_models t us"
  defines "vs \<equiv> \<lambda>c k. filter (\<lambda>u. compared c (rec_id u) k) us"
  shows "all_succeed e \<Longrightarrow>
   \<exists>e'. id_condition_loop t c k m use_btree n s e =
     Some (True, n + int m * int (length (vs c k)), s + int m * (case vs c k of [] \<Rightarrow> 0 | u # _ \<Rightarrow> rec_id u), t, e') \<and> all_succeed e'"
proof (induction m arbitrary: n s e)
  case (Suc m)
  obtain ra e1 where q: "(if use_btree then table_find_by_id_condition (Some t) c k e else collect_id_condition_by_row_scan (Some t) c k e) =
      Some (True, ra, Some t, e1)" "query_result t (vs c k) True ra" "all_succeed e1"
    using id_condition_result [OF t, of c k e] row_scan_result [OF t Suc.prems, of c k] Suc.prems
    unfolding vs_def by (cases use_btree) auto
  obtain ps where ps: "array_view ra ps" "denotes (rec_heap t) ps (vs c k)" using q(2) by (auto simp: query_result_def)
  have cnt: "ra_count ra = length (vs c k)" using ps denotes_length [OF ps(2)] by (simp add: array_view_def)
  show ?case
  proof (cases "vs c k")
    case Nil
    then show ?thesis using q(1) cnt Suc.IH [OF q(3), of n s] by simp
  next
    case (Cons u us')
    then obtain p where p: "rd_init (ra_cells ra) 0 = Some p" "rec_heap t p = Some u"
      using array_view_nth [OF ps(1), of 0] denotes_nth [OF ps(2), of 0] denotes_length [OF ps(2)] by simp
    obtain e' where "id_condition_loop t c k m use_btree (n + int (ra_count ra)) (s + rec_id u) e1 =
        Some (True, n + int (ra_count ra) + int m * int (length (vs c k)), s + rec_id u + int m * rec_id u, t, e')" "all_succeed e'"
      using Suc.IH [OF q(3), of "n + int (ra_count ra)" "s + rec_id u"] Cons by auto
    then show ?thesis using q(1) cnt p Cons by (simp add: algebra_simps)
  qed
qed simp

section \<open>The inserted rows\<close>

definition bench_user :: "nat \<Rightarrow> Record" where
  "bench_user i = \<lparr>rec_id = int i + 1, rec_name = bounded RECORD_NAME_SIZE (''user'' @ show_int (int i + 1)), rec_age = int (i mod 100)\<rparr>"

definition bench_users :: "nat \<Rightarrow> Record list" where
  "bench_users n = map bench_user [0..<n]"

lemma insert_rows_result:
  "table_models t (bench_users i) \<Longrightarrow> next_id t = int i + 1 \<Longrightarrow> int (i + n) < INT_MAX \<Longrightarrow> all_succeed e \<Longrightarrow>
   \<exists>t' e'. insert_rows_loop t i n e = Some (True, t', e') \<and> table_models t' (bench_users (i + n)) \<and> all_succeed e'"
proof (induction n arbitrary: t i e)
  case (Suc n)
  let ?name = "bounded RECORD_NAME_SIZE (''user'' @ show_int (int i + 1))"
  have lt: "next_id t < INT_MAX" using Suc.prems(2,3) by simp
  obtain p t1 e1 where i: "table_insert (Some t) (Some ?name) (int (i mod 100)) e = Some (Some p, Some t1, e1)"
    "insert_result t (bench_users i) (new_record t ?name (int (i mod 100))) (Some p) t1" "all_succeed e1"
    using table_insert_guarded [OF Suc.prems(1) lt guarded_all [OF Suc.prems(4)], of ?name "int (i mod 100)"] Suc.prems(4) by auto
  have "new_record t ?name (int (i mod 100)) = bench_user i"
    by (simp add: new_record_def bench_user_def Suc.prems(2) bounded_def)
  then have t1: "table_models t1 (bench_users (Suc i))" "next_id t1 = int (Suc i) + 1"
    using i(2) Suc.prems(2) by (simp_all add: insert_result_def bench_users_def)
  obtain t' e' where "insert_rows_loop t1 (Suc i) n e1 = Some (True, t', e')" "table_models t' (bench_users (Suc i + n))" "all_succeed e'"
    using Suc.IH [OF t1 _ i(3)] Suc.prems(3) by auto
  then show ?case using i(1) by simp
qed auto

lemma bench_user_found:
  assumes "table_models t (bench_users n)" and "i < n"
  shows "user_with_id (bench_users n) (int i + 1) = Some (bench_user i)"
proof -
  obtain pss where "table_rows t pss (bench_users n)" using assms(1) by (auto simp: table_models_def)
  then have "users_ok (bench_users n) (next_id t)" by (simp add: table_rows_def)
  moreover have "bench_user i \<in> set (bench_users n)" using assms(2) by (simp add: bench_users_def)
  ultimately show ?thesis using user_with_id_Some by (fastforce simp: bench_user_def)
qed

lemma bench_hits:
  assumes "table_models t (bench_users n)" and "\<forall>i \<in> set is. i < n"
  shows "hits (bench_users n) (map (\<lambda>i. int i + 1) is) = map bench_user is"
  using assms(2) by (induction "is") (simp_all add: hits_def bench_user_found [OF assms(1)])

lemma filter_upt: "m \<le> n \<Longrightarrow> filter (\<lambda>i. m \<le> i) [0..<n] = [m..<n]"
  by (induction n) (auto simp: le_Suc_eq filter_empty_conv)

lemma bench_range:
  assumes "m < n"
  shows "length (filter (\<lambda>u. int m + 1 \<le> rec_id u) (bench_users n)) = n - m"
    and "(case filter (\<lambda>u. int m + 1 \<le> rec_id u) (bench_users n) of [] \<Rightarrow> 0 | u # _ \<Rightarrow> rec_id u) = int m + 1"
proof -
  have "filter (\<lambda>u. int m + 1 \<le> rec_id u) (bench_users n) = map bench_user (filter (\<lambda>i. m \<le> i) [0..<n])"
    by (simp add: bench_users_def filter_map comp_def bench_user_def)
  then have f: "filter (\<lambda>u. int m + 1 \<le> rec_id u) (bench_users n) = map bench_user [m..<n]"
    using filter_upt [of m n] assms by simp
  show "length (filter (\<lambda>u. int m + 1 \<le> rec_id u) (bench_users n)) = n - m" unfolding f by simp
  show "(case filter (\<lambda>u. int m + 1 \<le> rec_id u) (bench_users n) of [] \<Rightarrow> 0 | u # _ \<Rightarrow> rec_id u) = int m + 1"
    unfolding f upt_conv_Cons [OF assms] by (simp add: bench_user_def)
qed

section \<open>The programs\<close>

lemma smod_small: "0 \<le> a \<Longrightarrow> a < b \<Longrightarrow> (a :: int) smod b = a"
  by (cases "a = 0") (simp_all add: smod_int_alt_def sgn_if)

lemma count_int: "int PERF_INSERT_COUNT = 1000000" "990000 < PERF_INSERT_COUNT"
  by (simp_all add: PERF_INSERT_COUNT_def)

lemma sample_ids: "build_sample_ids PERF_SEARCH_COUNT (int PERF_INSERT_COUNT) = Some (map (\<lambda>i. int i + 1) (map (\<lambda>i. i * 97) [0..<10]))"
  unfolding build_sample_ids_def count_int by (simp add: PERF_SEARCH_COUNT_def smod_small)

lemma exact_sample_ids: "build_exact_id_samples EXACT_QUERY_COUNT (int PERF_INSERT_COUNT) = Some (map (\<lambda>i. int i + 1) [0..<10])"
  unfolding build_exact_id_samples_def count_int by (simp add: EXACT_QUERY_COUNT_def smod_small)

text \<open>Both programs up to the queries.\<close>

lemma bench_setup:
  assumes "all_succeed e"
  shows "\<exists>e1 e2 t e3. table_create e = Some (Some (table_upto 16), e1) \<and> env_next e1 = (True, e2) \<and>
    insert_rows_loop (table_upto 16) 0 PERF_INSERT_COUNT e2 = Some (True, t, e3) \<and>
    table_models t (bench_users PERF_INSERT_COUNT) \<and> all_succeed e3"
proof -
  obtain e1 where c: "table_create e = Some (Some (table_upto 16), e1)" "all_succeed e1" using table_create_cases [of e] assms by auto
  obtain e2 where m: "env_next e1 = (True, e2)" "all_succeed e2" using c(2) by (rule env_nextE)
  have "table_models (table_upto 16) (bench_users 0)" using table_upto_models by (simp add: bench_users_def)
  moreover have "int (0 + PERF_INSERT_COUNT) < INT_MAX" by (simp add: count_int INT_MAX_def)
  ultimately show ?thesis using insert_rows_result [of "table_upto 16" 0 PERF_INSERT_COUNT e2] c m by auto
qed

section \<open>Properties\<close>

text \<open>C28: The reference query of the benchmark, which scans the rows, and the query of the table, which
  uses the index for an equality, select the same users of any table, for each comparison and
  each id, when nothing fails.\<close>

theorem bench_scan_equals_query:
  assumes "table_models t us" and "all_succeed e1" and "all_succeed e2"
  shows "\<exists>ra1 e1' ra2 e2'. collect_id_condition_by_row_scan (Some t) c k e1 = Some (True, ra1, Some t, e1') \<and>
    table_find_by_id_condition (Some t) c k e2 = Some (True, ra2, Some t, e2') \<and>
    query_result t (filter (\<lambda>u. compared c (rec_id u) k) us) True ra1 \<and> query_result t (filter (\<lambda>u. compared c (rec_id u) k) us) True ra2"
proof -
  from row_scan_result [OF assms(1,2), of c k] obtain ra1 e1' where
    "collect_id_condition_by_row_scan (Some t) c k e1 = Some (True, ra1, Some t, e1')"
    "query_result t (filter (\<lambda>u. compared c (rec_id u) k) us) True ra1" by blast
  moreover from id_condition_result [OF assms(1), of c k e2] obtain ra2 e2' where
    "table_find_by_id_condition (Some t) c k e2 = Some (True, ra2, Some t, e2')"
    "query_result t (filter (\<lambda>u. compared c (rec_id u) k) us) True ra2" using assms(3) by auto
  ultimately show ?thesis by blast
qed

theorem bench_scan_equals_query_witness:
  "\<exists>t ra1 e1' ra2 e2'. table_models t sample_users \<and>
     collect_id_condition_by_row_scan (Some t) TABLE_COMPARISON_GT 1 [] = Some (True, ra1, Some t, e1') \<and>
     table_find_by_id_condition (Some t) TABLE_COMPARISON_GT 1 [True] = Some (True, ra2, Some t, e2') \<and>
     query_result t (tl sample_users) True ra1 \<and> query_result t (tl sample_users) True ra2"
proof -
  obtain t where t: "table_models t sample_users" using sample_table by blast
  have e: "all_succeed []" "all_succeed [True]" by (simp_all add: all_succeed_def)
  from bench_scan_equals_query [OF t e, of TABLE_COMPARISON_GT 1] show ?thesis using t by auto
qed

text \<open>The lookup benchmark, when nothing fails: a million rows are inserted, all ten lookups hit
  through the index and through the scan, the checksums agree, so that the program never reports a
  mismatch; it exits with 0 and every record is freed.\<close>

theorem perf10_main_reports:
  assumes "all_succeed e"
  shows "perf10_main clock e =
    (let b = now_ms (clock 1) - now_ms (clock 0); l = now_ms (clock 3) - now_ms (clock 2)
     in Some (0, Some ((1, b), (1, l), if b > 0 then l / b else 0), Map.empty))"
proof -
  obtain e1 e2 t e3 where s: "table_create e = Some (Some (table_upto 16), e1)" "env_next e1 = (True, e2)"
    "insert_rows_loop (table_upto 16) 0 PERF_INSERT_COUNT e2 = Some (True, t, e3)" "table_models t (bench_users PERF_INSERT_COUNT)" "all_succeed e3"
    using bench_setup [OF assms] by blast
  let ?vs = "map (\<lambda>i. int i + 1) (map (\<lambda>i. i * 97) [0..<10])" and ?us = "bench_users PERF_INSERT_COUNT"
  have "\<forall>i \<in> set (map (\<lambda>i. i * 97) [0..<10]). i < PERF_INSERT_COUNT" using count_int(2) by auto
  from bench_hits [OF s(4) this] have h: "hits ?us ?vs = map bench_user (map (\<lambda>i. i * 97) [0..<10])" .
  have sum: "length (hits ?us ?vs) = 10" "sum_list (map rec_id (hits ?us ?vs)) = 4375"
    unfolding h by (simp_all add: bench_user_def upt_rec)
  obtain e4 where b: "exact_lookups_loop t ?vs True 0 0 e3 = Some (10, 4375, t, e4)" "all_succeed e4"
    using exact_lookups_result [OF s(4,5), of ?vs True 0 0] unfolding sum by auto
  obtain e5 where l: "exact_lookups_loop t ?vs False 0 0 e4 = Some (10, 4375, t, e5)"
    using exact_lookups_result [OF s(4) b(2), of ?vs False 0 0] unfolding sum by auto
  show ?thesis unfolding perf10_main_def Let_def
    using s(1-3) b(1) l table_destroy_ok [OF s(4)] sample_ids by simp (simp add: PERF_SEARCH_COUNT_def)
qed

theorem perf10_main_reports_witness:
  "perf10_main (\<lambda>i. (int i, 0)) [] = Some (0, Some ((1, 1000), (1, 1000), 1), Map.empty)"
  using perf10_main_reports [of "[]" "\<lambda>i. (int i, 0)"] by (simp add: now_ms_def all_succeed_def)

text \<open>The condition benchmark, when no call of the library fails: the lookups hit once each and the
  range queries select the ten thousand rows that the text of the report promises, through the index
  and by scanning. It exits with 0 and this report, and every record is freed, unless the clock was set back during
  a measurement: then it takes the negative time for its failure value and exits with 1.\<close>

theorem cond10_main_reports:
  assumes "all_succeed e"
  shows "cond10_main clock e =
    (let d = (\<lambda>i. now_ms (clock (i + 1)) - now_ms (clock i))
     in if d 0 < 0 \<or> d 2 < 0 \<or> d 4 < 0 \<or> d 6 < 0 then Some (1, None, Map.empty)
        else Some (0, Some ((1, d 0), (1, d 2), (10000, d 4), (10000, d 6)), Map.empty))"
proof -
  obtain e1 e2 t e3 where s: "table_create e = Some (Some (table_upto 16), e1)" "env_next e1 = (True, e2)"
    "insert_rows_loop (table_upto 16) 0 PERF_INSERT_COUNT e2 = Some (True, t, e3)" "table_models t (bench_users PERF_INSERT_COUNT)" "all_succeed e3"
    using bench_setup [OF assms] by blast
  let ?vs = "map (\<lambda>i. int i + 1) [0..<10]" and ?us = "bench_users PERF_INSERT_COUNT"
  have "\<forall>i \<in> set [0..<10]. i < PERF_INSERT_COUNT" using count_int(2) by auto
  from bench_hits [OF s(4) this] have h: "hits ?us ?vs = map bench_user [0..<10]" .
  have len: "length (hits ?us ?vs) = 10" unfolding h by simp
  let ?ws = "filter (\<lambda>u. compared TABLE_COMPARISON_GE (rec_id u) 990001) ?us"
  have ws: "length ?ws = 10000" using bench_range(1) [OF count_int(2)] by (simp add: PERF_INSERT_COUNT_def ac_simps)
  obtain x4 e4 where b: "exact_lookups_loop t ?vs True 0 0 e3 = Some (10, x4, t, e4)" "all_succeed e4"
    using exact_lookups_result [OF s(4,5), of ?vs True 0 0] unfolding len by auto
  obtain x5 e5 where l: "exact_lookups_loop t ?vs False 0 0 e4 = Some (10, x5, t, e5)" "all_succeed e5"
    using exact_lookups_result [OF s(4) b(2), of ?vs False 0 0] unfolding len by auto
  obtain x6 e6 where rb: "id_condition_loop t TABLE_COMPARISON_GE 990001 RANGE_QUERY_COUNT True 0 0 e5 = Some (True, 100000, x6, t, e6)" "all_succeed e6"
    using id_condition_result_loop [OF s(4) l(2), of TABLE_COMPARISON_GE 990001 RANGE_QUERY_COUNT True 0 0]
    unfolding ws by (auto simp: RANGE_QUERY_COUNT_def)
  obtain x7 e7 where rs: "id_condition_loop t TABLE_COMPARISON_GE 990001 RANGE_QUERY_COUNT False 0 0 e6 = Some (True, 100000, x7, t, e7)"
    using id_condition_result_loop [OF s(4) rb(2), of TABLE_COMPARISON_GE 990001 RANGE_QUERY_COUNT False 0 0]
    unfolding ws by (auto simp: RANGE_QUERY_COUNT_def)
  show ?thesis unfolding cond10_main_def Let_def benchmark_exact_id_lookups_def benchmark_id_condition_queries_def
    using s(1-3) b(1) l(1) rb(1) rs table_destroy_ok [OF s(4)] exact_sample_ids
    by (simp add: EXACT_QUERY_COUNT_def) (simp add: RANGE_QUERY_COUNT_def)
qed

theorem cond10_main_reports_witness:
  "cond10_main (\<lambda>i. (int i, 0)) [True] = Some (0, Some ((1, 1000), (1, 1000), (10000, 1000), (10000, 1000)), Map.empty)"
  using cond10_main_reports [of "[True]" "\<lambda>i. (int i, 0)"] by (simp add: now_ms_def all_succeed_def)

end
