(* ===== verification/Server_Handler.thy ===== *)
theory Server_Handler
  imports Server_Correct Calls_Success
begin

text \<open>
  The handler of a client cut at its call of the table: what it does in front of the call depends
  on the client alone, the call is one of the table calls that can be interleaved, and behind the
  call the handler only reads records. Put together, the pieces are the handler.
\<close>

section \<open>The call of a statement\<close>

definition plan_op :: "SQLCommand \<Rightarrow> table_op option" where
  "plan_op c =
     (case cmd_type c of
        SQL_COMMAND_INSERT \<Rightarrow> Some (Op_Insert (cmd_name c) (int_value c))
      | SQL_COMMAND_SELECT_ALL \<Rightarrow> Some (Op_Collect None)
      | SQL_COMMAND_SELECT_BY_ID \<Rightarrow>
          Some (if cmd_comparison c = TABLE_COMPARISON_EQ then Op_Find (int_value c)
                else Op_Collect (Some (\<lambda>r. table_compare_int (rec_id r) (cmd_comparison c) (int_value c))))
      | SQL_COMMAND_SELECT_BY_NAME \<Rightarrow> Some (Op_Collect (Some (\<lambda>r. rec_name r = text_value c)))
      | SQL_COMMAND_SELECT_BY_AGE \<Rightarrow>
          Some (Op_Collect (Some (\<lambda>r. table_compare_int (rec_age r) (cmd_comparison c) (int_value c))))
      | _ \<Rightarrow> None)"

definition rows_result :: "bool \<Rightarrow> RecordArray \<Rightarrow> SQLResult option" where
  "rows_result ok ra =
     (let r = (sql_make_result SQL_STATUS_ERROR SQL_ACTION_NONE)\<lparr>sr_records := ra_cells ra, sr_row_count := ra_count ra\<rparr>
      in if \<not> ok then Some r
         else do { first \<leftarrow> (if ra_count ra > 0 then do { p \<leftarrow> rd_init (ra_cells ra) 0; Some (Some p) } else Some None);
                   Some (r\<lparr>sr_record := first, sr_status := (if ra_count ra = 0 then SQL_STATUS_NOT_FOUND else SQL_STATUS_OK),
                           sr_action := SQL_ACTION_SELECT_ROWS\<rparr>) })"

definition plan_result :: "SQLCommand \<Rightarrow> call_result \<Rightarrow> (nat \<rightharpoonup> Record) \<Rightarrow> env \<Rightarrow> (SQLResult \<times> env) option" where
  "plan_result c res h e =
     (case res of
        Res_Record r \<Rightarrow>
          if cmd_type c = SQL_COMMAND_INSERT
          then (case r of None \<Rightarrow> Some (sql_make_result SQL_STATUS_ERROR SQL_ACTION_NONE, e)
                | Some p \<Rightarrow> do { u \<leftarrow> h p;
                                 Some ((sql_make_result SQL_STATUS_ERROR SQL_ACTION_NONE)\<lparr>sr_status := SQL_STATUS_OK,
                                   sr_action := SQL_ACTION_INSERT, sr_record := Some p, sr_inserted_id := rec_id u, sr_row_count := 1\<rparr>, e) })
          else (case r of None \<Rightarrow> do { x \<leftarrow> rows_result True empty_array; Some (x, e) }
                | Some p \<Rightarrow> do { (ok, ra, e') \<leftarrow> table_append_record empty_array p e; x \<leftarrow> rows_result ok ra; Some (x, e') })
      | Res_Rows ok ra \<Rightarrow> do { x \<leftarrow> rows_result ok ra; Some (x, e) })"

section \<open>The pieces of the handler\<close>

text \<open>The command and the table call of a request; \<open>None\<close> for a request that is answered without the table.\<close>

definition request_op :: "recv_event list \<Rightarrow> (SQLCommand \<times> table_op) option" where
  "request_op es =
     (case fst (http_read_request es) of
        Inl _ \<Rightarrow> None
      | Inr request \<Rightarrow>
          let pr = sql_parse (Some (takeWhile (\<lambda>c. c \<noteq> NUL) (rq_body request)))
          in if parsed pr \<and> cmd_type (command pr) \<noteq> SQL_COMMAND_EXIT
             then do { op \<leftarrow> plan_op (command pr); Some (command pr, op) } else None)"

definition finish_query :: "SQLCommand \<Rightarrow> call_result \<Rightarrow> (nat \<rightharpoonup> Record) \<Rightarrow> send_event list \<Rightarrow> env \<Rightarrow> (string \<times> env) option" where
  "finish_query c res h ss e =
     do { (r, e1) \<leftarrow> plan_result c res h e;
          (ok, api_result, e2) \<leftarrow>
            (if sr_status r = SQL_STATUS_OK \<or> sr_status r = SQL_STATUS_NOT_FOUND
             then api_finish (api_build_success_response h r) 200 e1
             else if sr_status r = SQL_STATUS_ERROR then api_finish (\<lambda>b. json_buffer_append b (Some internal_error_body)) 500 e1
             else api_finish (api_build_error_response r) 200 e1);
          if \<not> ok then send_error_body 500 ''internal_error'' ''Failed to execute SQL'' ss e2
          else (case api_body api_result of
                  None \<Rightarrow> case http_send_response (http_status api_result) (Some json_content_type) None ss of (ok, sent, ss') \<Rightarrow> Some (sent, e2)
                | Some cells \<Rightarrow>
                    do { s \<leftarrow> c_string cells;
                         case http_send_response (http_status api_result) (Some json_content_type) (Some s) ss of
                           (ok, sent, ss') \<Rightarrow> Some (sent, e2) }) }"

section \<open>The pieces make the handler\<close>

lemma table_stays:
  "table_insert (Some t) name age e = Some (r, tbl, e') \<Longrightarrow> tbl \<noteq> None"
  "table_find_by_id (Some t) key e = Some (r, tbl, e') \<Longrightarrow> tbl \<noteq> None"
  "table_collect_all (Some t) e = Some (ok, ra, tbl, e') \<Longrightarrow> tbl \<noteq> None"
  "collect_filtered t f e = Some (ok, ra, tbl, e') \<Longrightarrow> tbl \<noteq> None"
  by (auto simp: table_insert_def table_find_by_id_def table_collect_all_def table_collect_all_sorted_def collect_filtered_def Let_def
      split: bind_splits option.splits if_splits) (metis option.distinct(1))+

lemma alone_work:
  "run_alone (work (start_pc (Op_Insert name age))) t (start_pc (Op_Insert name age)) e =
     do { (r, tbl, e') \<leftarrow> table_insert (Some t) (Some name) age e; t' \<leftarrow> tbl; Some (Res_Record r, t', e') }"
  "run_alone (work (start_pc (Op_Find key))) t (start_pc (Op_Find key)) e =
     do { (r, tbl, e') \<leftarrow> table_find_by_id (Some t) key e; t' \<leftarrow> tbl; Some (Res_Record r, t', e') }"
  "run_alone (work (start_pc (Op_Collect test))) t (start_pc (Op_Collect test)) e =
     do { (ok, ra, tbl, e') \<leftarrow> query_of test t e; t' \<leftarrow> tbl; Some (Res_Rows ok ra, t', e') }"
  using insert_alone [of t name age e] find_alone [of t key e] collect_alone [of t test e] by simp_all

lemma select_split:
  assumes "cmd_type c \<noteq> SQL_COMMAND_INSERT" and "plan_op c = Some op"
  shows "sql_execute_select_plan (Some t) (Some c) e =
    do { (res, t', e1) \<leftarrow> run_alone (work (start_pc op)) t (start_pc op) e;
         (r, e2) \<leftarrow> plan_result c res (rec_heap t') e1;
         Some (r, Some t', e2) }"
proof -
  have rows: "sql_execute_select_plan (Some t) (Some c) e =
      do { (ok, ra, tbl, e') \<leftarrow> query; x \<leftarrow> rows_result ok ra; Some (x, tbl, e') }" if "select_rows (Some t) c e = Some query" for query
    using that by (cases query) (auto simp: sql_execute_select_plan_def rows_result_def Let_def split: bind_splits)
  show ?thesis
  proof (cases op)
    case (Op_Insert name age)
    then show ?thesis using assms by (auto simp: plan_op_def split: SQLCommandType.splits if_splits)
  next
    case (Op_Find key)
    then have c: "cmd_type c = SQL_COMMAND_SELECT_BY_ID" "cmd_comparison c = TABLE_COMPARISON_EQ" "key = int_value c"
      using assms(2) by (auto simp: plan_op_def split: SQLCommandType.splits if_splits)
    have x: "sql_execute_select_plan (Some t) (Some c) e =
        do { (ok, ra, tbl, e') \<leftarrow> table_find_by_id_condition (Some t) TABLE_COMPARISON_EQ (int_value c) e;
             x \<leftarrow> rows_result ok ra; Some (x, tbl, e') }"
      by (rule rows) (simp add: select_rows_def c)
    show ?thesis
    proof (cases "table_find_by_id (Some t) (int_value c) e")
      case None
      then show ?thesis unfolding Op_Find alone_work x by (simp add: table_find_by_id_condition_def c(3))
    next
      case (Some y)
      then obtain r t' e1 where f: "table_find_by_id (Some t) (int_value c) e = Some (r, Some t', e1)"
        using table_stays(2) by (cases y) fastforce
      then show ?thesis unfolding Op_Find alone_work x using assms(1)
        by (cases r; cases "table_append_record empty_array (the r) e1")
          (auto simp: table_find_by_id_condition_def c(3) plan_result_def split: bind_splits)
    qed
  next
    case (Op_Collect test)
    have q: "select_rows (Some t) c e = Some (query_of test t e)"
      using assms(2) Op_Collect
      by (auto simp: plan_op_def select_rows_def table_find_by_id_condition_def table_find_by_name_matches_def table_find_by_age_condition_def
          split: SQLCommandType.splits if_splits)
    show ?thesis
    proof (cases "query_of test t e")
      case None
      then show ?thesis unfolding Op_Collect alone_work rows [OF q] by simp
    next
      case (Some y)
      then obtain ok ra t' e1 where "query_of test t e = Some (ok, ra, Some t', e1)"
        using table_stays(3,4) by (cases y; cases test) fastforce+
      then show ?thesis unfolding Op_Collect alone_work rows [OF q] by (auto simp: plan_result_def split: bind_splits)
    qed
  qed
qed

lemma plan_split:
  assumes "plan_op c = Some op"
  shows "sql_execute_plan (Some t) (Some c) e =
    do { (res, t', e1) \<leftarrow> run_alone (work (start_pc op)) t (start_pc op) e;
         (r, e2) \<leftarrow> plan_result c res (rec_heap t') e1;
         Some (r, Some t', e2) }"
proof (cases "cmd_type c = SQL_COMMAND_INSERT")
  case False
  have "sql_execute_plan (Some t) (Some c) e = sql_execute_select_plan (Some t) (Some c) e"
    using False assms by (cases "cmd_type c") (simp_all add: sql_execute_plan_def plan_op_def)
  then show ?thesis using select_split [OF False assms] by simp
next
  case True
  then have op: "op = Op_Insert (cmd_name c) (int_value c)" using assms by (simp add: plan_op_def)
  have p: "sql_execute_plan (Some t) (Some c) e = sql_execute_insert_plan (Some t) (Some c) e" using True by (simp add: sql_execute_plan_def)
  show ?thesis
  proof (cases "table_insert (Some t) (Some (cmd_name c)) (int_value c) e")
    case None
    then show ?thesis unfolding p op alone_work using True by (simp add: sql_execute_insert_plan_def Let_def)
  next
    case (Some y)
    then obtain r t' e1 where "table_insert (Some t) (Some (cmd_name c)) (int_value c) e = Some (r, Some t', e1)"
      using table_stays(1) by (cases y) fastforce
    then show ?thesis unfolding p op alone_work using True
      by (cases r) (auto simp: sql_execute_insert_plan_def plan_result_def Let_def split: bind_splits)
  qed
qed

text \<open>How a result is answered.\<close>

abbreviation plan_answer :: "(nat \<rightharpoonup> Record) \<Rightarrow> SQLResult \<Rightarrow> env \<Rightarrow> (bool \<times> ApiResult \<times> env) option" where
  "plan_answer h r e \<equiv>
     (if sr_status r = SQL_STATUS_OK \<or> sr_status r = SQL_STATUS_NOT_FOUND
      then api_finish (api_build_success_response h r) 200 e
      else if sr_status r = SQL_STATUS_ERROR then api_finish (\<lambda>b. json_buffer_append b (Some internal_error_body)) 500 e
      else api_finish (api_build_error_response r) 200 e)"

abbreviation send_answer :: "bool \<Rightarrow> ApiResult \<Rightarrow> send_event list \<Rightarrow> env \<Rightarrow> (string \<times> env) option" where
  "send_answer ok api_result ss e \<equiv>
     (if \<not> ok then send_error_body 500 ''internal_error'' ''Failed to execute SQL'' ss e
      else (case api_body api_result of
              None \<Rightarrow> case http_send_response (http_status api_result) (Some json_content_type) None ss of (ok, sent, ss') \<Rightarrow> Some (sent, e)
            | Some cells \<Rightarrow>
                do { s \<leftarrow> c_string cells;
                     case http_send_response (http_status api_result) (Some json_content_type) (Some s) ss of
                       (ok, sent, ss') \<Rightarrow> Some (sent, e) }))"

lemma finish_query_pieces:
  "finish_query c res h ss e =
     do { (r, e1) \<leftarrow> plan_result c res h e; (ok, api_result, e2) \<leftarrow> plan_answer h r e1; send_answer ok api_result ss e2 }"
  by (simp add: finish_query_def)

lemma handler_accepted:
  assumes "fst (http_read_request es) = Inr rq" and "parsed (sql_parse (Some (takeWhile (\<lambda>c. c \<noteq> NUL) (rq_body rq))))"
    and "command (sql_parse (Some (takeWhile (\<lambda>c. c \<noteq> NUL) (rq_body rq)))) = c" and "cmd_type c \<noteq> SQL_COMMAND_EXIT"
    and plan: "sql_execute_plan (Some t) (Some c) e = Some (r, Some t', e1)"
  shows "server_handle_client t es ss e =
    do { (ok, api_result, e2) \<leftarrow> plan_answer (rec_heap t') r e1; (sent, e3) \<leftarrow> send_answer ok api_result ss e2; Some (Some t', sent, e3) }"
proof -
  let ?s = "takeWhile (\<lambda>c. c \<noteq> NUL) (rq_body rq)"
  have q: "api_handle_query (Some t) (Some ?s) (Some r0) e =
      do { (ok, res, e') \<leftarrow> plan_answer (rec_heap t') r e1; Some (ok, Some res, Some t', e') }" for r0
    unfolding api_handle_query_def Let_def using assms(2-5) by (simp split del: if_split)
  show ?thesis
  proof (cases "plan_answer (rec_heap t') r e1")
    case None
    then show ?thesis unfolding server_handle_client_def assms(1) sum.case q by simp
  next
    case (Some y)
    then obtain ok res e2 where y: "plan_answer (rec_heap t') r e1 = Some (ok, res, e2)" by (cases y) auto
    have q': "api_handle_query (Some t) (Some ?s) (Some r0) e = Some (ok, Some res, Some t', e2)" for r0 unfolding q y by simp
    show ?thesis unfolding server_handle_client_def assms(1) sum.case q' y
      by (auto split: option.splits prod.splits bind_splits)
  qed
qed

lemma handler_split:
  assumes "request_op es = Some (c, op)"
  shows "server_handle_client t es ss e =
    do { (res, t', e1) \<leftarrow> run_alone (work (start_pc op)) t (start_pc op) e;
         (sent, e2) \<leftarrow> finish_query c res (rec_heap t') ss e1;
         Some (Some t', sent, e2) }"
proof -
  obtain rq where rq: "fst (http_read_request es) = Inr rq"
    "parsed (sql_parse (Some (takeWhile (\<lambda>c. c \<noteq> NUL) (rq_body rq))))"
    "command (sql_parse (Some (takeWhile (\<lambda>c. c \<noteq> NUL) (rq_body rq)))) = c" "cmd_type c \<noteq> SQL_COMMAND_EXIT" "plan_op c = Some op"
    using assms by (auto simp: request_op_def Let_def split: sum.splits bind_splits if_splits)
  let ?s = "takeWhile (\<lambda>c. c \<noteq> NUL) (rq_body rq)"
  show ?thesis
  proof (cases "run_alone (work (start_pc op)) t (start_pc op) e")
    case None
    then have "sql_execute_plan (Some t) (Some c) e = None" using plan_split [OF rq(5), of t e] by simp
    then have "api_handle_query (Some t) (Some ?s) (Some r0) e = None" for r0
      unfolding api_handle_query_def Let_def using rq(2-4) by simp
    then show ?thesis unfolding server_handle_client_def rq(1) sum.case None by simp
  next
    case (Some y)
    then obtain res t' e1 where y: "run_alone (work (start_pc op)) t (start_pc op) e = Some (res, t', e1)" by (cases y) auto
    show ?thesis
    proof (cases "plan_result c res (rec_heap t') e1")
      case None
      then have "sql_execute_plan (Some t) (Some c) e = None" using plan_split [OF rq(5), of t e] y by simp
      then have "api_handle_query (Some t) (Some ?s) (Some r0) e = None" for r0
        unfolding api_handle_query_def Let_def using rq(2-4) by simp
      then show ?thesis unfolding server_handle_client_def rq(1) sum.case y using None by (simp add: finish_query_pieces)
    next
      case (Some z)
      then obtain r e2 where z: "plan_result c res (rec_heap t') e1 = Some (r, e2)" by (cases z) auto
      have "sql_execute_plan (Some t) (Some c) e = Some (r, Some t', e2)" using plan_split [OF rq(5), of t e] y z by simp
      note h = handler_accepted [OF rq(1-4) this, of ss]
      have f: "finish_query c res (rec_heap t') ss e1 =
          do { (ok, api_result, e3) \<leftarrow> plan_answer (rec_heap t') r e2; send_answer ok api_result ss e3 }"
        unfolding finish_query_pieces z by (simp only: bind.bind_lunit prod.case)
      have rhs: "do { (res, t', e1) \<leftarrow> run_alone (work (start_pc op)) t (start_pc op) e;
            (sent, e2) \<leftarrow> finish_query c res (rec_heap t') ss e1;
            Some (Some t', sent, e2) } =
          do { (sent, e3) \<leftarrow> finish_query c res (rec_heap t') ss e1; Some (Some t', sent, e3) }"
        unfolding y by (simp only: bind.bind_lunit prod.case)
      show ?thesis
      proof (cases "plan_answer (rec_heap t') r e2")
        case None
        then show ?thesis unfolding h rhs f by (simp only: None bind.bind_lzero)
      next
        case (Some x)
        then show ?thesis unfolding h rhs f by (cases x) (simp only: Some bind.bind_lunit prod.case)
      qed
    qed
  qed
qed

end
