(* ===== verification/Handler_Answers.thy ===== *)
theory Handler_Answers
  imports Server_Handler
begin

text \<open>
  What the handler makes of the result of a table call among others: a response that carries the
  answer to the statement, and under any failure some response that is not undefined.
\<close>

section \<open>Answers among concurrent calls\<close>

text \<open>\<open>log\<close> is the history of the insertions and \<open>since\<close> its length when the call began.\<close>

fun op_answer :: "table_op \<Rightarrow> nat \<Rightarrow> Record list \<Rightarrow> answer \<Rightarrow> bool" where
  "op_answer (Op_Insert name age) since log (Inserted u) \<longleftrightarrow> u \<in> set (drop since log) \<and> u = inserted_record (rec_id u) name age"
| "op_answer (Op_Find key) since log (Rows vs) \<longleftrightarrow>
     (\<exists>k. since \<le> k \<and> k \<le> length log \<and> vs = (case user_with_id (take k log) key of None \<Rightarrow> [] | Some u \<Rightarrow> [u]))"
| "op_answer (Op_Collect test) since log (Rows vs) \<longleftrightarrow>
     (\<exists>ks. cuts since log 16 ks \<and> vs = filter_by test (sort_key rec_id (bucket_parts ks log)))"
| "op_answer _ since log _ \<longleftrightarrow> False"

lemma op_answer_mono: "op_answer op since log a \<Longrightarrow> op_answer op since (log @ zs) a"
proof (cases "(op, since, log, a)" rule: op_answer.cases)
  case (2 key since' log' vs)
  then show "op_answer op since log a \<Longrightarrow> ?thesis" by (elim Pair_inject) (simp, elim exE conjE, rule exI, intro conjI, assumption, simp_all)
next
  case (3 test since' log' vs)
  then show "op_answer op since log a \<Longrightarrow> ?thesis" using cuts_append bucket_parts_append by auto metis
qed auto

text \<open>Even a call that met failures answers with users of the history.\<close>

fun answer_within :: "Record list \<Rightarrow> answer \<Rightarrow> bool" where
  "answer_within log (Inserted u) \<longleftrightarrow> u \<in> set log"
| "answer_within log (Rows vs) \<longleftrightarrow> set vs \<subseteq> set log \<and> length vs \<le> 16 * length log"
| "answer_within log Bye \<longleftrightarrow> False"

lemma bucket_parts_within: "set (bucket_parts ks log) \<subseteq> set log" "length (bucket_parts ks log) \<le> length ks * length log"
proof -
  show "set (bucket_parts ks log) \<subseteq> set log" by (auto simp: bucket_parts_def dest: in_set_takeD)
  have "length (filter (in_bucket j) (take (ks ! j) log)) \<le> length log" for j
    by (rule order_trans [OF length_filter_le]) simp
  then show "length (bucket_parts ks log) \<le> length ks * length log"
    using sum_list_mono [of "[0..<length ks]" "\<lambda>j. length (filter (in_bucket j) (take (ks ! j) log))" "\<lambda>_. length log"]
    by (simp add: bucket_parts_def length_concat o_def sum_list_triv)
qed

lemma filter_by_within: "set (filter_by test us) \<subseteq> set us" "length (filter_by test us) \<le> length us"
  by (auto simp: filter_by_def split: option.splits)

lemma op_answer_within: "op_answer op since log a \<Longrightarrow> answer_within log a"
proof (cases "(op, since, log, a)" rule: op_answer.cases)
  case (2 key since' log' vs)
  show "op_answer op since log a \<Longrightarrow> ?thesis"
  proof -
    assume "op_answer op since log a"
    then obtain k where k: "k \<le> length log" "vs = (case user_with_id (take k log) key of None \<Rightarrow> [] | Some u \<Rightarrow> [u])" using 2 by auto
    show ?thesis
    proof (cases "user_with_id (take k log) key")
      case (Some u)
      then have "u \<in> set (take k log)" unfolding user_with_id_def find_Some_iff by (metis nth_mem)
      then have "u \<in> set log" by (rule in_set_takeD)
      then show ?thesis using k(2) 2 Some by (cases log) auto
    qed (use k(2) 2 in simp)
  qed
next
  case (3 test since' log' vs)
  show "op_answer op since log a \<Longrightarrow> ?thesis"
  proof -
    assume "op_answer op since log a"
    then obtain ks where "length ks = 16" "vs = filter_by test (sort_key rec_id (bucket_parts ks log))" using 3 by (auto simp: cuts_def)
    then show ?thesis using filter_by_within [of test "sort_key rec_id (bucket_parts ks log)"] bucket_parts_within [of ks log] 3 by auto
  qed
qed (auto dest: in_set_dropD)

section \<open>The result of a plan\<close>

lemma rows_result_ok:
  assumes "array_view ra ps" and "denotes (rec_heap t) ps vs"
  shows "\<exists>r. rows_result True ra = Some r \<and> answers t r (Rows vs)"
proof -
  let ?r = "(sql_make_result SQL_STATUS_ERROR SQL_ACTION_NONE)\<lparr>sr_records := ra_cells ra, sr_row_count := ra_count ra,
    sr_record := head_option ps, sr_status := (if ra_count ra = 0 then SQL_STATUS_NOT_FOUND else SQL_STATUS_OK), sr_action := SQL_ACTION_SELECT_ROWS\<rparr>"
  have len: "ra_count ra = length vs" "length ps = length vs" using assms by (simp_all add: array_view_def denotes_length)
  have q: "query_result t vs True (result_array ?r)" using assms by (auto simp: query_result_def result_array_def array_view_def)
  have "rows_result True ra = Some ?r \<and> points_to (rec_heap t) (head_option ps) (head_option vs)"
  proof (cases ps)
    case Nil
    then show ?thesis using len by (simp add: rows_result_def head_option_def points_to_def Let_def sql_make_result_def)
  next
    case (Cons p ps')
    then obtain v vs' where vs: "vs = v # vs'" using len(2) by (cases vs) auto
    have "0 < length (ra_cells ra)" "ra_cells ra ! 0 = Some p" using assms(1) Cons unfolding array_view_def by (cases "ra_cells ra"; simp)+
    moreover have "rec_heap t p = Some v" using assms(2) Cons vs by (simp add: denotes_def)
    ultimately show ?thesis using len Cons vs
      by (simp add: rows_result_def head_option_def points_to_def array_simps Let_def sql_make_result_def)
  qed
  then show ?thesis using q len by (intro exI [of _ ?r]) (simp add: sql_make_result_def)
qed

lemma rows_result_failed: "\<exists>r. rows_result False ra = Some r \<and> sr_status r = SQL_STATUS_ERROR"
  by (simp add: rows_result_def Let_def sql_make_result_def)

lemma plan_op_insert: "plan_op c = Some op \<Longrightarrow> cmd_type c = SQL_COMMAND_INSERT \<longleftrightarrow> (\<exists>name age. op = Op_Insert name age)"
  by (auto simp: plan_op_def split: SQLCommandType.splits if_splits)

lemma plan_result_ok:
  assumes plan: "plan_op c = Some op" and known: "result_ok op since log (rec_heap t) res"
  shows "\<exists>r e'. plan_result c res (rec_heap t) e = Some (r, e') \<and> (all_succeed e \<longrightarrow> all_succeed e') \<and>
    (sr_status r = SQL_STATUS_ERROR \<and> \<not> (all_succeed e \<and> succeeded op since log (rec_heap t) (Returned res)) \<or>
     (\<exists>a. answers t r a \<and> answer_within log a \<and> (succeeded op since log (rec_heap t) (Returned res) \<longrightarrow> op_answer op since log a)))"
proof -
  let ?err = "sql_make_result SQL_STATUS_ERROR SQL_ACTION_NONE"
  consider (insert) name age x where "op = Op_Insert name age" "res = Res_Record x"
    | (find) key x where "op = Op_Find key" "res = Res_Record x" | (collect) test ok ra where "op = Op_Collect test" "res = Res_Rows ok ra"
    using known by (cases op; cases res) auto
  then show ?thesis
  proof cases
    case insert
    then have ty: "cmd_type c = SQL_COMMAND_INSERT" using plan_op_insert [OF plan] by simp
    show ?thesis
    proof (cases x)
      case None
      then show ?thesis using insert ty by (simp add: plan_result_def sql_make_result_def)
    next
      case (Some p)
      then obtain k where "stored since log (rec_heap t) k name age p" using known insert by auto
      then have u: "inserted_record k name age \<in> set (drop since log)" "rec_heap t p = Some (inserted_record k name age)"
        by (simp_all add: stored_def)
      let ?u = "inserted_record k name age"
      let ?r = "?err\<lparr>sr_status := SQL_STATUS_OK, sr_action := SQL_ACTION_INSERT, sr_record := Some p, sr_inserted_id := rec_id ?u, sr_row_count := 1\<rparr>"
      have "plan_result c res (rec_heap t) e = Some (?r, e)" using insert ty Some u(2) by (simp add: plan_result_def)
      moreover have "answers t ?r (Inserted ?u)" using u(2) by (simp add: points_to_def)
      moreover have "op_answer op since log (Inserted ?u)" using u(1) insert(1) by (simp add: inserted_record_def)
      ultimately show ?thesis using op_answer_within by blast
    qed
  next
    case find
    then have ty: "cmd_type c \<noteq> SQL_COMMAND_INSERT" using plan_op_insert [OF plan] by simp
    show ?thesis
    proof (cases x)
      case None
      obtain r where r: "rows_result True empty_array = Some r" "answers t r (Rows [])"
        using rows_result_ok [of empty_array "[]" t "[]"] by (auto simp: denotes_def)
      have "op_answer op since log (Rows [])" if "found since log (rec_heap t) key None"
        using that find(1) by (auto simp: found_def points_to_def user_with_id_def)
      then show ?thesis using find None ty r
        by (intro exI [of _ r] exI [of _ e] conjI disjI2 exI [of _ "Rows []"]) (simp_all add: plan_result_def)
    next
      case (Some p)
      then obtain k where k: "since \<le> k" "k \<le> length log" "points_to (rec_heap t) (Some p) (user_with_id (take k log) key)"
        using known find by (auto simp: found_def user_with_id_def)
      then obtain u where u: "rec_heap t p = Some u" "user_with_id (take k log) key = Some u" by (auto simp: points_to_def)
      have a: "op_answer op since log (Rows [u])" using k u find(1) by (auto intro!: exI [of _ k])
      obtain ok ra e' where app: "table_append_record empty_array p e = Some (ok, ra, e')" "array_view ra (if ok then [] @ [p] else [])"
        "all_succeed e \<longrightarrow> ok \<and> all_succeed e'" using ra.gr_step [OF array_view_empty, of p e] by blast
      show ?thesis
      proof (cases ok)
        case True
        then obtain r where r: "rows_result True ra = Some r" "answers t r (Rows [u])"
          using rows_result_ok [of ra "[p]" t "[u]"] app(2) u(1) by (auto simp: denotes_def)
        then show ?thesis using find Some ty app True a op_answer_within [OF a]
          by (intro exI [of _ r] exI [of _ e'] conjI disjI2 exI [of _ "Rows [u]"]) (simp_all add: plan_result_def)
      next
        case False
        then show ?thesis using rows_result_failed [of ra] find Some ty app by (auto simp: plan_result_def)
      qed
    qed
  next
    case collect
    show ?thesis
    proof (cases ok)
      case True
      then obtain ps ks where p: "array_view ra ps" "cuts since log 16 ks"
        "denotes (rec_heap t) ps (filter_by test (sort_key rec_id (bucket_parts ks log)))" using known collect by (auto simp: rows_answer_def)
      then have a: "op_answer op since log (Rows (filter_by test (sort_key rec_id (bucket_parts ks log))))" using collect by auto
      from rows_result_ok [OF p(1,3)] obtain r where
        r: "rows_result True ra = Some r" "answers t r (Rows (filter_by test (sort_key rec_id (bucket_parts ks log))))" by blast
      have "plan_result c res (rec_heap t) e = Some (r, e)" using collect True r(1) by (simp add: plan_result_def)
      then show ?thesis using a op_answer_within [OF a] r(2) by blast
    next
      case False
      then show ?thesis using rows_result_failed [of ra] collect by (auto simp: plan_result_def)
    qed
  qed
qed

section \<open>The response\<close>

definition fitting_log :: "Record list \<Rightarrow> bool" where
  "fitting_log log \<longleftrightarrow> length log < 2 ^ 31 \<and> (\<forall>u \<in> set log. user_fits u)"

lemma answer_within_writer:
  assumes "answers t r a" and "answer_within log a" and "fitting_log log"
  shows "json_writer (api_build_success_response (rec_heap t) r) (answer_json a)" and "length (answer_json a) < TEXT_LIMIT"
    and "sr_status r = SQL_STATUS_OK \<or> sr_status r = SQL_STATUS_NOT_FOUND"
proof -
  have "json_writer (api_build_success_response (rec_heap t) r) (answer_json a) \<and> length (answer_json a) < TEXT_LIMIT \<and>
    (sr_status r = SQL_STATUS_OK \<or> sr_status r = SQL_STATUS_NOT_FOUND)"
  proof (cases a)
    case (Inserted u)
    then have u: "user_fits u" using assms(2,3) by (simp add: fitting_log_def)
    then have "length (show_int (rec_id u)) \<le> 11" using show_int_length by (simp add: user_fits_def)
    then have "length (answer_json a) < TEXT_LIMIT" using Inserted by (simp add: TEXT_LIMIT_def)
    then show ?thesis using insert_response_writer [OF assms(1) [unfolded Inserted] u] assms(1) Inserted by simp
  next
    case (Rows vs)
    then have vs: "\<forall>u \<in> set vs. user_fits u" "length vs < 2 ^ 35" using assms(2,3) by (auto simp: fitting_log_def)
    then have "length (rows_json vs) \<le> 501 * 2 ^ 35" using rows_json_length [OF vs(1)] by linarith
    moreover have "length (show_nat (length vs)) \<le> 20" using show_nat_length [of "length vs" 19] vs(2) by simp
    ultimately have "length (answer_json a) < TEXT_LIMIT" using Rows by (simp add: TEXT_LIMIT_def)
    moreover have "json_writer (api_build_success_response (rec_heap t) r) (answer_json a)"
      using rows_response_writer [of t r vs] assms(1) Rows vs by simp
    ultimately show ?thesis using assms(1) Rows by (simp split: if_splits)
  next
    case Bye
    then show ?thesis using assms(2) by simp
  qed
  then show "json_writer (api_build_success_response (rec_heap t) r) (answer_json a)" "length (answer_json a) < TEXT_LIMIT"
    "sr_status r = SQL_STATUS_OK \<or> sr_status r = SQL_STATUS_NOT_FOUND" by simp_all
qed

text \<open>A response built and sent.\<close>

lemma answer_sent:
  assumes "json_writer build s" and "length s < TEXT_LIMIT" and "NUL \<notin> set s" and "number_ok st"
  shows "\<exists>sent e'. do { (ok, res, e1) \<leftarrow> api_finish build st e; send_answer ok res ss e1 } = Some (sent, e') \<and>
    (all_succeed e \<longrightarrow> response_sent st s (sendable ss) sent)"
proof -
  obtain ok res e1 where f: "api_finish build st e = Some (ok, res, e1)"
    "if ok then http_status res = st \<and> (\<exists>cells. api_body res = Some cells \<and> c_string cells = Some s)
     else api_body res = None \<and> http_status res \<in> {st, 500}" "all_succeed e \<longrightarrow> ok \<and> all_succeed e1"
    using api_finish_ok [OF assms(1-3)] by blast
  show ?thesis
  proof (cases ok)
    case False
    have "\<exists>sent e'. send_error_body 500 ''internal_error'' ''Failed to execute SQL'' ss e1 = Some (sent, e') \<and>
        response_sent 500 (error_body ''internal_error'' ''Failed to execute SQL'') (all_succeed e1 \<and> sendable ss) sent \<and> (all_succeed e1 \<longrightarrow> all_succeed e')"
      by (rule send_error_cases) (simp_all add: number_ok_def INT_MIN_def INT_MAX_def)
    then show ?thesis using f False by auto
  next
    case True
    then obtain cells where c: "http_status res = st" "api_body res = Some cells" "c_string cells = Some s" using f(2) by auto
    obtain ok' sent ss' where send: "http_send_response st (Some json_content_type) (Some s) ss = (ok', sent, ss')"
      by (cases "http_send_response st (Some json_content_type) (Some s) ss") auto
    have "response_sent st s (sendable ss) sent"
      using http_send_sent [OF send] send_json [OF _ assms(4,2), of ss] send by (auto simp: response_sent_def)
    then show ?thesis using f(1) True c send by simp
  qed
qed

lemma number_ok_status: "number_ok 200" "number_ok 400" "number_ok 500"
  by (simp_all add: number_ok_def INT_MIN_def INT_MAX_def)

lemma finish_query_ok:
  fixes t :: Table
  assumes "plan_op c = Some op" and "result_ok op since log (rec_heap t) res" and "fitting_log log"
  shows "\<exists>sent e'. finish_query c res (rec_heap t) ss e = Some (sent, e') \<and>
    (all_succeed e \<and> succeeded op since log (rec_heap t) (Returned res) \<longrightarrow>
      (\<exists>a. op_answer op since log a \<and> response_sent 200 (answer_json a) (sendable ss) sent))"
proof -
  let ?good = "succeeded op since log (rec_heap t) (Returned res)"
  obtain r e1 where p: "plan_result c res (rec_heap t) e = Some (r, e1)" "all_succeed e \<longrightarrow> all_succeed e1"
    "sr_status r = SQL_STATUS_ERROR \<and> \<not> (all_succeed e \<and> ?good) \<or>
      (\<exists>a. answers t r a \<and> answer_within log a \<and> (?good \<longrightarrow> op_answer op since log a))"
    using plan_result_ok [OF assms(1,2), of e] by blast
  have f: "finish_query c res (rec_heap t) ss e = do { (ok, res, e2) \<leftarrow> plan_answer (rec_heap t) r e1; send_answer ok res ss e2 }"
    unfolding finish_query_pieces p(1) by (simp only: bind.bind_lunit prod.case)
  from p(3) show ?thesis
  proof
    assume err: "sr_status r = SQL_STATUS_ERROR \<and> \<not> (all_succeed e \<and> ?good)"
    have pa: "plan_answer (rec_heap t) r e1 = api_finish (\<lambda>b. json_buffer_append b (Some internal_error_body)) 500 e1" using err by simp
    have "length internal_error_body < TEXT_LIMIT" "NUL \<notin> set internal_error_body" by (simp_all add: internal_error_body_def TEXT_LIMIT_def)
    from answer_sent [OF ap.json_writer_axioms this number_ok_status(3), where ss = ss and e = e1] show ?thesis unfolding f pa using err by blast
  next
    assume "\<exists>a. answers t r a \<and> answer_within log a \<and> (?good \<longrightarrow> op_answer op since log a)"
    then obtain a where a: "answers t r a" "answer_within log a" "?good \<longrightarrow> op_answer op since log a" by blast
    note w = answer_within_writer [OF a(1,2) assms(3)]
    have pa: "plan_answer (rec_heap t) r e1 = api_finish (api_build_success_response (rec_heap t) r) 200 e1" using w(3) by simp
    from answer_sent [OF w(1,2) answer_json_no_NUL number_ok_status(1), where ss = ss and e = e1] show ?thesis unfolding f pa using a(3) p(2) by blast
  qed
qed

text \<open>A request that does not call the table is answered alike whatever the table is.\<close>

lemma handler_sends:
  assumes "fst (http_read_request es) = Inr rq"
    and "\<And>t r0. api_handle_query (Some t) (Some (takeWhile (\<lambda>c. c \<noteq> NUL) (rq_body rq))) (Some r0) e =
      do { (ok, res, e') \<leftarrow> fin; Some (ok, Some res, Some t, e') }"
    and "do { (ok, res, e1) \<leftarrow> fin; send_answer ok res ss e1 } = Some (sent, e')"
  shows "server_handle_client t es ss e = Some (Some t, sent, e')"
proof -
  obtain ok res e1 where y: "fin = Some (ok, res, e1)" using assms(3) by (cases fin) auto
  have s: "send_answer ok res ss e1 = Some (sent, e')" using assms(3) unfolding y by (simp only: bind.bind_lunit prod.case)
  have q: "api_handle_query (Some t) (Some (takeWhile (\<lambda>c. c \<noteq> NUL) (rq_body rq))) (Some r0) e = Some (ok, Some res, Some t, e1)" for r0
    unfolding assms(2) y by simp
  show ?thesis unfolding server_handle_client_def assms(1) sum.case q using s
    by (auto split: option.splits prod.splits bind_splits if_splits)
qed

lemma handler_local:
  assumes "request_op es = None"
  shows "\<exists>sent e'. \<forall>t. server_handle_client t es ss e = Some (Some t, sent, e')"
proof (cases "fst (http_read_request es)")
  case (Inl err)
  obtain st message where err: "err = (st, message)" by (cases err)
  obtain sent e' where "server_handle_client (table_upto 16) es ss e = Some (Some (table_upto 16), sent, e')"
    using client_error [of es st message "table_upto 16" ss e] Inl err by blast
  then show ?thesis using Inl err by (auto simp: server_handle_client_def Let_def split: bind_splits)
next
  case (Inr rq)
  let ?s = "takeWhile (\<lambda>c. c \<noteq> NUL) (rq_body rq)"
  let ?pr = "sql_parse (Some ?s)"
  have "\<exists>fin sent e'. (\<forall>t r0. api_handle_query (Some t) (Some ?s) (Some r0) e = do { (ok, res, e') \<leftarrow> fin; Some (ok, Some res, Some t, e') }) \<and>
      do { (ok, res, e1) \<leftarrow> fin; send_answer ok res ss e1 } = Some (sent, e')"
  proof (cases "parsed ?pr")
    case False
    then have "rejected ?pr" using sql_parse_outcome [of ?s] by (auto simp: Sql_Correct.accepted_def)
    note r = rejected_response [OF this]
    have "api_handle_query (Some t) (Some ?s) (Some r0) e =
        do { (ok, res, e') \<leftarrow> api_finish (api_build_error_response (rejection ?pr)) 200 e; Some (ok, Some res, Some t, e') }" for t r0
      using r(3,4) by (simp add: api_handle_query_def rejection_def Let_def)
    then show ?thesis using answer_sent [OF r(1,2) error_json_no_NUL number_ok_status(1), where ss = ss and e = e] by blast
  next
    case True
    then have "cmd_type (command ?pr) \<noteq> SQL_COMMAND_NONE" using sql_parse_outcome [of ?s] by (auto simp: Sql_Correct.accepted_def rejected_def)
    then have leave: "cmd_type (command ?pr) = SQL_COMMAND_EXIT"
      using assms Inr True by (cases "cmd_type (command ?pr)") (auto simp: request_op_def Let_def plan_op_def split: if_splits)
    have "api_handle_query (Some t) (Some ?s) (Some r0) e =
        do { (ok, res, e') \<leftarrow> api_finish (\<lambda>b. json_buffer_append b (Some exit_not_supported_body)) 400 e; Some (ok, Some res, Some t, e') }" for t r0
      using True leave by (simp add: api_handle_query_def Let_def)
    moreover have "length exit_not_supported_body < TEXT_LIMIT" by (simp add: exit_not_supported_body_def TEXT_LIMIT_def)
    ultimately show ?thesis
      using answer_sent [OF ap.json_writer_axioms _ answer_json_no_NUL [of Bye, simplified] number_ok_status(2), where ss = ss and e = e] by blast
  qed
  then obtain fin sent e' where f: "\<And>t r0. api_handle_query (Some t) (Some ?s) (Some r0) e =
      do { (ok, res, e') \<leftarrow> fin; Some (ok, Some res, Some t, e') }"
    "do { (ok, res, e1) \<leftarrow> fin; send_answer ok res ss e1 } = Some (sent, e')" by blast
  show ?thesis using handler_sends [OF Inr f] by blast
qed

text \<open>The operation of a request comes from an accepted statement.\<close>

fun op_fits :: "table_op \<Rightarrow> bool" where
  "op_fits (Op_Insert name age) \<longleftrightarrow> number_ok age"
| "op_fits _ \<longleftrightarrow> True"

lemma request_op_fits:
  assumes "request_op es = Some (c, op)"
  shows "plan_op c = Some op \<and> op_fits op"
proof -
  obtain rq where c: "fst (http_read_request es) = Inr rq" "parsed (sql_parse (Some (takeWhile (\<lambda>c. c \<noteq> NUL) (rq_body rq))))"
    "command (sql_parse (Some (takeWhile (\<lambda>c. c \<noteq> NUL) (rq_body rq)))) = c" "plan_op c = Some op"
    using assms by (auto simp: request_op_def Let_def split: sum.splits bind_splits if_splits)
  then have "INT_MIN \<le> int_value c \<and> int_value c \<le> INT_MAX"
    using sql_parse_outcome [of "takeWhile (\<lambda>c. c \<noteq> NUL) (rq_body rq)"] by (auto simp: Sql_Correct.accepted_def rejected_def)
  then show ?thesis using c(4) by (auto simp: plan_op_def number_ok_def split: SQLCommandType.splits if_splits)
qed

end
