(* ===== verification/Server_Threads.thy ===== *)
theory Server_Threads
  imports Handler_Answers Pool_Invariant
begin

text \<open>
  The running server (\<^verbatim>\<open>server/server.c\<close> with the pool, the handler and the table): the workers of the
  pool take descriptors and handle them at the same time. The state puts the pool and the calls of
  the table side by side; a step is a step of the pool that does not handle a descriptor, a step of
  one table call, or a piece of the handler: up to its call of the table, or behind it. What a
  client sends and receives is the parameter \<open>peer\<close>; \<open>envs\<close> are the outcomes of the library calls
  that are considered.
\<close>

section \<open>States\<close>

type_synonym connection = "recv_event list \<times> send_event list"

text \<open>The replies in the order in which they are sent: the descriptor, the table call, and the bytes.\<close>

record ServerState =
  st_pool :: PoolState
  st_calls :: CallState
  st_call_of :: "nat \<Rightarrow> nat option"   \<comment> \<open>the table call in which a worker is\<close>
  st_replies :: "(int \<times> nat option \<times> string) list"

text \<open>What \<open>server_create\<close> hands to the threads: the workers have been created. What they do while others are
  still being created they can also do afterwards (\<open>creation_completed\<close>).\<close>

definition server_threads :: "Server \<Rightarrow> ServerState option" where
  "server_threads server =
     do { t \<leftarrow> sv_table server;
          p \<leftarrow> sv_pool server;
          Some \<lparr>st_pool = created_state p,
                st_calls = \<lparr>cs_table = t, cs_calls = [], cs_ops = [], cs_since = [], cs_log = []\<rparr>,
                st_call_of = (\<lambda>_. None), st_replies = []\<rparr> }"

section \<open>Steps\<close>

text \<open>Worker \<open>i\<close> is in the handler with a descriptor; it returns from it.\<close>

definition handling :: "PoolState \<Rightarrow> nat \<Rightarrow> int \<Rightarrow> bool" where
  "handling p i fd \<longleftrightarrow> i < length (workers p) \<and> workers p ! i = W_Handle fd"

definition leave_handler :: "nat \<Rightarrow> int \<Rightarrow> PoolState \<Rightarrow> PoolState" where
  "leave_handler i fd p = (set_worker p i (W_Close fd))\<lparr>handled := handled p @ [fd]\<rparr>"

inductive server_step :: "env set \<Rightarrow> (int \<Rightarrow> connection) \<Rightarrow> ServerState \<Rightarrow> ServerState \<Rightarrow> bool" for envs peer where
  st_thread: "pool_step (st_pool s) p \<Longrightarrow> handled p = handled (st_pool s) \<Longrightarrow> server_step envs peer s (s\<lparr>st_pool := p\<rparr>)"
| st_begin: "handling (st_pool s) i fd \<Longrightarrow> st_call_of s i = None \<Longrightarrow> request_op (fst (peer fd)) = Some (c, op) \<Longrightarrow>
    server_step envs peer s (s\<lparr>st_calls := invoke op (st_calls s),
      st_call_of := (st_call_of s)(i := Some (length (cs_calls (st_calls s))))\<rparr>)"
| st_table: "k < length (cs_calls (st_calls s)) \<Longrightarrow> e \<in> envs \<Longrightarrow> harmless (cs_calls (st_calls s) ! k) e \<Longrightarrow>
    advance k e (st_calls s) = Some cs \<Longrightarrow> server_step envs peer s (s\<lparr>st_calls := cs\<rparr>)"
| st_reply: "handling (st_pool s) i fd \<Longrightarrow> st_call_of s i = Some k \<Longrightarrow> cs_calls (st_calls s) ! k = Returned res \<Longrightarrow>
    request_op (fst (peer fd)) = Some (c, op) \<Longrightarrow> e \<in> envs \<Longrightarrow>
    finish_query c res (rec_heap (cs_table (st_calls s))) (snd (peer fd)) e = Some (sent, e') \<Longrightarrow>
    server_step envs peer s (s\<lparr>st_pool := leave_handler i fd (st_pool s), st_call_of := (st_call_of s)(i := None),
      st_replies := st_replies s @ [(fd, Some k, sent)]\<rparr>)"
| st_local: "handling (st_pool s) i fd \<Longrightarrow> request_op (fst (peer fd)) = None \<Longrightarrow> e \<in> envs \<Longrightarrow>
    server_handle_client (cs_table (st_calls s)) (fst (peer fd)) (snd (peer fd)) e = Some (tbl, sent, e') \<Longrightarrow>
    server_step envs peer s (s\<lparr>st_pool := leave_handler i fd (st_pool s), st_replies := st_replies s @ [(fd, None, sent)]\<rparr>)"

inductive server_reach :: "env set \<Rightarrow> (int \<Rightarrow> connection) \<Rightarrow> ServerState \<Rightarrow> bool" for envs peer where
  srv_init: "server_create (Some cfg) e = Some (Some server, h, fds, e') \<Longrightarrow> server_threads server = Some s \<Longrightarrow> server_reach envs peer s"
| srv_step: "server_reach envs peer s \<Longrightarrow> server_step envs peer s s' \<Longrightarrow> server_reach envs peer s'"

section \<open>What a client gets\<close>

text \<open>The reply to a request that calls the table carries an answer to its operation; any other reply is
  that of the handler, which then does not look at the table.\<close>

definition reply_ok :: "(int \<Rightarrow> connection) \<Rightarrow> CallState \<Rightarrow> int \<times> nat option \<times> string \<Rightarrow> bool" where
  "reply_ok peer cs r \<longleftrightarrow>
     (case r of (fd, call, sent) \<Rightarrow>
        case call of
          None \<Rightarrow> request_op (fst (peer fd)) = None \<and> (\<exists>e'. \<forall>t. server_handle_client t (fst (peer fd)) (snd (peer fd)) [] = Some (Some t, sent, e'))
        | Some k \<Rightarrow> k < length (cs_calls cs) \<and>
            (\<exists>c a. request_op (fst (peer fd)) = Some (c, cs_ops cs ! k) \<and> op_answer (cs_ops cs ! k) (cs_since cs ! k) (cs_log cs) a \<and>
               response_sent 200 (answer_json a) (sendable (snd (peer fd))) sent))"

section \<open>The parts of a step\<close>

inductive_cases server_stepE: "server_step envs peer s s'"

lemma leave_handler_step:
  assumes "handling p i fd"
  shows "pool_step p (leave_handler i fd p)"
  using w_handle [of i p fd] assms by (auto simp: handling_def leave_handler_def pool_step_def thread_step_def)

lemma server_step_pool: "server_step envs peer s s' \<Longrightarrow> st_pool s' = st_pool s \<or> pool_step (st_pool s) (st_pool s')"
  by (auto elim!: server_stepE dest: leave_handler_step)

lemma server_step_calls:
  "server_step envs peer s s' \<Longrightarrow> st_calls s' = st_calls s \<or> (\<exists>op. st_calls s' = invoke op (st_calls s) \<and> op_fits op) \<or>
     (\<exists>k e. k < length (cs_calls (st_calls s)) \<and> e \<in> envs \<and> harmless (cs_calls (st_calls s) ! k) e \<and> advance k e (st_calls s) = Some (st_calls s'))"
  by (erule server_stepE) (auto dest: request_op_fits)

text \<open>A reachable state of the server is one of the pool and one of the calls of the table.\<close>

lemma server_create_result:
  assumes "server_create (Some cfg) e = Some (Some server, h, fds, e')" and "server_threads server = Some s"
  shows "\<exists>p e1 e2. thread_pool_prepare (cfg_worker_count cfg) (cfg_queue_capacity cfg) True e1 = (Some p, e2) \<and>
    s = \<lparr>st_pool = created_state p, st_calls = \<lparr>cs_table = table_upto 16, cs_calls = [], cs_ops = [], cs_since = [], cs_log = []\<rparr>,
      st_call_of = (\<lambda>_. None), st_replies = []\<rparr>"
proof -
  obtain ok1 e1 where 1: "env_next e = (ok1, e1)" by (cases "env_next e")
  obtain r e2 where 2: "table_create e1 = Some (r, e2)" "r = None \<or> r = Some (table_upto 16)"
    using table_create_cases [of e1] by blast
  obtain p e3 where 3: "thread_pool_init (cfg_worker_count cfg) (cfg_queue_capacity cfg) True e2 = Some (Some p, e3)"
    "sv_table server = Some (table_upto 16)" "sv_pool server = Some p"
    using assms(1) 1 2 by (auto simp: server_create_def split: option.splits bind_splits if_splits prod.splits)
  then show ?thesis using thread_pool_init_cases(2) [where cfg = cfg and e = e2 and p = p and e' = e3] assms(2)
    by (auto simp: server_threads_def)
qed

lemma server_init:
  assumes "server_create (Some cfg) e = Some (Some server, h, fds, e')" and "server_threads server = Some s"
  shows "pool_reach (st_pool s)" and "smooth_reach (st_calls s)" and "cs_calls (st_calls s) = []" and "cs_ops (st_calls s) = []"
    and "st_call_of s = (\<lambda>_. None)" and "st_replies s = []" and "handled (st_pool s) = []"
    and "owner (st_pool s) = O_Idle" and "PoolState.accepted (st_pool s) = []"
proof -
  obtain p e1 e2 where p: "thread_pool_prepare (cfg_worker_count cfg) (cfg_queue_capacity cfg) True e1 = (Some p, e2)"
    and s: "s = \<lparr>st_pool = created_state p, st_calls = \<lparr>cs_table = table_upto 16, cs_calls = [], cs_ops = [], cs_since = [], cs_log = []\<rparr>,
      st_call_of = (\<lambda>_. None), st_replies = []\<rparr>" using server_create_result [OF assms] by blast
  show "pool_reach (st_pool s)" using created_reach [OF p] by (simp add: s)
  show "smooth_reach (st_calls s)" using sr_init [OF table_upto_models table_upto_next] by (simp add: s)
  show "cs_calls (st_calls s) = []" "cs_ops (st_calls s) = []" "st_call_of s = (\<lambda>_. None)" "st_replies s = []" "handled (st_pool s) = []"
    "owner (st_pool s) = O_Idle" "PoolState.accepted (st_pool s) = []"
    by (simp_all add: s created_state_def initial_state_def)
qed

text \<open>The owner is never back in the creation of the pool, nor in its failure path.\<close>

definition started :: "owner_pc \<Rightarrow> bool" where
  "started pc \<longleftrightarrow> pc \<noteq> O_Create \<and> pc \<noteq> O_FailStop \<and> \<not> failing pc"

lemma started_step:
  assumes "pool_step p p'" and "started (owner p)"
  shows "started (owner p')"
proof -
  consider i where "worker_step i p p'" | "owner_step p p'" | "spurious_step p p'"
    using assms(1) by (auto simp: pool_step_def thread_step_def)
  then show ?thesis
  proof cases
    case 1
    then show ?thesis using assms(2) by (cases rule: worker_step.cases) simp_all
  next
    case 2
    then show ?thesis using assms(2) by (cases rule: owner_step.cases) (auto simp: started_def failing_def)
  next
    case 3
    then show ?thesis using assms(2) by (cases rule: spurious_step.cases) simp
  qed
qed

lemma server_reach_pool: "server_reach envs peer s \<Longrightarrow> pool_reach (st_pool s)"
proof (induction rule: server_reach.induct)
  case (srv_step s s')
  then show ?case using server_step_pool [OF srv_step(2)] pr_step by metis
qed (rule server_init(1))

lemma server_reach_started: "server_reach envs peer s \<Longrightarrow> started (owner (st_pool s))"
proof (induction rule: server_reach.induct)
  case (srv_init cfg e server h fds e' s)
  then show ?case using server_init(8) [OF srv_init] by (simp add: started_def failing_def)
next
  case (srv_step s s')
  then show ?case using server_step_pool [OF srv_step(2)] started_step by metis
qed

lemma server_reach_calls: "server_reach envs peer s \<Longrightarrow> calls_reach (st_calls s)"
proof (induction rule: server_reach.induct)
  case (srv_step s s')
  then show ?case using server_step_calls [OF srv_step(2)] cr_invoke cr_advance by metis
qed (rule smooth_reach_calls [OF server_init(2)])

lemma server_reach_smooth: "server_reach {[]} peer s \<Longrightarrow> smooth_reach (st_calls s)"
proof (induction rule: server_reach.induct)
  case (srv_step s s')
  then show ?case using server_step_calls [OF srv_step(2)] sr_invoke sr_advance by (metis singletonD)
qed (rule server_init(2))

end
