(* ===== verification/Threads_Invariant.thy ===== *)
theory Threads_Invariant
  imports Server_Threads
begin

text \<open>
  The invariant that ties the parts of the running server together: which worker is in which table
  call, the replies and the pool's account, and what the clients have been sent.
\<close>

section \<open>Workers and calls\<close>

definition server_inv :: "(int \<Rightarrow> connection) \<Rightarrow> ServerState \<Rightarrow> bool" where
  "server_inv peer s \<longleftrightarrow>
     (\<forall>i k. st_call_of s i = Some k \<longrightarrow> k < length (cs_calls (st_calls s)) \<and>
        (\<exists>fd c. handling (st_pool s) i fd \<and> request_op (fst (peer fd)) = Some (c, cs_ops (st_calls s) ! k))) \<and>
     (\<forall>k < length (cs_calls (st_calls s)). \<not> returned (cs_calls (st_calls s) ! k) \<longrightarrow> (\<exists>i. st_call_of s i = Some k)) \<and>
     map fst (st_replies s) = handled (st_pool s) \<and>
     (\<forall>op \<in> set (cs_ops (st_calls s)). op_fits op)"

lemma handling_unique: "handling p i fd \<Longrightarrow> handling p i fd' \<Longrightarrow> fd' = fd"
  by (simp add: handling_def)

text \<open>Only the worker itself leaves its handler.\<close>

lemma handling_stays:
  assumes "pool_step p p'" and "handled p' = handled p" and "handling p i fd"
  shows "handling p' i fd"
proof -
  consider j where "worker_step j p p'" | "owner_step p p'" | "spurious_step p p'"
    using assms(1) by (auto simp: pool_step_def thread_step_def)
  then show ?thesis
  proof cases
    case 1
    then show ?thesis using assms(2,3) by (cases rule: worker_step.cases) (auto simp: handling_def nth_list_update)
  next
    case 2
    then show ?thesis using assms(3) by (cases rule: owner_step.cases) (auto simp: handling_def nth_list_update nth_append wake_def)
  next
    case 3
    then show ?thesis using assms(3) by (cases rule: spurious_step.cases) (auto simp: handling_def nth_list_update)
  qed
qed

lemma handling_leave: "handling p j fd' \<Longrightarrow> j \<noteq> i \<Longrightarrow> handling (leave_handler i fd p) j fd'"
  by (simp add: handling_def leave_handler_def)

lemma advance_call:
  assumes "advance k e cs = Some cs'" and "k < length (cs_calls cs)"
  shows "cs_ops cs' = cs_ops cs" and "length (cs_calls cs') = length (cs_calls cs)" and "\<not> returned (cs_calls cs ! k)"
    and "j \<noteq> k \<Longrightarrow> cs_calls cs' ! j = cs_calls cs ! j"
proof -
  obtain t' pc' e' where s: "call_step (cs_table cs) (cs_calls cs ! k) e = Some (t', pc', e')" "cs_calls cs' = (cs_calls cs)[k := pc']"
    "cs_ops cs' = cs_ops cs" using advance_step [OF assms] by blast
  then show "cs_ops cs' = cs_ops cs" "length (cs_calls cs') = length (cs_calls cs)" "j \<noteq> k \<Longrightarrow> cs_calls cs' ! j = cs_calls cs ! j" by simp_all
  show "\<not> returned (cs_calls cs ! k)" using s(1) by (auto simp: returned_def)
qed

lemma server_inv_step:
  assumes step: "server_step envs peer s s'" and inv: "server_inv peer s" and len: "length (cs_ops (st_calls s)) = length (cs_calls (st_calls s))"
  shows "server_inv peer s'"
  using step
proof (cases rule: server_step.cases)
  case (st_thread p)
  then show ?thesis using inv handling_stays [of "st_pool s" p] unfolding server_inv_def by (simp; meson)
next
  case (st_begin i fd c op)
  let ?n = "length (cs_calls (st_calls s))"
  have i: "\<And>j k. st_call_of s j = Some k \<Longrightarrow> k < ?n \<and>
      (\<exists>fd c. handling (st_pool s) j fd \<and> request_op (fst (peer fd)) = Some (c, cs_ops (st_calls s) ! k))"
    "\<And>k. k < ?n \<Longrightarrow> \<not> returned (cs_calls (st_calls s) ! k) \<Longrightarrow> \<exists>j. st_call_of s j = Some k"
    "map fst (st_replies s) = handled (st_pool s)" "\<forall>op \<in> set (cs_ops (st_calls s)). op_fits op"
    using inv unfolding server_inv_def by blast+
  have "op_fits op" using request_op_fits st_begin(4) by blast
  moreover have "k < Suc ?n \<and> (\<exists>fd c. handling (st_pool s) j fd \<and> request_op (fst (peer fd)) = Some (c, (cs_ops (st_calls s) @ [op]) ! k))"
    if "((st_call_of s)(i := Some ?n)) j = Some k" for j k
  proof (cases "j = i")
    case True
    then show ?thesis using that st_begin len by (auto simp: nth_append)
  next
    case False
    then have "st_call_of s j = Some k" using that by simp
    then show ?thesis using i(1) [of j k] len by (auto simp: nth_append)
  qed
  moreover have "\<exists>j. ((st_call_of s)(i := Some ?n)) j = Some k"
    if "k < Suc ?n" "\<not> returned ((cs_calls (st_calls s) @ [start_pc op]) ! k)" for k
  proof (cases "k = ?n")
    case False
    then have "k < ?n" "\<not> returned (cs_calls (st_calls s) ! k)" using that by (auto simp: nth_append)
    then obtain j where "st_call_of s j = Some k" using i(2) by blast
    moreover from this have "j \<noteq> i" using st_begin(3) by auto
    ultimately show ?thesis by (intro exI [of _ j]) simp
  qed auto
  ultimately show ?thesis using i(3,4) unfolding server_inv_def st_begin(1) invoke_def by simp
next
  case (st_table k e cs)
  note a = advance_call [OF st_table(5,2)]
  have "\<exists>i. st_call_of s i = Some j" if "j < length (cs_calls cs)" "\<not> returned (cs_calls cs ! j)" for j
    using inv a(2,3) a(4) [of j] st_table(2) that unfolding server_inv_def by (cases "j = k") auto
  then show ?thesis using inv a(1,2) unfolding server_inv_def st_table(1) by simp
next
  case (st_reply i fd k res c op e sent e')
  have own: "\<exists>j. ((st_call_of s)(i := None)) j = Some k'"
    if k': "k' < length (cs_calls (st_calls s))" "\<not> returned (cs_calls (st_calls s) ! k')" for k'
  proof -
    obtain j where j: "st_call_of s j = Some k'" using inv k' unfolding server_inv_def by blast
    have "j \<noteq> i" using j st_reply(3,4) k'(2) by (auto simp: returned_def)
    then show ?thesis using j by (intro exI [of _ j]) simp
  qed
  have "k' < length (cs_calls (st_calls s)) \<and> (\<exists>fd' c. handling (leave_handler i fd (st_pool s)) j fd' \<and>
      request_op (fst (peer fd')) = Some (c, cs_ops (st_calls s) ! k'))" if "((st_call_of s)(i := None)) j = Some k'" for j k'
  proof -
    have "j \<noteq> i" "st_call_of s j = Some k'" using that by (auto split: if_splits)
    then show ?thesis using inv handling_leave unfolding server_inv_def by blast
  qed
  then show ?thesis using inv own unfolding server_inv_def st_reply(1) by (simp add: leave_handler_def)
next
  case (st_local i fd e tbl sent e')
  have free: "st_call_of s i = None"
  proof (rule ccontr)
    assume "st_call_of s i \<noteq> None"
    then obtain k where "st_call_of s i = Some k" by blast
    then obtain fd' c where "handling (st_pool s) i fd'" "request_op (fst (peer fd')) = Some (c, cs_ops (st_calls s) ! k)"
      using inv unfolding server_inv_def by blast
    then show False using handling_unique [OF st_local(2)] st_local(3) by auto
  qed
  have "k < length (cs_calls (st_calls s)) \<and> (\<exists>fd' c. handling (leave_handler i fd (st_pool s)) j fd' \<and>
      request_op (fst (peer fd')) = Some (c, cs_ops (st_calls s) ! k))" if "st_call_of s j = Some k" for j k
  proof -
    have "j \<noteq> i" using that free by auto
    then show ?thesis using inv that handling_leave unfolding server_inv_def by blast
  qed
  then show ?thesis using inv unfolding server_inv_def st_local(1) by (simp add: leave_handler_def)
qed

lemma calls_lengths: "calls_reach s \<Longrightarrow> length (cs_ops s) = length (cs_calls s)"
  using calls_ok_reach by (simp add: calls_ok_def)

lemma server_reach_inv: "server_reach envs peer s \<Longrightarrow> server_inv peer s"
proof (induction rule: server_reach.induct)
  case (srv_init cfg e server h fds e' s)
  then show ?case using server_init [OF srv_init] by (simp add: server_inv_def)
next
  case (srv_step s s')
  then show ?case using server_inv_step calls_lengths [OF server_reach_calls [OF srv_step(1)]] by blast
qed

section \<open>The records fit their fields\<close>

lemma server_log_fits:
  assumes "server_reach envs peer s"
  shows "fitting_log (cs_log (st_calls s))"
proof -
  let ?cs = "st_calls s" and ?log = "cs_log (st_calls s)" and ?h = "rec_heap (cs_table (st_calls s))"
  have ok: "calls_ok ?cs" by (rule calls_ok_reach [OF server_reach_calls [OF assms]])
  obtain pss where st: "store_ok (cs_table ?cs) pss ?log" using ok by (auto simp: calls_ok_def)
  have d: "distinct (map rec_id ?log)" and r: "\<forall>u \<in> set ?log. 1 \<le> rec_id u \<and> rec_id u < next_id (cs_table ?cs)"
    and n: "next_id (cs_table ?cs) \<le> INT_MAX" using st unfolding store_ok_def by blast+
  have "user_fits u" if u: "u \<in> set ?log" for u
  proof -
    have "number_ok (rec_id u)" using r n u by (fastforce simp: number_ok_def INT_MIN_def)
    have "ids_ok (next_id (cs_table ?cs)) ?h ?log (cs_ops ?cs) (cs_calls ?cs)" using ok by (simp add: calls_ok_def)
    then obtain k where k: "k < length (cs_calls ?cs)" "made ?h (cs_ops ?cs ! k) (cs_calls ?cs ! k) = Some u"
      using u unfolding ids_ok_def by blast
    have known: "call_ok (cs_ops ?cs ! k) (cs_since ?cs ! k) ?log ?h (cs_calls ?cs ! k)" and len: "length (cs_ops ?cs) = length (cs_calls ?cs)"
      using ok k(1) by (simp_all add: calls_ok_def)
    obtain name age k' where op: "cs_ops ?cs ! k = Op_Insert name age" "u = inserted_record k' name age"
      using k(2) known by (cases "(?h, cs_ops ?cs ! k, cs_calls ?cs ! k)" rule: made.cases; cases "cs_ops ?cs ! k") (auto simp: stored_def)
    have "op_fits (cs_ops ?cs ! k)" using server_reach_inv [OF assms] k(1) len unfolding server_inv_def by (metis nth_mem)
    then show ?thesis using op \<open>number_ok (rec_id u)\<close> by (simp add: user_fits_def inserted_record_def bounded_def RECORD_NAME_SIZE_def)
  qed
  moreover have "length ?log < 2 ^ 31"
  proof -
    have "length ?log = card (rec_id ` set ?log)" using d by (metis distinct_card length_map set_map)
    also have "\<dots> \<le> card {1 ..< next_id (cs_table ?cs)}" using r by (intro card_mono) auto
    also have "\<dots> < 2 ^ 31" using n by (auto simp: INT_MAX_def nat_less_iff)
    finally show ?thesis .
  qed
  ultimately show ?thesis by (simp add: fitting_log_def)
qed

section \<open>Every reply is right\<close>

lemma reply_ok_mono:
  assumes "reply_ok peer cs r" and "length (cs_calls cs) \<le> length (cs_calls cs')"
    and "\<And>k. k < length (cs_calls cs) \<Longrightarrow> cs_ops cs' ! k = cs_ops cs ! k \<and> cs_since cs' ! k = cs_since cs ! k"
    and "\<exists>zs. cs_log cs' = cs_log cs @ zs"
  shows "reply_ok peer cs' r"
proof -
  obtain zs where zs: "cs_log cs' = cs_log cs @ zs" using assms(4) by blast
  obtain fd call sent where r: "r = (fd, call, sent)" by (cases r)
  show ?thesis
  proof (cases call)
    case None
    then show ?thesis using assms(1) r by (simp add: reply_ok_def)
  next
    case (Some k)
    then obtain c a where a: "k < length (cs_calls cs)" "request_op (fst (peer fd)) = Some (c, cs_ops cs ! k)"
      "op_answer (cs_ops cs ! k) (cs_since cs ! k) (cs_log cs) a" "response_sent 200 (answer_json a) (sendable (snd (peer fd))) sent"
      using assms(1) r unfolding reply_ok_def by auto
    have "op_answer (cs_ops cs ! k) (cs_since cs ! k) (cs_log cs') a" unfolding zs using a(3) by (rule op_answer_mono)
    moreover have "k < length (cs_calls cs')" using a(1) assms(2) by simp
    ultimately show ?thesis unfolding reply_ok_def r Some using a(2,4) assms(3) [OF a(1)] by auto
  qed
qed

lemma result_of_call:
  assumes "server_reach envs peer s" and "k < length (cs_calls (st_calls s))" and "cs_calls (st_calls s) ! k = Returned res"
  shows "result_ok (cs_ops (st_calls s) ! k) (cs_since (st_calls s) ! k) (cs_log (st_calls s)) (rec_heap (cs_table (st_calls s))) res"
proof -
  have "call_ok (cs_ops (st_calls s) ! k) (cs_since (st_calls s) ! k) (cs_log (st_calls s)) (rec_heap (cs_table (st_calls s))) (Returned res)"
    using calls_ok_reach [OF server_reach_calls [OF assms(1)]] assms(2,3) unfolding calls_ok_def by metis
  then show ?thesis by (cases "cs_ops (st_calls s) ! k") simp_all
qed

lemma replies_ok:
  assumes "server_reach {[]} peer s"
  shows "\<forall>r \<in> set (st_replies s). reply_ok peer (st_calls s) r"
  using assms
proof (induction rule: server_reach.induct)
  case (srv_init cfg e server h fds e' s)
  then show ?case using server_init(6) [OF srv_init] by simp
next
  case (srv_step s s')
  let ?cs = "st_calls s"
  have lens: "length (cs_ops ?cs) = length (cs_calls ?cs)" "length (cs_since ?cs) = length (cs_calls ?cs)"
    using calls_ok_reach [OF server_reach_calls [OF srv_step(1)]] by (auto simp: calls_ok_def)
  have good: "all_succeeded ?cs" using smooth_ok [OF server_reach_smooth [OF srv_step(1)]] by simp
  from srv_step(2) show ?case
  proof (cases rule: server_step.cases)
    case (st_thread p)
    then show ?thesis using srv_step(3) by simp
  next
    case (st_begin i fd c op)
    have "reply_ok peer (invoke op ?cs) r" if "r \<in> set (st_replies s)" for r
      by (rule reply_ok_mono [OF srv_step(3) [rule_format, OF that]]) (simp_all add: invoke_def nth_append lens)
    then show ?thesis using st_begin(1) by simp
  next
    case (st_table k e cs)
    obtain t' pc' log' where cs: "cs = ?cs\<lparr>cs_table := t', cs_calls := (cs_calls ?cs)[k := pc'], cs_log := log'\<rparr>"
      and eff: "step_effect (cs_ops ?cs ! k) (cs_since ?cs ! k) (cs_table ?cs) (cs_log ?cs) (cs_calls ?cs ! k) t' log' pc'"
      using advance_effect [OF calls_ok_reach [OF server_reach_calls [OF srv_step(1)]] st_table(2,4,5)] by blast
    have "\<exists>zs. log' = cs_log ?cs @ zs" using step_effect_later [OF eff] by (simp add: later_def)
    then have "reply_ok peer cs r" if "r \<in> set (st_replies s)" for r
      by (intro reply_ok_mono [OF srv_step(3) [rule_format, OF that]]) (simp_all add: cs)
    then show ?thesis using st_table(1) by simp
  next
    case (st_reply i fd k res c op e sent e')
    obtain fd' c' where k: "k < length (cs_calls ?cs)" "handling (st_pool s) i fd'" "request_op (fst (peer fd')) = Some (c', cs_ops ?cs ! k)"
      using server_reach_inv [OF srv_step(1)] st_reply(3) unfolding server_inv_def by blast
    then have op: "op = cs_ops ?cs ! k" "c' = c" using handling_unique [OF st_reply(2)] st_reply(5) by auto
    have plan: "plan_op c = Some (cs_ops ?cs ! k)" using request_op_fits [OF st_reply(5)] op by simp
    have "succeeded (cs_ops ?cs ! k) (cs_since ?cs ! k) (cs_log ?cs) (rec_heap (cs_table ?cs)) (Returned res)"
      using good k(1) st_reply(4) unfolding all_succeeded_def by metis
    then obtain a where a: "op_answer (cs_ops ?cs ! k) (cs_since ?cs ! k) (cs_log ?cs) a"
      "response_sent 200 (answer_json a) (sendable (snd (peer fd))) sent"
      using finish_query_ok [OF plan result_of_call [OF srv_step(1) k(1) st_reply(4)] server_log_fits [OF srv_step(1)], of "snd (peer fd)" e]
        st_reply(6,7) by auto
    then have "reply_ok peer ?cs (fd, Some k, sent)" using k(1) st_reply(5) op(1) unfolding reply_ok_def by auto
    then show ?thesis using srv_step(3) st_reply(1) by simp
  next
    case (st_local i fd e tbl sent e')
    then have "reply_ok peer ?cs (fd, None, sent)" using handler_local [OF st_local(3), of "snd (peer fd)" "[]"] by (auto simp: reply_ok_def)
    then show ?thesis using srv_step(3) st_local(1) by simp
  qed
qed

section \<open>The history of a run\<close>

text \<open>The history only grows, and a call that begins later counts from a later point of it.\<close>

definition history_grows :: "CallState \<Rightarrow> CallState \<Rightarrow> bool" where
  "history_grows cs cs' \<longleftrightarrow> (\<exists>zs. cs_log cs' = cs_log cs @ zs) \<and> length (cs_calls cs) \<le> length (cs_calls cs') \<and>
     (\<forall>k. length (cs_calls cs) \<le> k \<longrightarrow> k < length (cs_calls cs') \<longrightarrow> length (cs_log cs) \<le> cs_since cs' ! k)"

lemma history_advance:
  assumes "calls_ok cs" and "k < length (cs_calls cs)" and "harmless (cs_calls cs ! k) e" and "advance k e cs = Some cs'"
  shows "\<exists>zs. cs_log cs' = cs_log cs @ zs" and "cs_since cs' = cs_since cs" and "length (cs_calls cs') = length (cs_calls cs)"
proof -
  obtain t' pc' log' where cs: "cs' = cs\<lparr>cs_table := t', cs_calls := (cs_calls cs)[k := pc'], cs_log := log'\<rparr>"
    and eff: "step_effect (cs_ops cs ! k) (cs_since cs ! k) (cs_table cs) (cs_log cs) (cs_calls cs ! k) t' log' pc'"
    using advance_effect [OF assms] by blast
  show "\<exists>zs. cs_log cs' = cs_log cs @ zs" using step_effect_later [OF eff] cs by (simp add: later_def)
  show "cs_since cs' = cs_since cs" "length (cs_calls cs') = length (cs_calls cs)" using cs by simp_all
qed

lemma history_step:
  assumes h: "history_grows cs0 (st_calls s)" and r: "server_reach envs peer s" and step: "server_step envs peer s s'"
  shows "history_grows cs0 (st_calls s')"
proof -
  note ok = calls_ok_reach [OF server_reach_calls [OF r]]
  have len: "length (cs_since (st_calls s)) = length (cs_calls (st_calls s))" using ok by (simp add: calls_ok_def)
  from server_step_calls [OF step] show ?thesis
  proof (elim disjE exE conjE)
    fix op
    assume eq: "st_calls s' = invoke op (st_calls s)"
    have "length (cs_log cs0) \<le> length (cs_log (st_calls s))" using h by (auto simp: history_grows_def)
    then show ?thesis using h len unfolding history_grows_def eq by (auto simp: invoke_def nth_append less_Suc_eq)
  next
    fix k e
    assume a: "k < length (cs_calls (st_calls s))" "harmless (cs_calls (st_calls s) ! k) e" "advance k e (st_calls s) = Some (st_calls s')"
    show ?thesis using h history_advance [OF ok a] unfolding history_grows_def by auto
  qed (use h in simp)
qed

lemma history_run:
  assumes "(server_step envs peer)\<^sup>*\<^sup>* s s'" and "server_reach envs peer s"
  shows "history_grows (st_calls s) (st_calls s') \<and> server_reach envs peer s'"
  using assms
proof (induction rule: rtranclp_induct)
  case base
  then show ?case by (simp add: history_grows_def)
next
  case (step t u)
  then show ?case using history_step srv_step by blast
qed

end
