(* ===== verification/Threads_Progress.thy ===== *)
theory Threads_Progress
  imports Threads_Invariant Pool_Props
begin

text \<open>
  Progress of the running server: a worker in the handler can always go on or waits for a lock that
  somebody else gives back, and behind a shutdown the whole server comes to an end.
\<close>

section \<open>The handler goes on\<close>

text \<open>A step of some thread, as opposed to a spurious wakeup.\<close>

definition server_thread_step :: "env set \<Rightarrow> (int \<Rightarrow> connection) \<Rightarrow> ServerState \<Rightarrow> ServerState \<Rightarrow> bool" where
  "server_thread_step envs peer s s' \<longleftrightarrow>
     server_step envs peer s s' \<and> (st_pool s' = st_pool s \<or> thread_step (st_pool s) (st_pool s'))"

lemma local_replies:
  assumes h: "handling (st_pool s) i fd" and "request_op (fst (peer fd)) = None" and e: "[] \<in> envs"
  shows "\<exists>sent. server_step envs peer s
    (s\<lparr>st_pool := leave_handler i fd (st_pool s), st_replies := st_replies s @ [(fd, None, sent)]\<rparr>)"
proof -
  obtain sent e' where "server_handle_client (cs_table (st_calls s)) (fst (peer fd)) (snd (peer fd)) [] = Some (Some (cs_table (st_calls s)), sent, e')"
    using handler_local [OF assms(2)] by blast
  from st_local [where s = s and peer = peer, OF h assms(2) e this] show ?thesis by blast
qed

lemma returned_replies:
  assumes r: "server_reach envs peer s" and h: "handling (st_pool s) i fd" and k: "st_call_of s i = Some k"
    and res: "cs_calls (st_calls s) ! k = Returned res" and e: "[] \<in> envs"
  shows "\<exists>sent. server_step envs peer s (s\<lparr>st_pool := leave_handler i fd (st_pool s), st_call_of := (st_call_of s)(i := None),
    st_replies := st_replies s @ [(fd, Some k, sent)]\<rparr>)"
proof -
  obtain fd' c where c: "k < length (cs_calls (st_calls s))" "handling (st_pool s) i fd'"
    "request_op (fst (peer fd')) = Some (c, cs_ops (st_calls s) ! k)"
    using server_reach_inv [OF r] k unfolding server_inv_def by blast
  then have op: "request_op (fst (peer fd)) = Some (c, cs_ops (st_calls s) ! k)" using handling_unique [OF h] by auto
  have "plan_op c = Some (cs_ops (st_calls s) ! k)" using request_op_fits [OF op] by simp
  from finish_query_ok [OF this result_of_call [OF r c(1) res] server_log_fits [OF r]]
  obtain sent e' where "finish_query c res (rec_heap (cs_table (st_calls s))) (snd (peer fd)) [] = Some (sent, e')" by blast
  from st_reply [where s = s and peer = peer, OF h k res op e this] show ?thesis by blast
qed

lemma handling_goes_on:
  assumes r: "server_reach envs peer s" and e: "[] \<in> envs" and ids: "ids_left (st_calls s)" and h: "handling (st_pool s) i fd"
  shows "\<exists>s'. server_thread_step envs peer s s' \<and> owner (st_pool s') = owner (st_pool s)"
proof -
  let ?cs = "st_calls s"
  have own: "owner (leave_handler i fd (st_pool s)) = owner (st_pool s)" by (simp add: leave_handler_def)
  have leave: "thread_step (st_pool s) (leave_handler i fd (st_pool s))"
    using w_handle [of i "st_pool s" fd] h by (auto simp: handling_def leave_handler_def thread_step_def)
  show ?thesis
  proof (cases "request_op (fst (peer fd))")
    case None
    then show ?thesis using local_replies [where s = s and peer = peer, OF h None e] leave own unfolding server_thread_step_def by fastforce
  next
    case (Some co)
    obtain c op where op: "request_op (fst (peer fd)) = Some (c, op)" using Some by (cases co) simp
    show ?thesis
    proof (cases "st_call_of s i")
      case None
      from st_begin [where s = s and peer = peer, OF h None op] show ?thesis unfolding server_thread_step_def by fastforce
    next
      case (Some k)
      then have k: "k < length (cs_calls ?cs)" using server_reach_inv [OF r] unfolding server_inv_def by blast
      show ?thesis
      proof (cases "returned (cs_calls ?cs ! k)")
        case True
        then show ?thesis using returned_replies [OF r h Some _ e] leave own unfolding server_thread_step_def returned_def by fastforce
      next
        case False
        then obtain j cs where j: "j < length (cs_calls ?cs)" "advance j [] ?cs = Some cs"
          using some_call_goes_on [OF calls_ok_reach [OF server_reach_calls [OF r]] ids] k by blast
        from st_table [OF j(1) e harmless_empty j(2)] show ?thesis unfolding server_thread_step_def by fastforce
      qed
    qed
  qed
qed

lemma thread_step_handled:
  assumes "thread_step p p'"
  shows "handled p' = handled p \<or> (\<exists>i fd. handling p i fd)"
  using assms unfolding thread_step_def
  by (auto simp: handling_def elim!: worker_stepE owner_stepE)

lemma thread_goes_on:
  assumes "server_reach envs peer s" and "[] \<in> envs" and "ids_left (st_calls s)" and "thread_step (st_pool s) p"
  shows "\<exists>s'. server_thread_step envs peer s s' \<and> (owner p = owner (st_pool s) \<longrightarrow> owner (st_pool s') = owner (st_pool s))"
proof (cases "handled p = handled (st_pool s)")
  case True
  have "pool_step (st_pool s) p" using assms(4) by (simp add: pool_step_def)
  from st_thread [OF this True] show ?thesis using assms(4) unfolding server_thread_step_def by fastforce
next
  case False
  then show ?thesis using thread_step_handled [OF assms(4)] handling_goes_on [OF assms(1-3)] by blast
qed

text \<open>While the owner is idle, the step is one of a worker or of a table call, not a new operation of the owner.\<close>

lemma server_progress:
  assumes "server_reach envs peer s" and "[] \<in> envs" and "ids_left (st_calls s)" and "owner (st_pool s) \<noteq> O_Destroyed"
    and "owner (st_pool s) \<noteq> O_Idle \<or> 0 < tp_size (pool (st_pool s)) \<or> (\<exists>i fd. handling (st_pool s) i fd)"
  shows "\<exists>s'. server_thread_step envs peer s s' \<and> (owner (st_pool s) = O_Idle \<longrightarrow> owner (st_pool s') = O_Idle)"
proof -
  note pr = server_reach_pool [OF assms(1)]
  have nf: "\<not> failing (owner (st_pool s))" using server_reach_started [OF assms(1)] by (simp add: started_def)
  show ?thesis
  proof (cases "owner (st_pool s) = O_Idle")
    case False
    then show ?thesis using pool_progress [OF pr nf assms(4)] thread_goes_on [OF assms(1-3)] by blast
  next
    case True
    then consider "0 < tp_size (pool (st_pool s))" | i fd where "handling (st_pool s) i fd" using assms(5) by auto
    then show ?thesis
    proof cases
      case 1
      then obtain i p where p: "worker_step i (st_pool s) p" using queued_progress [OF pr nf assms(4)] True by auto
      then have "owner p = owner (st_pool s)" by (auto elim: worker_stepE)
      moreover have "thread_step (st_pool s) p" using p by (auto simp: thread_step_def)
      ultimately show ?thesis using thread_goes_on [OF assms(1-3)] True by metis
    next
      case 2
      then show ?thesis using handling_goes_on [OF assms(1-3)] True by metis
    qed
  qed
qed

section \<open>The end\<close>

definition starters :: "ServerState \<Rightarrow> nat set" where
  "starters s = {i. (\<exists>fd. handling (st_pool s) i fd) \<and> st_call_of s i = None}"

lemma finite_starters [simp]: "finite (starters s)"
  by (rule finite_subset [of _ "{..<length (workers (st_pool s))}"]) (auto simp: starters_def handling_def)

text \<open>Every step of the pool may lead to a table call of at most 51 steps.\<close>

definition server_bound :: "ServerState \<Rightarrow> nat" where
  "server_bound s = 100 * drain_bound (st_pool s) + 52 * card (starters s) + tc.total_work (cs_calls (st_calls s))"

definition ids_suffice :: "ServerState \<Rightarrow> bool" where
  "ids_suffice s \<longleftrightarrow> next_id (cs_table (st_calls s)) + int (number takes_id (cs_calls (st_calls s))) + int (card (starters s)) +
     int (drain_bound (st_pool s)) \<le> INT_MAX"

lemma ids_suffice_left: "ids_suffice s \<Longrightarrow> ids_left (st_calls s)"
  by (simp add: ids_suffice_def ids_left_def)

text \<open>At most one worker enters the handler in a step of the pool.\<close>

lemma handling_new:
  assumes "pool_step p p'"
  shows "\<exists>j. \<forall>i fd. handling p' i fd \<longrightarrow> i = j \<or> handling p i fd"
proof -
  consider j where "worker_step j p p'" | "owner_step p p'" | "spurious_step p p'"
    using assms by (auto simp: pool_step_def thread_step_def)
  then show ?thesis
  proof cases
    case (1 j)
    then have "\<forall>i fd. handling p' i fd \<longrightarrow> i = j \<or> handling p i fd"
      by (cases rule: worker_step.cases) (auto simp: handling_def nth_list_update)
    then show ?thesis ..
  next
    case 2
    then show ?thesis
      by (cases rule: owner_step.cases) (auto simp: handling_def nth_list_update nth_append wake_def less_Suc_eq split: if_splits)
  next
    case 3
    then show ?thesis by (cases rule: spurious_step.cases) (auto simp: handling_def nth_list_update)
  qed
qed

lemma starters_thread:
  assumes "pool_step (st_pool s) p"
  shows "card (starters (s\<lparr>st_pool := p\<rparr>)) \<le> Suc (card (starters s))"
proof -
  obtain j where "\<forall>i fd. handling p i fd \<longrightarrow> i = j \<or> handling (st_pool s) i fd" using handling_new [OF assms] by blast
  then have "starters (s\<lparr>st_pool := p\<rparr>) \<subseteq> insert j (starters s)" by (auto simp: starters_def)
  then have "card (starters (s\<lparr>st_pool := p\<rparr>)) \<le> card (insert j (starters s))" by (intro card_mono) simp_all
  also have "\<dots> \<le> Suc (card (starters s))" by (simp add: card_insert_if)
  finally show ?thesis .
qed

lemma starters_leave:
  assumes "st_pool s' = leave_handler i fd (st_pool s)" and "\<And>j. j \<noteq> i \<Longrightarrow> st_call_of s' j = st_call_of s j"
  shows "card (starters s') \<le> card (starters s)"
proof -
  have "starters s' \<subseteq> starters s"
  proof
    fix j
    assume "j \<in> starters s'"
    then obtain fd' where j: "handling (leave_handler i fd (st_pool s)) j fd'" "st_call_of s' j = None" using assms(1) by (auto simp: starters_def)
    then have "j \<noteq> i" by (auto simp: handling_def leave_handler_def)
    then show "j \<in> starters s" using j assms(2) [of j] by (auto simp: starters_def handling_def leave_handler_def)
  qed
  then show ?thesis by (rule card_mono [OF finite_starters])
qed

lemma start_work: "work (start_pc op) \<le> 51" "number takes_id [start_pc op] \<le> 1"
  by (cases op; simp)+

lemma server_bound_step:
  assumes r: "server_reach envs peer s" and join: "owner (st_pool s) = O_Join k" and ids: "ids_suffice s" and step: "server_step envs peer s s'"
  shows "server_bound s' < server_bound s \<and> ids_suffice s' \<and> (owner (st_pool s') = O_Destroyed \<or> (\<exists>k'. owner (st_pool s') = O_Join k'))"
proof -
  have pr: "pool_reach (st_pool s)" by (rule server_reach_pool [OF r])
  have nd: "owner (st_pool s) \<noteq> O_Destroyed" "\<not> failing (owner (st_pool s))" using join by (simp_all add: failing_def)
  note ok = reach_ok [OF pr nd(1)]
  have drain: "drain_bound p < drain_bound (st_pool s) \<and> (owner p = O_Destroyed \<or> (\<exists>k'. owner p = O_Join k'))" if "pool_step (st_pool s) p" for p
    by (rule drain_step [OF that ok(1,3) ok(4) [OF nd(2)] join])
  from step show ?thesis
  proof (cases rule: server_step.cases)
    case (st_thread p)
    then show ?thesis using drain [OF st_thread(2)] starters_thread [OF st_thread(2)] ids by (simp add: server_bound_def ids_suffice_def)
  next
    case (st_begin i fd c op)
    have i: "i \<in> starters s" using st_begin(2,3) by (auto simp: starters_def)
    have "starters s' = starters s - {i}" using st_begin(1) by (auto simp: starters_def)
    then have c: "Suc (card (starters s')) = card (starters s)" using card_Suc_Diff1 [OF finite_starters i] by simp
    have w: "tc.total_work (cs_calls (st_calls s')) = tc.total_work (cs_calls (st_calls s)) + work (start_pc op)"
      and n: "number takes_id (cs_calls (st_calls s')) \<le> number takes_id (cs_calls (st_calls s)) + 1"
      "next_id (cs_table (st_calls s')) = next_id (cs_table (st_calls s))"
      using st_begin(1) start_work(2) [of op] by (simp_all add: invoke_def tc.total_work_def)
    have p: "st_pool s' = st_pool s" using st_begin(1) by simp
    show ?thesis using c w start_work(1) [of op] n ids join unfolding server_bound_def ids_suffice_def p by simp
  next
    case (st_table k' e cs)
    have eq: "starters s' = starters s" "st_pool s' = st_pool s" "st_calls s' = cs" using st_table(1) by (simp_all add: starters_def)
    have "tc.total_work (cs_calls cs) < tc.total_work (cs_calls (st_calls s))"
      by (rule advance_work [OF calls_ok_reach [OF server_reach_calls [OF r]] st_table(2,5)])
    then show ?thesis using advance_ids [OF st_table(5,2)] ids join unfolding server_bound_def ids_suffice_def eq by simp
  next
    case (st_reply i fd k' res c op e sent e')
    have eq: "st_pool s' = leave_handler i fd (st_pool s)" "st_calls s' = st_calls s" using st_reply(1) by simp_all
    have "card (starters s') \<le> card (starters s)" by (rule starters_leave [OF eq(1)]) (simp add: st_reply(1))
    then show ?thesis using drain [OF leave_handler_step [OF st_reply(2)]] ids unfolding server_bound_def ids_suffice_def eq by simp
  next
    case (st_local i fd e tbl sent e')
    have eq: "st_pool s' = leave_handler i fd (st_pool s)" "st_calls s' = st_calls s" using st_local(1) by simp_all
    have "card (starters s') \<le> card (starters s)" by (rule starters_leave [OF eq(1)]) (simp add: st_local(1))
    then show ?thesis using drain [OF leave_handler_step [OF st_local(2)]] ids unfolding server_bound_def ids_suffice_def eq by simp
  qed
qed

lemma server_destroyed_stuck:
  assumes "server_reach envs peer s" and "owner (st_pool s) = O_Destroyed"
  shows "\<forall>k < length (cs_calls (st_calls s)). returned (cs_calls (st_calls s) ! k)" and "\<not> server_step envs peer s s'"
proof -
  have f: "pool_final (st_pool s)" using reach_inv [OF server_reach_pool [OF assms(1)]] assms(2) by (simp add: pool_inv_def)
  then have done_all: "\<forall>pc \<in> set (workers (st_pool s)). pc = W_Done" by (simp add: pool_final_def)
  have nobody: "\<not> handling (st_pool s) i fd" for i fd
  proof
    assume "handling (st_pool s) i fd"
    then have "W_Handle fd \<in> set (workers (st_pool s))" unfolding handling_def by (metis nth_mem)
    then show False using done_all by blast
  qed
  then have idle: "st_call_of s i = None" for i
    using server_reach_inv [OF assms(1)] unfolding server_inv_def by (meson not_Some_eq)
  then show all: "\<forall>k < length (cs_calls (st_calls s)). returned (cs_calls (st_calls s) ! k)"
    using server_reach_inv [OF assms(1)] unfolding server_inv_def by (metis option.distinct(1))
  show "\<not> server_step envs peer s s'"
  proof
    assume "server_step envs peer s s'"
    then show False
    proof (cases rule: server_step.cases)
      case (st_thread p)
      then show ?thesis using final_stuck [OF f assms(2)] by blast
    next
      case (st_table k e cs)
      then show ?thesis using all advance_call(3) by blast
    qed (use nobody in blast)+
  qed
qed

lemma server_drain_run:
  "(server_step envs peer ^^ n) s s' \<Longrightarrow> server_reach envs peer s \<Longrightarrow> owner (st_pool s) = O_Join k \<Longrightarrow> ids_suffice s \<Longrightarrow>
   n \<le> server_bound s \<and> server_reach envs peer s' \<and> ids_suffice s' \<and>
   (owner (st_pool s') = O_Destroyed \<or> (\<exists>k'. owner (st_pool s') = O_Join k'))"
proof (induction n arbitrary: s k)
  case 0
  then show ?case by auto
next
  case (Suc n)
  obtain t where t: "server_step envs peer s t" "(server_step envs peer ^^ n) t s'" using relpowp_Suc_D2 [OF Suc.prems(1)] by blast
  have d: "server_bound t < server_bound s" "ids_suffice t" "owner (st_pool t) = O_Destroyed \<or> (\<exists>k'. owner (st_pool t) = O_Join k')"
    using server_bound_step [OF Suc.prems(2-4) t(1)] by simp_all
  have r: "server_reach envs peer t" by (rule srv_step [OF Suc.prems(2) t(1)])
  show ?case
  proof (cases "owner (st_pool t) = O_Destroyed")
    case True
    then have "n = 0 \<and> s' = t" using t(2) server_destroyed_stuck(2) [OF r True] by (cases n) (auto dest!: relpowp_Suc_D2 simp del: relpowp.simps(2))
    then show ?thesis using True d r by auto
  next
    case False
    then show ?thesis using Suc.IH [OF t(2) r] d by fastforce
  qed
qed

end
