(* ===== verification/Server_Program.thy ===== *)
theory Server_Program
  imports Threads_Progress
begin

text \<open>
  The whole running program: the accept loop of \<open>server_run\<close> (\<^verbatim>\<open>server/server.c\<close>) as the owner of the pool,
  among the threads of the server. What was a parameter of the accept loop, whether the pool takes
  a descriptor, is here what the pool does.
\<close>

section \<open>The accept loop among the threads\<close>

datatype accept_pc =
    A_Accept                                  \<comment> \<open>in front of \<open>accept\<close>\<close>
  | A_Submitting int "send_event list" nat    \<comment> \<open>in \<open>thread_pool_submit\<close>; what had been accepted before\<close>
  | A_Stopping                                \<comment> \<open>in \<open>thread_pool_shutdown\<close>\<close>
  | A_Destroying                              \<comment> \<open>in \<open>server_destroy\<close>\<close>

record ProgramState =
  pg_server :: ServerState
  pg_pc :: accept_pc
  pg_events :: "accept_event list"     \<comment> \<open>the outcomes of submissions in it are not looked at\<close>
  pg_env :: env                        \<comment> \<open>outcomes of the library calls of this thread\<close>
  pg_actions :: "server_action list"

abbreviation pool_owner :: "ProgramState \<Rightarrow> owner_pc" where
  "pool_owner s \<equiv> owner (st_pool (pg_server s))"

abbreviation pool_accepted :: "ProgramState \<Rightarrow> int list" where
  "pool_accepted s \<equiv> PoolState.accepted (st_pool (pg_server s))"

definition owner_calls :: "owner_pc \<Rightarrow> ServerState \<Rightarrow> ServerState" where
  "owner_calls pc sv = sv\<lparr>st_pool := (st_pool sv)\<lparr>owner := pc\<rparr>\<rparr>"

fun loop_ends :: "accept_event list \<Rightarrow> bool" where
  "loop_ends [] \<longleftrightarrow> True"
| "loop_ends (Shutdown_Requested # evs) \<longleftrightarrow> True"
| "loop_ends (Accept_Failed # evs) \<longleftrightarrow> True"
| "loop_ends _ \<longleftrightarrow> False"

inductive program_step :: "env set \<Rightarrow> (int \<Rightarrow> connection) \<Rightarrow> ProgramState \<Rightarrow> ProgramState \<Rightarrow> bool" for envs peer where
  pg_threads: "server_step envs peer (pg_server s) sv \<Longrightarrow> pool_owner s = O_Idle \<Longrightarrow> owner (st_pool sv) = O_Idle \<Longrightarrow>
    program_step envs peer s (s\<lparr>pg_server := sv\<rparr>)"
| pg_operation: "server_step envs peer (pg_server s) sv \<Longrightarrow> pool_owner s \<noteq> O_Idle \<Longrightarrow>
    program_step envs peer s (s\<lparr>pg_server := sv\<rparr>)"
| pg_submit: "pg_pc s = A_Accept \<Longrightarrow> pool_owner s = O_Idle \<Longrightarrow> pg_events s = Connection client_fd b ss # evs \<Longrightarrow>
    server_set_client_socket_timeouts (pg_env s) = (True, e) \<Longrightarrow>
    program_step envs peer s (s\<lparr>pg_server := owner_calls (O_SubmitLock client_fd) (pg_server s),
      pg_pc := A_Submitting client_fd ss (length (pool_accepted s)), pg_events := evs, pg_env := e\<rparr>)"
| pg_no_timeouts: "pg_pc s = A_Accept \<Longrightarrow> pool_owner s = O_Idle \<Longrightarrow> pg_events s = Connection client_fd b ss # evs \<Longrightarrow>
    server_set_client_socket_timeouts (pg_env s) = (False, e) \<Longrightarrow>
    program_step envs peer s (s\<lparr>pg_events := evs, pg_env := e, pg_actions := pg_actions s @ [Close client_fd]\<rparr>)"
| pg_interrupted: "pg_pc s = A_Accept \<Longrightarrow> pool_owner s = O_Idle \<Longrightarrow> pg_events s = Accept_Interrupted # evs \<Longrightarrow>
    program_step envs peer s (s\<lparr>pg_events := evs\<rparr>)"
| pg_stop: "pg_pc s = A_Accept \<Longrightarrow> pool_owner s = O_Idle \<Longrightarrow> loop_ends (pg_events s) \<Longrightarrow>
    program_step envs peer s (s\<lparr>pg_server := owner_calls (O_ShutdownLock False) (pg_server s), pg_pc := A_Stopping\<rparr>)"
| pg_submitted: "pg_pc s = A_Submitting client_fd ss n \<Longrightarrow> pool_owner s = O_Idle \<Longrightarrow> length (pool_accepted s) \<noteq> n \<Longrightarrow>
    program_step envs peer s (s\<lparr>pg_pc := A_Accept, pg_actions := pg_actions s @ [To_Pool client_fd]\<rparr>)"
| pg_refused: "pg_pc s = A_Submitting client_fd ss n \<Longrightarrow> pool_owner s = O_Idle \<Longrightarrow> length (pool_accepted s) = n \<Longrightarrow>
    send_error_body 503 ''queue_full'' ''Server is busy'' ss (pg_env s) = Some (sent, e) \<Longrightarrow>
    program_step envs peer s (s\<lparr>pg_pc := A_Accept, pg_env := e, pg_actions := pg_actions s @ [Refused client_fd sent, Close client_fd]\<rparr>)"
| pg_destroy: "pg_pc s = A_Stopping \<Longrightarrow> pool_owner s = O_Idle \<Longrightarrow>
    program_step envs peer s (s\<lparr>pg_server := owner_calls (O_ShutdownLock True) (pg_server s), pg_pc := A_Destroying,
      pg_actions := pg_actions s @ [Pool_Shutdown]\<rparr>)"

text \<open>A run from a created server, with what the accept loop meets and the outcomes of its library calls.\<close>

inductive program_reach :: "env set \<Rightarrow> (int \<Rightarrow> connection) \<Rightarrow> accept_event list \<Rightarrow> env \<Rightarrow> ProgramState \<Rightarrow> bool" for envs peer evs e0 where
  prg_init: "server_create (Some cfg) e = Some (Some server, h, fds, e') \<Longrightarrow> server_threads server = Some sv \<Longrightarrow>
    program_reach envs peer evs e0 \<lparr>pg_server = sv, pg_pc = A_Accept, pg_events = evs, pg_env = e0, pg_actions = []\<rparr>"
| prg_step: "program_reach envs peer evs e0 s \<Longrightarrow> program_step envs peer s s' \<Longrightarrow> program_reach envs peer evs e0 s'"

inductive_cases program_stepE: "program_step envs peer s s'"

section \<open>The program is a run of the server\<close>

lemma owner_calls_step:
  assumes "owner (st_pool sv) = O_Idle" and "pc = O_SubmitLock fd \<or> pc = O_ShutdownLock d"
  shows "server_step envs peer sv (owner_calls pc sv)"
proof -
  have "owner_step (st_pool sv) ((st_pool sv)\<lparr>owner := pc\<rparr>)"
    using o_submit [OF assms(1), of fd] o_shutdown [OF assms(1), of d] assms(2) by auto
  then have "pool_step (st_pool sv) ((st_pool sv)\<lparr>owner := pc\<rparr>)" by (simp add: pool_step_def thread_step_def)
  from st_thread [OF this] show ?thesis by (simp add: owner_calls_def)
qed

lemma program_server: "program_reach envs peer evs e0 s \<Longrightarrow> server_reach envs peer (pg_server s)"
proof (induction rule: program_reach.induct)
  case (prg_init cfg e server h fds e' sv)
  then show ?case using srv_init by simp
next
  case (prg_step s s')
  have "pg_server s' = pg_server s \<or> server_step envs peer (pg_server s) (pg_server s')"
    using prg_step(2) by (rule program_stepE) (auto intro: owner_calls_step)
  then show ?case using prg_step(3) srv_step by metis
qed

section \<open>What the accept loop does\<close>

text \<open>The sequential loop with the outcomes of the submissions filled in.\<close>

fun open_event :: "accept_event \<Rightarrow> accept_event" where
  "open_event (Connection fd b ss) = Connection fd False ss"
| "open_event ev = ev"

definition loop_so_far :: "accept_event list \<Rightarrow> env \<Rightarrow> server_action list \<Rightarrow> env \<Rightarrow> bool" where
  "loop_so_far evs e as e' \<longleftrightarrow>
     (\<forall>rest. server_run_loop (evs @ rest) e = do { (bs, e'') \<leftarrow> server_run_loop rest e'; Some (as @ bs, e'') })"

lemma loop_so_far_Nil: "loop_so_far [] e [] e"
  by (auto simp: loop_so_far_def split: bind_splits)

lemma loop_so_far_step:
  assumes "loop_so_far evs e as e'"
    and "\<And>rest. server_run_loop (ev # rest) e' = do { (bs, e2) \<leftarrow> server_run_loop rest e''; Some (new @ bs, e2) }"
  shows "loop_so_far (evs @ [ev]) e (as @ new) e''"
  using assms unfolding loop_so_far_def by (auto split: bind_splits)

lemma loop_so_far_ends:
  assumes "loop_so_far evs e as e'" and "loop_ends rest"
  shows "server_run_loop (evs @ rest) e = Some (as, e')"
  using assms(1) spec [OF assms(1) [unfolded loop_so_far_def], of rest] assms(2) by (cases rest rule: loop_ends.cases) simp_all

text \<open>The owner in the middle of a submission, and behind the decision to destroy the pool.\<close>

fun submitting :: "owner_pc \<Rightarrow> bool" where
  "submitting (O_SubmitLock fd) \<longleftrightarrow> True"
| "submitting (O_Submit fd) \<longleftrightarrow> True"
| "submitting pc \<longleftrightarrow> False"

fun destroying :: "owner_pc \<Rightarrow> bool" where
  "destroying (O_ShutdownLock d) \<longleftrightarrow> d"
| "destroying (O_Shutdown d) \<longleftrightarrow> d"
| "destroying (O_Broadcast d) \<longleftrightarrow> d"
| "destroying (O_ShutdownUnlock d) \<longleftrightarrow> d"
| "destroying (O_Join k) \<longleftrightarrow> True"
| "destroying O_Destroyed \<longleftrightarrow> True"
| "destroying pc \<longleftrightarrow> False"

fun submission_ok :: "int \<Rightarrow> int list \<Rightarrow> owner_pc \<Rightarrow> int list \<Rightarrow> bool" where
  "submission_ok fd before (O_SubmitLock fd') acc \<longleftrightarrow> fd' = fd \<and> acc = before"
| "submission_ok fd before (O_Submit fd') acc \<longleftrightarrow> fd' = fd \<and> acc = before"
| "submission_ok fd before O_Signal acc \<longleftrightarrow> acc = before @ [fd]"
| "submission_ok fd before O_SubmitUnlock acc \<longleftrightarrow> acc = before \<or> acc = before @ [fd]"
| "submission_ok fd before O_Idle acc \<longleftrightarrow> acc = before \<or> acc = before @ [fd]"
| "submission_ok fd before pc acc \<longleftrightarrow> False"

lemma pool_step_calm:
  assumes "pool_step p p'" and "\<not> submitting (owner p)" and "owner p = O_Idle \<longrightarrow> owner p' = O_Idle"
  shows "\<not> submitting (owner p') \<and> PoolState.accepted p' = PoolState.accepted p \<and> (destroying (owner p') \<longleftrightarrow> destroying (owner p))"
  using assms by (auto simp: pool_step_def thread_step_def elim!: worker_stepE owner_stepE spurious_stepE split: if_splits)

lemma pool_step_submission:
  assumes "pool_step p p'" and "submission_ok fd before (owner p) (PoolState.accepted p)" and "owner p = O_Idle \<longrightarrow> owner p' = O_Idle"
  shows "submission_ok fd before (owner p') (PoolState.accepted p')"
  using assms by (auto simp: pool_step_def thread_step_def elim!: worker_stepE owner_stepE spurious_stepE)

definition program_inv :: "accept_event list \<Rightarrow> env \<Rightarrow> ProgramState \<Rightarrow> bool" where
  "program_inv evs e0 s \<longleftrightarrow>
     (case pg_pc s of
        A_Accept \<Rightarrow> \<not> submitting (pool_owner s) \<and> \<not> destroying (pool_owner s) \<and> concat (map pooled (pg_actions s)) = pool_accepted s \<and>
          (\<exists>met. map open_event (met @ pg_events s) = map open_event evs \<and> loop_so_far met e0 (pg_actions s) (pg_env s))
      | A_Submitting fd ss n \<Rightarrow> submission_ok fd (concat (map pooled (pg_actions s))) (pool_owner s) (pool_accepted s) \<and>
          n = length (concat (map pooled (pg_actions s))) \<and>
          (\<exists>met e. map open_event (met @ Connection fd False ss # pg_events s) = map open_event evs \<and> loop_so_far met e0 (pg_actions s) e \<and>
             server_set_client_socket_timeouts e = (True, pg_env s))
      | A_Stopping \<Rightarrow> \<not> submitting (pool_owner s) \<and> \<not> destroying (pool_owner s) \<and> concat (map pooled (pg_actions s)) = pool_accepted s \<and>
          (\<exists>evs'. map open_event evs' = map open_event evs \<and> server_run_loop evs' e0 = Some (pg_actions s, pg_env s))
      | A_Destroying \<Rightarrow> \<not> submitting (pool_owner s) \<and> destroying (pool_owner s) \<and> concat (map pooled (pg_actions s)) = pool_accepted s \<and>
          (\<exists>evs' as. map open_event evs' = map open_event evs \<and> server_run_loop evs' e0 = Some (as, pg_env s) \<and> pg_actions s = as @ [Pool_Shutdown]))"

lemma inv_acceptI:
  assumes "pg_pc s = A_Accept" and "\<not> submitting (pool_owner s)" and "\<not> destroying (pool_owner s)"
    and "concat (map pooled (pg_actions s)) = pool_accepted s"
    and "map open_event (met @ pg_events s) = map open_event evs" and "loop_so_far met e0 (pg_actions s) (pg_env s)"
  shows "program_inv evs e0 s"
  unfolding program_inv_def assms(1) accept_pc.case using assms(2-6) by blast

lemma program_inv_threads:
  assumes inv: "program_inv evs e0 s" and step: "server_step envs peer (pg_server s) sv"
    and idle: "pool_owner s = O_Idle \<longrightarrow> owner (st_pool sv) = O_Idle"
  shows "program_inv evs e0 (s\<lparr>pg_server := sv\<rparr>)"
proof (cases "st_pool sv = st_pool (pg_server s)")
  case True
  then show ?thesis using inv by (cases "pg_pc s") (simp_all add: program_inv_def)
next
  case False
  then have p: "pool_step (st_pool (pg_server s)) (st_pool sv)" using server_step_pool [OF step] by simp
  show ?thesis
  proof (cases "pg_pc s")
    case (A_Submitting fd ss n)
    then have "submission_ok fd (concat (map pooled (pg_actions s))) (pool_owner s) (pool_accepted s)" using inv by (simp add: program_inv_def)
    from pool_step_submission [OF p this idle] show ?thesis using inv A_Submitting by (simp add: program_inv_def)
  qed (use inv pool_step_calm [OF p _ idle] in \<open>auto simp: program_inv_def\<close>)
qed

lemma program_inv_step:
  assumes inv: "program_inv evs e0 s" and step: "program_step envs peer s s'"
  shows "program_inv evs e0 s'"
  using step
proof (cases rule: program_step.cases)
  case (pg_threads sv)
  then show ?thesis using program_inv_threads [OF inv] by simp
next
  case (pg_operation sv)
  then show ?thesis using program_inv_threads [OF inv] by simp
next
  case (pg_submit fd b ss rest e)
  then obtain met where met: "map open_event (met @ pg_events s) = map open_event evs" "loop_so_far met e0 (pg_actions s) (pg_env s)"
    "concat (map pooled (pg_actions s)) = pool_accepted s" using inv by (auto simp: program_inv_def)
  then have "map open_event (met @ Connection fd False ss # rest) = map open_event evs" using pg_submit(4) by simp
  then show ?thesis using pg_submit met by (auto simp: program_inv_def owner_calls_def)
next
  case (pg_no_timeouts fd b ss rest e)
  then obtain met where met: "map open_event (met @ pg_events s) = map open_event evs" "loop_so_far met e0 (pg_actions s) (pg_env s)"
    using inv by (auto simp: program_inv_def)
  have "loop_so_far (met @ [Connection fd b ss]) e0 (pg_actions s @ [Close fd]) e"
    by (rule loop_so_far_step [OF met(2)]) (simp add: pg_no_timeouts(5))
  moreover have "map open_event ((met @ [Connection fd b ss]) @ rest) = map open_event evs" using met(1) pg_no_timeouts(4) by simp
  moreover have "\<not> submitting (pool_owner s) \<and> \<not> destroying (pool_owner s) \<and> concat (map pooled (pg_actions s)) = pool_accepted s"
    using inv pg_no_timeouts(2) by (simp add: program_inv_def)
  ultimately show ?thesis using pg_no_timeouts(1,2) by (intro inv_acceptI [of s' "met @ [Connection fd b ss]"]) simp_all
next
  case (pg_interrupted rest)
  then obtain met where met: "map open_event (met @ pg_events s) = map open_event evs" "loop_so_far met e0 (pg_actions s) (pg_env s)"
    using inv by (auto simp: program_inv_def)
  have "loop_so_far (met @ [Accept_Interrupted]) e0 (pg_actions s @ []) (pg_env s)"
    by (rule loop_so_far_step [OF met(2)]) (auto split: bind_splits)
  moreover have "map open_event ((met @ [Accept_Interrupted]) @ rest) = map open_event evs" using met(1) pg_interrupted(4) by simp
  moreover have "\<not> submitting (pool_owner s) \<and> \<not> destroying (pool_owner s) \<and> concat (map pooled (pg_actions s)) = pool_accepted s"
    using inv pg_interrupted(2) by (simp add: program_inv_def)
  ultimately show ?thesis using pg_interrupted(1,2) by (intro inv_acceptI [of s' "met @ [Accept_Interrupted]"]) simp_all
next
  case pg_stop
  then obtain met where met: "map open_event (met @ pg_events s) = map open_event evs" "loop_so_far met e0 (pg_actions s) (pg_env s)"
    "concat (map pooled (pg_actions s)) = pool_accepted s" using inv by (auto simp: program_inv_def)
  note r = loop_so_far_ends [OF met(2) pg_stop(4)]
  show ?thesis using pg_stop(1) met(1,3) r by (auto simp: program_inv_def owner_calls_def simp del: map_append)
next
  case (pg_submitted fd ss n)
  then obtain met e where met: "map open_event (met @ Connection fd False ss # pg_events s) = map open_event evs" "loop_so_far met e0 (pg_actions s) e"
    "server_set_client_socket_timeouts e = (True, pg_env s)" and acc: "pool_accepted s = concat (map pooled (pg_actions s)) @ [fd]"
    using inv by (auto simp: program_inv_def)
  have "loop_so_far (met @ [Connection fd True ss]) e0 (pg_actions s @ [To_Pool fd]) (pg_env s)"
    by (rule loop_so_far_step [OF met(2)]) (simp add: met(3))
  moreover have "map open_event ((met @ [Connection fd True ss]) @ pg_events s) = map open_event evs" using met(1) by simp
  ultimately show ?thesis using pg_submitted(1,3) acc by (intro inv_acceptI [of s' "met @ [Connection fd True ss]"]) simp_all
next
  case (pg_refused fd ss n sent e1)
  then obtain met e where met: "map open_event (met @ Connection fd False ss # pg_events s) = map open_event evs" "loop_so_far met e0 (pg_actions s) e"
    "server_set_client_socket_timeouts e = (True, pg_env s)" and acc: "pool_accepted s = concat (map pooled (pg_actions s))"
    using inv by (auto simp: program_inv_def)
  have "loop_so_far (met @ [Connection fd False ss]) e0 (pg_actions s @ [Refused fd sent, Close fd]) e1"
    by (rule loop_so_far_step [OF met(2)]) (simp add: met(3) pg_refused(5))
  moreover have "map open_event ((met @ [Connection fd False ss]) @ pg_events s) = map open_event evs" using met(1) by simp
  ultimately show ?thesis using pg_refused(1,3) acc by (intro inv_acceptI [of s' "met @ [Connection fd False ss]"]) simp_all
next
  case pg_destroy
  then show ?thesis using inv by (auto simp: program_inv_def owner_calls_def)
qed

lemma program_reach_inv: "program_reach envs peer evs e0 s \<Longrightarrow> program_inv evs e0 s"
proof (induction rule: program_reach.induct)
  case (prg_init cfg e server h fds e' sv)
  then have "owner (st_pool sv) = O_Idle \<and> PoolState.accepted (st_pool sv) = []" using server_init(8,9) by blast
  moreover have "map open_event ([] @ evs) = map open_event evs \<and> loop_so_far [] e0 [] e0" by (simp add: loop_so_far_Nil)
  ultimately show ?case unfolding program_inv_def by (auto intro!: exI [of _ "[]"] simp: loop_so_far_Nil)
qed (rule program_inv_step)

section \<open>The loop goes on\<close>

text \<open>What the loop can meet next.\<close>

lemma next_event_cases:
  obtains (Nothing) "evs = []"
    | (Requested) rest where "evs = Shutdown_Requested # rest"
    | (Failed) rest where "evs = Accept_Failed # rest"
    | (Arrived) fd b ss rest where "evs = Connection fd b ss # rest"
    | (Interrupted) rest where "evs = Accept_Interrupted # rest"
  by (rule loop_ends.cases)

lemma idle_program_goes_on:
  assumes r: "program_reach envs peer evs e0 s" and idle: "pool_owner s = O_Idle"
  shows "\<exists>s'. program_step envs peer s s'"
proof (cases "pg_pc s")
  case A_Accept
  show ?thesis
  proof (cases "pg_events s" rule: next_event_cases)
    case (Arrived fd b ss rest)
    obtain ok e where t: "server_set_client_socket_timeouts (pg_env s) = (ok, e)" by (cases "server_set_client_socket_timeouts (pg_env s)")
    show ?thesis
    proof (cases ok)
      case True
      then have "server_set_client_socket_timeouts (pg_env s) = (True, e)" using t by simp
      from pg_submit [OF A_Accept idle Arrived this] show ?thesis by blast
    next
      case False
      then have "server_set_client_socket_timeouts (pg_env s) = (False, e)" using t by simp
      from pg_no_timeouts [OF A_Accept idle Arrived this] show ?thesis by blast
    qed
  next
    case (Interrupted rest)
    then show ?thesis using pg_interrupted [OF A_Accept idle Interrupted] by blast
  qed (use pg_stop [OF A_Accept idle] in auto)
next
  case (A_Submitting fd ss n)
  obtain sent e where "send_error_body 503 ''queue_full'' ''Server is busy'' ss (pg_env s) = Some (sent, e)" using refuse_client by blast
  then show ?thesis using pg_submitted [OF A_Submitting idle] pg_refused [OF A_Submitting idle] by blast
next
  case A_Stopping
  then show ?thesis using pg_destroy [OF A_Stopping idle] by blast
next
  case A_Destroying
  then show ?thesis using program_reach_inv [OF r] idle by (simp add: program_inv_def)
qed

lemma program_goes_on:
  assumes "program_reach envs peer evs e0 s" and "[] \<in> envs" and "ids_left (st_calls (pg_server s))"
    and "pool_owner s \<noteq> O_Destroyed"
  shows "\<exists>s'. program_step envs peer s s'"
proof (cases "pool_owner s = O_Idle")
  case True
  then show ?thesis by (rule idle_program_goes_on [OF assms(1)])
next
  case False
  then obtain sv where "server_step envs peer (pg_server s) sv"
    using server_progress [OF program_server [OF assms(1)] assms(2-4)] by (auto simp: server_thread_step_def)
  then show ?thesis using pg_operation False by blast
qed

section \<open>Events\<close>

lemma accepted_open: "Server_Correct.accepted (map open_event evs) = Server_Correct.accepted evs"
proof (induction evs)
  case (Cons ev evs)
  then show ?case by (cases ev) simp_all
qed simp

lemma receive_Cons: "clients_receive (ev # evs) \<longleftrightarrow> (\<forall>fd b ss. ev = Connection fd b ss \<longrightarrow> sendable ss) \<and> clients_receive evs"
  by (auto simp: clients_receive_def)

lemma receive_open: "clients_receive (map open_event evs) \<longleftrightarrow> clients_receive evs"
proof (induction evs)
  case (Cons ev evs)
  then show ?case by (cases ev) (auto simp: receive_Cons)
qed (simp add: clients_receive_def)

end
