(* ===== verification/Server_Play.thy ===== *)
theory Server_Play
  imports Server_Program
begin

text \<open>
  The steps of the pool, of the running server and of the program as functions, one for each choice
  of the scheduler, so that sample runs can be evaluated; every move is a step.
\<close>

section \<open>Moves of the pool\<close>

text \<open>The handler is not a move of the pool but of the server.\<close>

definition worker_move :: "nat \<Rightarrow> PoolState \<Rightarrow> PoolState option" where
  "worker_move i s =
     (if i < length (workers s) then
        (case workers s ! i of
           W_Lock \<Rightarrow> if mutex s = None then Some ((set_worker s i W_Test)\<lparr>mutex := Some (Worker i)\<rparr>) else None
         | W_Test \<Rightarrow>
             if tp_size (pool s) \<noteq> 0
             then do { (fd, p) \<leftarrow> pool_dequeue (pool s); Some ((set_worker s i (W_Taken fd))\<lparr>pool := p, taken := taken s @ [fd]\<rparr>) }
             else Some (set_worker s i (if tp_stop_requested (pool s) then W_Exit else W_ToWait))
         | W_ToWait \<Rightarrow> Some ((set_worker s i W_Waiting)\<lparr>mutex := None\<rparr>)
         | W_Waiting \<Rightarrow> None
         | W_Woken \<Rightarrow> if mutex s = None then Some ((set_worker s i W_Test)\<lparr>mutex := Some (Worker i)\<rparr>) else None
         | W_Exit \<Rightarrow> Some ((set_worker s i W_Done)\<lparr>mutex := None\<rparr>)
         | W_Taken fd \<Rightarrow> Some ((set_worker s i (W_Handle fd))\<lparr>mutex := None\<rparr>)
         | W_Handle fd \<Rightarrow> None
         | W_Close fd \<Rightarrow> Some ((set_worker s i W_Lock)\<lparr>closed := closed s @ [fd]\<rparr>)
         | W_Done \<Rightarrow> None)
      else None)"

text \<open>What the owner does next with the pool, where it has a choice.\<close>

datatype owner_choice = Submit int | Destroy

definition owner_move :: "owner_choice \<Rightarrow> PoolState \<Rightarrow> PoolState option" where
  "owner_move choice s =
     (case owner s of
        O_Create \<Rightarrow>
          if length (workers s) < tp_worker_count (pool s) then Some (s\<lparr>workers := workers s @ [W_Lock]\<rparr>)
          else if length (workers s) = tp_worker_count (pool s) then Some (s\<lparr>owner := O_Idle\<rparr>) else None
      | O_Idle \<Rightarrow> Some (s\<lparr>owner := (case choice of Submit fd \<Rightarrow> O_SubmitLock fd | Destroy \<Rightarrow> O_ShutdownLock True)\<rparr>)
      | O_SubmitLock fd \<Rightarrow> if mutex s = None then Some (s\<lparr>owner := O_Submit fd, mutex := Some Owner\<rparr>) else None
      | O_Submit fd \<Rightarrow>
          if \<not> tp_stop_requested (pool s) \<and> tp_size (pool s) < tp_queue_capacity (pool s)
          then do { p \<leftarrow> pool_enqueue (pool s) fd; Some (s\<lparr>pool := p, accepted := PoolState.accepted s @ [fd], owner := O_Signal\<rparr>) }
          else Some (s\<lparr>owner := O_SubmitUnlock\<rparr>)
      | O_Signal \<Rightarrow>
          (case find (\<lambda>i. workers s ! i = W_Waiting) [0..<length (workers s)] of
             None \<Rightarrow> Some (s\<lparr>owner := O_SubmitUnlock\<rparr>)
           | Some i \<Rightarrow> Some ((set_worker s i W_Woken)\<lparr>owner := O_SubmitUnlock\<rparr>))
      | O_SubmitUnlock \<Rightarrow> Some (s\<lparr>owner := O_Idle, mutex := None\<rparr>)
      | O_ShutdownLock d \<Rightarrow> if mutex s = None then Some (s\<lparr>owner := O_Shutdown d, mutex := Some Owner\<rparr>) else None
      | O_Shutdown d \<Rightarrow> Some (s\<lparr>pool := (pool s)\<lparr>tp_stop_requested := True\<rparr>, owner := O_Broadcast d\<rparr>)
      | O_Broadcast d \<Rightarrow> Some (s\<lparr>workers := map wake (workers s), owner := O_ShutdownUnlock d\<rparr>)
      | O_ShutdownUnlock d \<Rightarrow> Some (s\<lparr>owner := (if d then O_Join 0 else O_Idle), mutex := None\<rparr>)
      | O_Join k \<Rightarrow>
          if k < tp_worker_count (pool s)
          then if k < length (workers s) \<and> workers s ! k = W_Done then Some (s\<lparr>owner := O_Join (Suc k)\<rparr>) else None
          else if k = tp_worker_count (pool s) then Some (s\<lparr>pool := cleared_pool, owner := O_Destroyed\<rparr>) else None
      | _ \<Rightarrow> None)"

lemma worker_move_step: "worker_move i s = Some s' \<Longrightarrow> worker_step i s s' \<and> handled s' = handled s"
  by (auto simp: worker_move_def split: if_splits worker_pc.splits bind_splits intro: worker_step.intros)

lemma owner_move_step:
  assumes "owner_move choice s = Some s'"
  shows "owner_step s s' \<and> handled s' = handled s"
proof (cases "owner s")
  case O_Signal
  show ?thesis
  proof (cases "find (\<lambda>i. workers s ! i = W_Waiting) [0..<length (workers s)]")
    case None
    then have "W_Waiting \<notin> set (workers s)" by (auto simp: find_None_iff in_set_conv_nth)
    then show ?thesis using o_signal_nobody [OF O_Signal] assms None O_Signal by (auto simp: owner_move_def)
  next
    case (Some i)
    then have "i < length (workers s)" "workers s ! i = W_Waiting" by (auto simp: find_Some_iff)
    then show ?thesis using o_signal [OF O_Signal] assms Some O_Signal by (auto simp: owner_move_def)
  qed
next
  case (O_ShutdownUnlock d)
  then show ?thesis using o_shutdown_unlock [OF O_ShutdownUnlock] assms by (cases d) (auto simp: owner_move_def)
qed (use assms in \<open>auto simp: owner_move_def split: if_splits bind_splits owner_choice.splits intro: owner_step.intros\<close>)

section \<open>Moves of the server\<close>

datatype move =
    Worker_Goes nat
  | Owner_Goes owner_choice
  | Call_Begins nat
  | Call_Goes nat
  | Reply_Sent nat

text \<open>\<open>route\<close> is what \<open>request_op\<close> makes of the requests. The texts of the replies are left out.\<close>

type_synonym routes = "int \<Rightarrow> (SQLCommand \<times> table_op) option"

definition handled_fd :: "PoolState \<Rightarrow> nat \<Rightarrow> int option" where
  "handled_fd p i = do { pc \<leftarrow> rd (workers p) i; (case pc of W_Handle fd \<Rightarrow> Some fd | _ \<Rightarrow> None) }"

fun server_move :: "routes \<Rightarrow> move \<Rightarrow> ServerState \<Rightarrow> ServerState option" where
  "server_move route (Worker_Goes i) s = do { p \<leftarrow> worker_move i (st_pool s); Some (s\<lparr>st_pool := p\<rparr>) }"
| "server_move route (Owner_Goes choice) s = do { p \<leftarrow> owner_move choice (st_pool s); Some (s\<lparr>st_pool := p\<rparr>) }"
| "server_move route (Call_Begins i) s =
     do { fd \<leftarrow> handled_fd (st_pool s) i;
          (c, op) \<leftarrow> route fd;
          if st_call_of s i = None
          then Some (s\<lparr>st_calls := invoke op (st_calls s), st_call_of := (st_call_of s)(i := Some (length (cs_calls (st_calls s))))\<rparr>)
          else None }"
| "server_move route (Call_Goes k) s = do { cs \<leftarrow> advance k [] (st_calls s); Some (s\<lparr>st_calls := cs\<rparr>) }"
| "server_move route (Reply_Sent i) s =
     do { fd \<leftarrow> handled_fd (st_pool s) i;
          (case route fd of
             None \<Rightarrow> Some (s\<lparr>st_pool := leave_handler i fd (st_pool s), st_replies := st_replies s @ [(fd, None, [])]\<rparr>)
           | Some _ \<Rightarrow>
               do { k \<leftarrow> st_call_of s i;
                    pc \<leftarrow> rd (cs_calls (st_calls s)) k;
                    (case pc of
                       Returned res \<Rightarrow> Some (s\<lparr>st_pool := leave_handler i fd (st_pool s), st_call_of := (st_call_of s)(i := None),
                                              st_replies := st_replies s @ [(fd, Some k, [])]\<rparr>)
                     | _ \<Rightarrow> None) }) }"

fun server_play :: "routes \<Rightarrow> move list \<Rightarrow> ServerState \<Rightarrow> ServerState option" where
  "server_play route [] s = Some s"
| "server_play route (m # ms) s = do { s' \<leftarrow> server_move route m s; server_play route ms s' }"

lemma handled_fd_Some: "handled_fd p i = Some fd \<Longrightarrow> handling p i fd"
  by (auto simp: handled_fd_def handling_def rd_def split: bind_splits if_splits worker_pc.splits)

text \<open>A played state stands for a reachable one that differs in the texts only.\<close>

definition without_text :: "int \<times> nat option \<times> string \<Rightarrow> int \<times> nat option" where
  "without_text r = (fst r, fst (snd r))"

definition stands_for :: "ServerState \<Rightarrow> ServerState \<Rightarrow> bool" where
  "stands_for a s \<longleftrightarrow> st_pool a = st_pool s \<and> st_calls a = st_calls s \<and> st_call_of a = st_call_of s \<and>
     map without_text (st_replies a) = map without_text (st_replies s)"

lemma server_move_step:
  assumes route: "\<And>fd. route fd = request_op (fst (peer fd))" and r: "server_reach {[]} peer s" and same: "stands_for a s"
    and move: "server_move route m a = Some a'"
  shows "\<exists>s'. server_step {[]} peer s s' \<and> stands_for a' s'"
proof -
  have eq: "st_pool a = st_pool s" "st_calls a = st_calls s" "st_call_of a = st_call_of s"
    "map without_text (st_replies a) = map without_text (st_replies s)" using same by (simp_all add: stands_for_def)
  show ?thesis
  proof (cases m)
    case (Worker_Goes i)
    then obtain p where p: "worker_move i (st_pool s) = Some p" "a' = a\<lparr>st_pool := p\<rparr>" using move eq by (auto split: bind_splits)
    then have "pool_step (st_pool s) p" "handled p = handled (st_pool s)" using worker_move_step by (auto simp: pool_step_def thread_step_def)
    from st_thread [OF this] show ?thesis using p(2) eq by (auto simp: stands_for_def intro!: exI)
  next
    case (Owner_Goes choice)
    then obtain p where p: "owner_move choice (st_pool s) = Some p" "a' = a\<lparr>st_pool := p\<rparr>" using move eq by (auto split: bind_splits)
    then have "pool_step (st_pool s) p" "handled p = handled (st_pool s)" using owner_move_step by (auto simp: pool_step_def thread_step_def)
    from st_thread [OF this] show ?thesis using p(2) eq by (auto simp: stands_for_def intro!: exI)
  next
    case (Call_Begins i)
    then obtain fd c op where m: "handled_fd (st_pool s) i = Some fd" "route fd = Some (c, op)" "st_call_of s i = None"
      "a' = a\<lparr>st_calls := invoke op (st_calls s), st_call_of := (st_call_of s)(i := Some (length (cs_calls (st_calls s))))\<rparr>"
      using move eq by (auto split: bind_splits if_splits)
    from st_begin [where s = s and peer = peer, OF handled_fd_Some [OF m(1)] m(3) m(2) [unfolded route]]
    show ?thesis using m(4) eq by (auto simp: stands_for_def intro!: exI)
  next
    case (Call_Goes k)
    then obtain cs where cs: "advance k [] (st_calls s) = Some cs" "a' = a\<lparr>st_calls := cs\<rparr>" using move eq by (auto split: bind_splits)
    then have "k < length (cs_calls (st_calls s))" by (auto simp: advance_def rd_def split: bind_splits if_splits)
    from st_table [OF this _ harmless_empty cs(1)] have "server_step {[]} peer s (s\<lparr>st_calls := cs\<rparr>)" by simp
    then show ?thesis using cs(2) eq by (auto simp: stands_for_def intro!: exI)
  next
    case (Reply_Sent i)
    then obtain fd where fd: "handled_fd (st_pool s) i = Some fd" using move eq by (auto split: bind_splits)
    note h = handled_fd_Some [OF fd]
    show ?thesis
    proof (cases "request_op (fst (peer fd))")
      case None
      then have a': "a' = a\<lparr>st_pool := leave_handler i fd (st_pool s), st_replies := st_replies a @ [(fd, None, [])]\<rparr>"
        using Reply_Sent fd move eq route by simp
      obtain sent where "server_step {[]} peer s (s\<lparr>st_pool := leave_handler i fd (st_pool s), st_replies := st_replies s @ [(fd, None, sent)]\<rparr>)"
        using local_replies [where s = s and peer = peer, OF h None] by blast
      then show ?thesis using a' eq by (auto simp: stands_for_def without_text_def intro!: exI)
    next
      case (Some co)
      then obtain k res where k: "st_call_of s i = Some k" "cs_calls (st_calls s) ! k = Returned res"
        "a' = a\<lparr>st_pool := leave_handler i fd (st_pool s), st_call_of := (st_call_of s)(i := None), st_replies := st_replies a @ [(fd, Some k, [])]\<rparr>"
        using Reply_Sent fd move eq route by (auto simp: rd_def split: bind_splits if_splits call_pc.splits)
      obtain sent where "server_step {[]} peer s (s\<lparr>st_pool := leave_handler i fd (st_pool s), st_call_of := (st_call_of s)(i := None),
          st_replies := st_replies s @ [(fd, Some k, sent)]\<rparr>)"
        using returned_replies [OF r h k(1,2)] by blast
      then show ?thesis using k(3) eq by (auto simp: stands_for_def without_text_def intro!: exI)
    qed
  qed
qed

lemma server_play_steps:
  assumes route: "\<And>fd. route fd = request_op (fst (peer fd))"
  shows "server_play route ms a = Some a' \<Longrightarrow> server_reach {[]} peer s \<Longrightarrow> stands_for a s \<Longrightarrow>
    \<exists>s'. (server_step {[]} peer)\<^sup>*\<^sup>* s s' \<and> server_reach {[]} peer s' \<and> stands_for a' s'"
proof (induction ms arbitrary: a s)
  case (Cons m ms)
  then obtain a1 where a1: "server_move route m a = Some a1" "server_play route ms a1 = Some a'" by (auto split: bind_splits)
  obtain s1 where s1: "server_step {[]} peer s s1" "stands_for a1 s1" using server_move_step [OF route Cons.prems(2,3) a1(1)] by blast
  obtain s' where "(server_step {[]} peer)\<^sup>*\<^sup>* s1 s'" "server_reach {[]} peer s'" "stands_for a' s'"
    using Cons.IH [OF a1(2) srv_step [OF Cons.prems(2) s1(1)] s1(2)] by blast
  then show ?case using s1(1) by (meson converse_rtranclp_into_rtranclp)
qed auto

section \<open>Moves of the program\<close>

text \<open>The accept loop goes on, up to a refusal, or another thread does.\<close>

definition accept_move :: "ProgramState \<Rightarrow> ProgramState option" where
  "accept_move s =
     (case pg_pc s of
        A_Accept \<Rightarrow>
          (case pg_events s of
             Connection client_fd b ss # evs \<Rightarrow>
               (case server_set_client_socket_timeouts (pg_env s) of (ok, e) \<Rightarrow>
                  if ok then Some (s\<lparr>pg_server := owner_calls (O_SubmitLock client_fd) (pg_server s),
                                     pg_pc := A_Submitting client_fd ss (length (pool_accepted s)), pg_events := evs, pg_env := e\<rparr>)
                  else Some (s\<lparr>pg_events := evs, pg_env := e, pg_actions := pg_actions s @ [Close client_fd]\<rparr>))
           | Accept_Interrupted # evs \<Rightarrow> Some (s\<lparr>pg_events := evs\<rparr>)
           | _ \<Rightarrow> Some (s\<lparr>pg_server := owner_calls (O_ShutdownLock False) (pg_server s), pg_pc := A_Stopping\<rparr>))
      | A_Submitting client_fd ss n \<Rightarrow>
          if length (pool_accepted s) \<noteq> n then Some (s\<lparr>pg_pc := A_Accept, pg_actions := pg_actions s @ [To_Pool client_fd]\<rparr>) else None
      | A_Stopping \<Rightarrow> Some (s\<lparr>pg_server := owner_calls (O_ShutdownLock True) (pg_server s), pg_pc := A_Destroying,
                              pg_actions := pg_actions s @ [Pool_Shutdown]\<rparr>)
      | A_Destroying \<Rightarrow> None)"

definition program_move :: "routes \<Rightarrow> move option \<Rightarrow> ProgramState \<Rightarrow> ProgramState option" where
  "program_move route m s =
     (case m of
        None \<Rightarrow> if pool_owner s = O_Idle then accept_move s else None
      | Some m \<Rightarrow> do { sv \<leftarrow> server_move route m (pg_server s);
                       if pool_owner s = O_Idle \<and> owner (st_pool sv) \<noteq> O_Idle then None else Some (s\<lparr>pg_server := sv\<rparr>) })"

fun program_play :: "routes \<Rightarrow> move option list \<Rightarrow> ProgramState \<Rightarrow> ProgramState option" where
  "program_play route [] s = Some s"
| "program_play route (m # ms) s = do { s' \<leftarrow> program_move route m s; program_play route ms s' }"

definition program_stands_for :: "ProgramState \<Rightarrow> ProgramState \<Rightarrow> bool" where
  "program_stands_for a s \<longleftrightarrow> stands_for (pg_server a) (pg_server s) \<and> pg_pc a = pg_pc s \<and> pg_events a = pg_events s \<and>
     pg_env a = pg_env s \<and> pg_actions a = pg_actions s"

lemma accept_move_step:
  assumes idle: "pool_owner s = O_Idle" and same: "program_stands_for a s" and move: "accept_move a = Some a'"
  shows "\<exists>s'. program_step envs peer s s' \<and> program_stands_for a' s'"
proof -
  have eq: "pg_pc a = pg_pc s" "pg_events a = pg_events s" "pg_env a = pg_env s" "pg_actions a = pg_actions s"
    "st_pool (pg_server a) = st_pool (pg_server s)" "stands_for (pg_server a) (pg_server s)"
    using same by (simp_all add: program_stands_for_def stands_for_def)
  have calls: "stands_for (owner_calls pc (pg_server a)) (owner_calls pc (pg_server s))" for pc
    using eq(6) by (simp add: stands_for_def owner_calls_def)
  show ?thesis
  proof (cases "pg_pc s")
    case A_Accept
    show ?thesis
    proof (cases "pg_events s" rule: next_event_cases)
      case (Arrived fd b ss rest)
      obtain ok e where t: "server_set_client_socket_timeouts (pg_env s) = (ok, e)" by (cases "server_set_client_socket_timeouts (pg_env s)")
      show ?thesis
      proof (cases ok)
        case True
        then have t': "server_set_client_socket_timeouts (pg_env s) = (True, e)" using t by simp
        show ?thesis using pg_submit [OF A_Accept idle Arrived t'] move eq calls A_Accept Arrived t'
          by (auto simp: accept_move_def program_stands_for_def intro!: exI)
      next
        case False
        then have t': "server_set_client_socket_timeouts (pg_env s) = (False, e)" using t by simp
        show ?thesis using pg_no_timeouts [OF A_Accept idle Arrived t'] move eq A_Accept Arrived t'
          by (auto simp: accept_move_def program_stands_for_def intro!: exI)
      qed
    next
      case (Interrupted rest)
      then show ?thesis using pg_interrupted [OF A_Accept idle Interrupted] move eq A_Accept
        by (auto simp: accept_move_def program_stands_for_def intro!: exI)
    qed (use pg_stop [OF A_Accept idle] move eq calls A_Accept in \<open>auto simp: accept_move_def program_stands_for_def intro!: exI\<close>)
  next
    case (A_Submitting fd ss n)
    then show ?thesis using pg_submitted [OF A_Submitting idle] move eq
      by (auto simp: accept_move_def program_stands_for_def split: if_splits intro!: exI)
  next
    case A_Stopping
    then show ?thesis using pg_destroy [OF A_Stopping idle] move eq calls
      by (auto simp: accept_move_def program_stands_for_def intro!: exI)
  next
    case A_Destroying
    then show ?thesis using move eq by (simp add: accept_move_def)
  qed
qed

lemma program_move_step:
  assumes route: "\<And>fd. route fd = request_op (fst (peer fd))" and r: "program_reach {[]} peer evs e0 s" and same: "program_stands_for a s"
    and move: "program_move route m a = Some a'"
  shows "\<exists>s'. program_step {[]} peer s s' \<and> program_stands_for a' s'"
proof -
  have eq: "stands_for (pg_server a) (pg_server s)" "pool_owner a = pool_owner s" using same by (simp_all add: program_stands_for_def stands_for_def)
  show ?thesis
  proof (cases m)
    case None
    then show ?thesis using accept_move_step [OF _ same] move eq(2) by (auto simp: program_move_def split: if_splits)
  next
    case (Some m')
    then obtain sv where sv: "server_move route m' (pg_server a) = Some sv" "a' = a\<lparr>pg_server := sv\<rparr>"
      "pool_owner s = O_Idle \<longrightarrow> owner (st_pool sv) = O_Idle"
      using move eq(2) by (auto simp: program_move_def split: bind_splits if_splits)
    obtain sv' where sv': "server_step {[]} peer (pg_server s) sv'" "stands_for sv sv'"
      using server_move_step [OF route program_server [OF r] eq(1) sv(1)] by blast
    then have "program_step {[]} peer s (s\<lparr>pg_server := sv'\<rparr>)"
      using pg_threads [OF sv'(1)] pg_operation [OF sv'(1)] sv(3) by (cases "pool_owner s = O_Idle") (auto simp: stands_for_def)
    then show ?thesis using sv(2) sv'(2) same by (auto simp: program_stands_for_def intro!: exI)
  qed
qed

lemma program_play_reach:
  assumes route: "\<And>fd. route fd = request_op (fst (peer fd))"
  shows "program_play route ms a = Some a' \<Longrightarrow> program_reach {[]} peer evs e0 s \<Longrightarrow> program_stands_for a s \<Longrightarrow>
    \<exists>s'. program_reach {[]} peer evs e0 s' \<and> program_stands_for a' s'"
proof (induction ms arbitrary: a s)
  case (Cons m ms)
  then obtain a1 where a1: "program_move route m a = Some a1" "program_play route ms a1 = Some a'" by (auto split: bind_splits)
  obtain s1 where s1: "program_step {[]} peer s s1" "program_stands_for a1 s1" using program_move_step [OF route Cons.prems(2,3) a1(1)] by blast
  show ?case using Cons.IH [OF a1(2) prg_step [OF Cons.prems(2) s1(1)] s1(2)] .
qed auto

end
