(* ===== verification/Threads_Props.thy ===== *)
theory Threads_Props
  imports Server_Play
begin

text \<open>
  The properties of the running server, the composition of the pool, the handler and the table: what
  the clients are told, that later requests see earlier ones, that a shutdown completes everything
  and comes to an end, and that nothing gets stuck.
\<close>

section \<open>A sample run\<close>

text \<open>A server with two workers and room for two jobs, and two clients: one inserts a user, the other
  one asks for all users.\<close>

definition pool2 :: ThreadPool where
  "pool2 = \<lparr>tp_worker_count = 2, tp_jobs = [0, 0], tp_queue_capacity = 2, tp_head = 0, tp_tail = 0, tp_size = 0, tp_stop_requested = False\<rparr>"

definition server2 :: ServerState where
  "server2 = \<lparr>st_pool = created_state pool2,
     st_calls = \<lparr>cs_table = table_upto 16, cs_calls = [], cs_ops = [], cs_since = [], cs_log = []\<rparr>,
     st_call_of = (\<lambda>_. None), st_replies = []\<rparr>"

abbreviation insert_Ann :: stmt where "insert_Ann \<equiv> St_Insert ''Ann'' 7"

definition two_clients :: "int \<Rightarrow> connection" where
  "two_clients fd = ([Data (request_text (render (if fd = 7 then insert_Ann else St_All)))], [])"

definition two_routes :: routes where
  "two_routes fd = Some (if fd = 7 then (stmt_command insert_Ann, Op_Insert ''Ann'' 7) else (stmt_command St_All, Op_Collect None))"

lemma server2_created:
  obtains cfg server h fds e' where "server_create (Some cfg) [] = Some (Some server, h, fds, e')" and "server_threads server = Some server2"
proof -
  let ?cfg = "\<lparr>cfg_port = 8080, cfg_worker_count = 2, cfg_queue_capacity = 2, cfg_backlog = 32\<rparr>"
  obtain r e2 where 2: "table_create [] = Some (r, e2)" "r = None \<or> r = Some (table_upto 16)" "all_succeed [] \<longrightarrow> r \<noteq> None \<and> all_succeed e2"
    using table_create_cases [of "[]"] by blast
  then have r: "table_create [] = Some (Some (table_upto 16), e2)" "all_succeed e2" by auto
  have "\<exists>e3. thread_pool_init 2 2 True e2 = Some (Some pool2, e3) \<and> all_succeed e3"
    using r(2) by (simp add: thread_pool_init_def thread_pool_prepare_def env_simps pool2_def numeral_2_eq_2)
  then obtain e3 where e3: "thread_pool_init 2 2 True e2 = Some (Some pool2, e3)" "all_succeed e3" by blast
  have 4: "\<exists>e4. server_make_listen_socket e3 = (True, 1, e4)" using e3(2) by (simp add: server_make_listen_socket_def env_simps)
  then obtain e4 where e4: "server_make_listen_socket e3 = (True, 1, e4)" by blast
  let ?s = "\<lparr>sv_listen = True, sv_table = Some (table_upto 16), sv_pool = Some pool2, sv_config = ?cfg, sv_initialized = True\<rparr>"
  have "server_create (Some ?cfg) [] = Some (Some ?s, rec_heap (table_upto 16), 1, e4)"
    using r(1) e3(1) e4 by (simp add: server_create_def)
  moreover have "server_threads ?s = Some server2" by (simp add: server_threads_def server2_def)
  ultimately show ?thesis by (rule that)
qed

lemma server2_reach: "server_reach {[]} peer server2"
  by (rule server2_created) (rule srv_init)


text \<open>The program around it.\<close>

abbreviation sample_events :: "accept_event list" where
  "sample_events \<equiv> [Connection 7 False [], Accept_Interrupted, Connection 8 False [], Shutdown_Requested, Connection 9 False []]"

definition program2 :: ProgramState where
  "program2 = \<lparr>pg_server = server2, pg_pc = A_Accept, pg_events = sample_events, pg_env = [], pg_actions = []\<rparr>"

lemma program2_reach: "program_reach {[]} peer sample_events [] program2"
  unfolding program2_def by (rule server2_created) (rule prg_init)

lemma request_op_statement:
  assumes "stmt_ok st" and "plan_op (stmt_command st) = Some op" and "st \<noteq> St_Exit"
  shows "request_op [Data (request_text (render st))] = Some (stmt_command st, op)"
proof -
  have "length (render st) \<le> HTTP_MAX_BODY_SIZE" using render_short [OF assms(1)] by (simp add: HTTP_MAX_BODY_SIZE_def)
  then have rq: "fst (http_read_request [Data (request_text (render st))]) = Inr \<lparr>rq_method = ''POST'', rq_path = ''/query'', rq_version = ''HTTP/1.1'',
      rq_content_length = length (render st), rq_body = render st\<rparr>"
    using read_request_stream [of "[Data (request_text (render st))]"] http_parse_request [of "render st" "[]"]
    by (simp add: request_text_def del: render.simps)
  have "\<forall>c \<in> set (render st). c \<noteq> NUL" using render_no_NUL [OF assms(1)] by auto
  then have body: "takeWhile (\<lambda>c. c \<noteq> NUL) (render st) = render st" by (simp only: takeWhile_eq_all_conv)
  have p: "parsed (sql_parse (Some (render st)))" "command (sql_parse (Some (render st))) = stmt_command st"
    using sql_parse_render [OF assms(1), of "[]"] by simp_all
  have ty: "cmd_type (stmt_command st) \<noteq> SQL_COMMAND_EXIT" using assms(3) by (cases st) (simp_all add: empty_command_def)
  show ?thesis unfolding request_op_def rq sum.case Let_def HttpRequest.select_convs body p(2) using p(1) ty assms(2) by simp
qed

lemma two_clients_route: "two_routes fd = request_op (fst (two_clients fd))"
proof -
  have "stmt_ok insert_Ann" by (simp add: name_ok_def number_ok_def INT_MIN_def INT_MAX_def)
  from request_op_statement [OF this, of "Op_Insert ''Ann'' 7"]
  have "request_op [Data (request_text (render insert_Ann))] = Some (stmt_command insert_Ann, Op_Insert ''Ann'' 7)"
    by (simp add: plan_op_def empty_command_def del: render.simps)
  moreover have "request_op [Data (request_text (render St_All))] = Some (stmt_command St_All, Op_Collect None)"
    using request_op_statement [of St_All "Op_Collect None"] by (simp add: plan_op_def empty_command_def del: render.simps)
  ultimately show ?thesis unfolding two_routes_def two_clients_def by (simp del: render.simps stmt_command.simps)
qed

text \<open>Both clients are accepted and are in the hands of the two workers.\<close>

definition overture :: "move list" where
  "overture = replicate 5 (Owner_Goes (Submit 7)) @ replicate 5 (Owner_Goes (Submit 8)) @
     replicate 3 (Worker_Goes 0) @ replicate 3 (Worker_Goes 1)"

text \<open>The insertion is answered, then the selection, with a shutdown in between; everything ends.\<close>

definition first_client :: "move list" where
  "first_client = [Call_Begins 0] @ replicate 6 (Call_Goes 0) @ [Reply_Sent 0]"

definition second_client :: "move list" where
  "second_client = [Call_Begins 1] @ replicate 50 (Call_Goes 1) @ [Reply_Sent 1]"

definition finale :: "move list" where
  "finale = replicate 4 (Worker_Goes 0) @ replicate 4 (Worker_Goes 1) @ replicate 3 (Owner_Goes Destroy)"

definition look :: "ServerState \<Rightarrow> owner_pc \<times> worker_pc list \<times> int list \<times> nat \<times> (int \<times> nat option) list \<times> Record list \<times> nat list \<times> int" where
  "look s = (owner (st_pool s), workers (st_pool s), PoolState.accepted (st_pool s), length (cs_calls (st_calls s)),
     map without_text (st_replies s), cs_log (st_calls s), cs_since (st_calls s),
     next_id (cs_table (st_calls s)) + int (number takes_id (cs_calls (st_calls s))) + int (drain_bound (st_pool s)))"

abbreviation user_Ann :: Record where "user_Ann \<equiv> \<lparr>rec_id = 1, rec_name = ''Ann'', rec_age = 7\<rparr>"

lemma look_busy:
  "map_option look (server_play two_routes overture server2) = Some (O_Idle, [W_Handle 7, W_Handle 8], [7, 8], 0, [], [], [], 11)"
  by code_simp

lemma look_answered:
  "map_option look (server_play two_routes (overture @ first_client) server2) =
     Some (O_Idle, [W_Close 7, W_Handle 8], [7, 8], 1, [(7, Some 0)], [user_Ann], [0], 11)"
  by code_simp

lemma look_joining:
  "map_option look (server_play two_routes (overture @ first_client @ replicate 5 (Owner_Goes Destroy)) server2) =
     Some (O_Join 0, [W_Close 7, W_Handle 8], [7, 8], 1, [(7, Some 0)], [user_Ann], [0], 14)"
  by code_simp

lemma look_ended:
  "map_option look (server_play two_routes ((overture @ first_client) @ replicate 5 (Owner_Goes Destroy) @ second_client @ finale) server2) =
     Some (O_Destroyed, [W_Done, W_Done], [7, 8], 2, [(7, Some 0), (8, Some 1)], [user_Ann], [0, 1], 2)"
  by code_simp

definition program_moves :: "move option list" where
  "program_moves =
     [None] @ map Some (replicate 4 (Owner_Goes Destroy)) @ [None, None, None] @ map Some (replicate 4 (Owner_Goes Destroy)) @ [None] @
     map Some (replicate 3 (Worker_Goes 0) @ replicate 3 (Worker_Goes 1) @ first_client) @
     [None] @ map Some (replicate 4 (Owner_Goes Destroy)) @ [None] @
     map Some (replicate 4 (Owner_Goes Destroy) @ second_client @ finale)"

lemma look_program:
  "map_option (\<lambda>s. (look (pg_server s), pg_actions s)) (program_play two_routes program_moves program2) =
     Some ((O_Destroyed, [W_Done, W_Done], [7, 8], 2, [(7, Some 0), (8, Some 1)], [user_Ann], [0, 1], 2), [To_Pool 7, To_Pool 8, Pool_Shutdown])"
  by code_simp

text \<open>A state with everything that was looked at.\<close>

lemma look_same: "stands_for a s \<Longrightarrow> look s = look a"
  by (simp add: look_def stands_for_def)

lemma played:
  assumes "map_option look (server_play two_routes ms server2) = Some x"
  obtains s where "server_reach {[]} two_clients s" and "look s = x"
proof -
  obtain a where a: "server_play two_routes ms server2 = Some a" "look a = x" using assms by auto
  have "stands_for server2 server2" by (simp add: stands_for_def)
  then show ?thesis using server_play_steps [OF two_clients_route a(1) server2_reach] look_same a(2) that by metis
qed

lemma server_play_append: "server_play route (ms @ ns) a = do { b \<leftarrow> server_play route ms a; server_play route ns b }"
  by (induction ms arbitrary: a) (auto split: bind_splits)

lemma played_on:
  assumes "map_option look (server_play two_routes ms server2) = Some x" and "map_option look (server_play two_routes (ms @ ns) server2) = Some y"
  obtains s s' where "server_reach {[]} two_clients s" and "look s = x" and "(server_step {[]} two_clients)\<^sup>*\<^sup>* s s'" and "look s' = y"
proof -
  obtain a where a: "server_play two_routes ms server2 = Some a" "look a = x" using assms(1) by auto
  obtain b where b: "server_play two_routes ns a = Some b" "look b = y" using assms(2) a(1) by (auto simp: server_play_append)
  have "stands_for server2 server2" by (simp add: stands_for_def)
  from server_play_steps [OF two_clients_route a(1) server2_reach this] obtain s where s: "server_reach {[]} two_clients s" "stands_for a s" by blast
  from server_play_steps [OF two_clients_route b(1) s] obtain s' where s': "(server_step {[]} two_clients)\<^sup>*\<^sup>* s s'" "stands_for b s'" by blast
  show ?thesis by (rule that [OF s(1) _ s'(1)]) (use look_same [OF s(2)] look_same [OF s'(2)] a(2) b(2) in simp_all)
qed

lemma reply_of:
  assumes "map without_text (st_replies s) = rs" and "(fd, call) \<in> set rs"
  obtains sent where "(fd, call, sent) \<in> set (st_replies s)"
proof -
  have "(fd, call) \<in> without_text ` set (st_replies s)" using assms by (metis image_set)
  then show ?thesis using that by (auto simp: without_text_def)
qed

section \<open>Properties\<close>

text \<open>C1: Every reply of the running server is right, whatever the interleaving of its threads, when no call of
  the library fails: a request that calls the table gets a response that carries an answer to its
  own operation, for the users at moments between the beginning and the end of the call; any
  other request gets the response of the handler, which does not look at the table.\<close>

theorem server_replies_answer_requests:
  assumes "server_reach {[]} peer s" and "(fd, call, sent) \<in> set (st_replies s)"
  shows "case call of
      None \<Rightarrow> request_op (fst (peer fd)) = None \<and> (\<exists>e'. \<forall>t. server_handle_client t (fst (peer fd)) (snd (peer fd)) [] = Some (Some t, sent, e'))
    | Some k \<Rightarrow> k < length (cs_calls (st_calls s)) \<and> (\<exists>c a. request_op (fst (peer fd)) = Some (c, cs_ops (st_calls s) ! k) \<and>
        op_answer (cs_ops (st_calls s) ! k) (cs_since (st_calls s) ! k) (cs_log (st_calls s)) a \<and>
        response_sent 200 (answer_json a) (sendable (snd (peer fd))) sent)"
  using replies_ok [OF assms(1)] assms(2) unfolding reply_ok_def by fastforce

theorem server_replies_answer_requests_witness:
  "\<exists>s sent. server_reach {[]} two_clients s \<and> (7, Some 0, sent) \<in> set (st_replies s) \<and>
     sent = response_text 200 json_content_type (answer_json (Inserted user_Ann))"
proof (rule played [OF look_answered])
  fix s
  assume r: "server_reach {[]} two_clients s" and "look s = (O_Idle, [W_Close 7, W_Handle 8], [7, 8], 1, [(7, Some 0)], [user_Ann], [0], 11)"
  then have s: "server_reach {[]} two_clients s" "map without_text (st_replies s) = [(7, Some 0)]" "cs_log (st_calls s) = [user_Ann]"
    "cs_since (st_calls s) = [0]" by (simp_all add: look_def)
  obtain sent where r: "(7, Some 0, sent) \<in> set (st_replies s)" by (rule reply_of [OF s(2)]) simp_all
  from server_replies_answer_requests [OF s(1) r] obtain c a where a: "request_op (fst (two_clients 7)) = Some (c, cs_ops (st_calls s) ! 0)"
    "op_answer (cs_ops (st_calls s) ! 0) (cs_since (st_calls s) ! 0) (cs_log (st_calls s)) a"
    "response_sent 200 (answer_json a) (sendable (snd (two_clients 7))) sent" by auto
  have op: "cs_ops (st_calls s) ! 0 = Op_Insert ''Ann'' 7" using a(1) two_clients_route [of 7, symmetric] by (simp add: two_routes_def)
  have ans: "a = Inserted user_Ann" using a(2) unfolding op s(3,4) by (cases a) (auto simp del: answer_json.simps)
  have "sendable (snd (two_clients 7))" by (simp add: two_clients_def sendable_def)
  then have "sent = response_text 200 json_content_type (answer_json (Inserted user_Ann))"
    using a(3) unfolding ans response_sent_def by (simp del: answer_json.simps)
  then show ?thesis using s(1) r by blast
qed

text \<open>C10: A request is seen by the requests behind it, in runs in which no library call fails: when the response to an INSERT has been sent before the
  table call of another request begins, then that response names the new user, a lookup of its id
  is answered with it, and every selection whose condition it fulfils contains it.\<close>

theorem server_later_requests_see_inserts:
  assumes "server_reach {[]} peer s" and "(fd, Some j, sent) \<in> set (st_replies s)" and "cs_ops (st_calls s) ! j = Op_Insert name age"
    and "(server_step {[]} peer)\<^sup>*\<^sup>* s s'" and "length (cs_calls (st_calls s)) \<le> k" and "(fd', Some k, sent') \<in> set (st_replies s')"
  shows "\<exists>u. u = inserted_record (rec_id u) name age \<and> response_sent 200 (answer_json (Inserted u)) (sendable (snd (peer fd))) sent \<and>
    (case cs_ops (st_calls s') ! k of
       Op_Find key \<Rightarrow> key = rec_id u \<longrightarrow> response_sent 200 (answer_json (Rows [u])) (sendable (snd (peer fd'))) sent'
     | Op_Collect test \<Rightarrow> \<exists>vs. response_sent 200 (answer_json (Rows vs)) (sendable (snd (peer fd'))) sent' \<and> (filter_by test [u] = [u] \<longrightarrow> u \<in> set vs)
     | Op_Insert _ _ \<Rightarrow> True)"
proof -
  let ?cs = "st_calls s" and ?cs' = "st_calls s'"
  obtain c a where a: "op_answer (Op_Insert name age) (cs_since ?cs ! j) (cs_log ?cs) a" "response_sent 200 (answer_json a) (sendable (snd (peer fd))) sent"
    using replies_ok [OF assms(1)] assms(2,3) unfolding reply_ok_def by fastforce
  then obtain u where u: "a = Inserted u" "u \<in> set (cs_log ?cs)" "u = inserted_record (rec_id u) name age"
    by (cases a) (auto dest: in_set_dropD simp del: answer_json.simps)
  have r': "server_reach {[]} peer s'" and g: "history_grows ?cs ?cs'" using history_run [OF assms(4,1)] by simp_all
  obtain b where b: "k < length (cs_calls ?cs')" "op_answer (cs_ops ?cs' ! k) (cs_since ?cs' ! k) (cs_log ?cs') b"
    "response_sent 200 (answer_json b) (sendable (snd (peer fd'))) sent'"
    using replies_ok [OF r'] assms(6) unfolding reply_ok_def by fastforce
  obtain zs where zs: "cs_log ?cs' = cs_log ?cs @ zs" and since: "length (cs_log ?cs) \<le> cs_since ?cs' ! k"
    using g b(1) assms(5) unfolding history_grows_def by blast
  have seen: "u \<in> set (take m (cs_log ?cs'))" if "cs_since ?cs' ! k \<le> m" for m using u(2) since that by (simp add: zs)
  obtain pss where st: "store_ok (cs_table ?cs') pss (cs_log ?cs')" using calls_ok_reach [OF server_reach_calls [OF r']] by (auto simp: calls_ok_def)
  have d: "distinct (map rec_id (take m (cs_log ?cs')))" for m using st unfolding store_ok_def by (metis distinct_take take_map)
  have "case cs_ops ?cs' ! k of
       Op_Find key \<Rightarrow> key = rec_id u \<longrightarrow> response_sent 200 (answer_json (Rows [u])) (sendable (snd (peer fd'))) sent'
     | Op_Collect test \<Rightarrow> \<exists>vs. response_sent 200 (answer_json (Rows vs)) (sendable (snd (peer fd'))) sent' \<and> (filter_by test [u] = [u] \<longrightarrow> u \<in> set vs)
     | Op_Insert _ _ \<Rightarrow> True"
  proof (cases "cs_ops ?cs' ! k")
    case (Op_Find key)
    then obtain m vs where m: "cs_since ?cs' ! k \<le> m" "b = Rows vs" "vs = (case user_with_id (take m (cs_log ?cs')) key of None \<Rightarrow> [] | Some v \<Rightarrow> [v])"
      using b(2) by (cases b) auto
    then have "key = rec_id u \<longrightarrow> vs = [u]" using user_with_id_recorded [OF d seen [OF m(1)]] by simp
    then show ?thesis using Op_Find b(3) m(2) by (auto simp del: answer_json.simps)
  next
    case (Op_Collect test)
    then obtain ks vs where ks: "cuts (cs_since ?cs' ! k) (cs_log ?cs') 16 ks" "b = Rows vs" "vs = filter_by test (sort_key rec_id (bucket_parts ks (cs_log ?cs')))"
      using b(2) by (cases b) auto
    define i where "i = table_bucket_index_for_id (rec_id u)"
    have i: "i < length ks" "cs_since ?cs' ! k \<le> ks ! i" using ks(1) bucket_index_less [of "rec_id u"] by (auto simp: cuts_def i_def)
    then have "u \<in> set (filter (in_bucket i) (take (ks ! i) (cs_log ?cs')))" using seen by (simp add: in_bucket_def i_def)
    then have "u \<in> set (bucket_parts ks (cs_log ?cs'))" using i(1) unfolding bucket_parts_def by fastforce
    then have "filter_by test [u] = [u] \<longrightarrow> u \<in> set vs" using ks(3) by (auto simp: filter_by_def split: option.splits if_splits)
    then show ?thesis using Op_Collect b(3) ks(2) by (auto simp del: answer_json.simps)
  qed simp
  then show ?thesis using u(1,3) a(2) by blast
qed

theorem server_later_requests_see_inserts_witness:
  "\<exists>s sent vs. server_reach {[]} two_clients s \<and> (8, Some 1, sent) \<in> set (st_replies s) \<and>
     sent = response_text 200 json_content_type (answer_json (Rows vs)) \<and> (\<exists>u \<in> set vs. rec_name u = ''Ann'' \<and> rec_age u = 7)"
proof (rule played_on [OF look_answered look_ended])
  fix s s'
  assume r: "server_reach {[]} two_clients s" "(server_step {[]} two_clients)\<^sup>*\<^sup>* s s'"
    and "look s = (O_Idle, [W_Close 7, W_Handle 8], [7, 8], 1, [(7, Some 0)], [user_Ann], [0], 11)"
    and "look s' = (O_Destroyed, [W_Done, W_Done], [7, 8], 2, [(7, Some 0), (8, Some 1)], [user_Ann], [0, 1], 2)"
  then have s: "map without_text (st_replies s) = [(7, Some 0)]" "length (cs_calls (st_calls s)) = 1" "cs_log (st_calls s') = [user_Ann]"
    "map without_text (st_replies s') = [(7, Some 0), (8, Some 1)]" by (simp_all add: look_def)
  have r': "server_reach {[]} two_clients s'" using history_run [OF r(2,1)] by simp
  obtain sent where a: "(7, Some 0, sent) \<in> set (st_replies s)" by (rule reply_of [OF s(1)]) simp_all
  obtain sent' where b: "(8, Some 1, sent') \<in> set (st_replies s')" using reply_of [OF s(4), of 8 "Some 1"] by auto
  have ops: "cs_ops (st_calls s) ! 0 = Op_Insert ''Ann'' 7" "cs_ops (st_calls s') ! 1 = Op_Collect None"
    using replies_ok [OF r(1), rule_format, OF a] replies_ok [OF r', rule_format, OF b] two_clients_route [symmetric]
    by (auto simp: reply_ok_def two_routes_def)
  have ss: "sendable (snd (two_clients 8))" by (simp add: two_clients_def sendable_def)
  have k: "length (cs_calls (st_calls s)) \<le> 1" using s(2) by simp
  from server_later_requests_see_inserts [OF r(1) a ops(1) r(2) k b] ops(2) ss
  obtain u vs where u: "u = inserted_record (rec_id u) ''Ann'' 7" "response_sent 200 (answer_json (Rows vs)) True sent'" "u \<in> set vs"
    by (auto simp: filter_by_def simp del: answer_json.simps)
  have "rec_name u = ''Ann'' \<and> rec_age u = 7"
    by (subst u(1), subst u(1)) (simp add: inserted_record_def bounded_def RECORD_NAME_SIZE_def)
  moreover have "sent' = response_text 200 json_content_type (answer_json (Rows vs))"
    using u(2) unfolding response_sent_def by (simp del: answer_json.simps)
  ultimately show ?thesis using r' b u(3) by blast
qed

text \<open>C11: A shutdown leaves nothing undone, under any failures of the library calls (for insertions, the
  harmless ones): when the pool is destroyed, every descriptor that was accepted has got exactly one
  reply and has been closed once, every table call has returned, and the table satisfies the
  sequential invariant with all locks free, so that destroying it frees every record.\<close>

theorem server_shutdown_complete:
  assumes "server_reach envs peer s" and "owner (st_pool s) = O_Destroyed"
  shows "mset (map fst (st_replies s)) = mset (PoolState.accepted (st_pool s)) \<and>
    mset (closed (st_pool s)) = mset (PoolState.accepted (st_pool s)) \<and>
    (\<forall>k < length (cs_calls (st_calls s)). returned (cs_calls (st_calls s) ! k)) \<and>
    table_models (cs_table (st_calls s)) (sort_key rec_id (cs_log (st_calls s))) \<and>
    table_destroy (Some (cs_table (st_calls s))) = Some Map.empty"
proof -
  have final: "pool_final (st_pool s)" using reach_inv [OF server_reach_pool [OF assms(1)]] assms(2) by (simp add: pool_inv_def)
  have replies: "map fst (st_replies s) = handled (st_pool s)" using server_reach_inv [OF assms(1)] unfolding server_inv_def by blast
  note all = server_destroyed_stuck(1) [OF assms]
  have models: "table_models (cs_table (st_calls s)) (sort_key rec_id (cs_log (st_calls s)))"
    by (rule calls_quiescent [OF calls_ok_reach [OF server_reach_calls [OF assms(1)]] all])
  show ?thesis unfolding replies using final all models table_destroy_ok [OF models] by (simp add: pool_final_def)
qed

theorem server_shutdown_complete_witness:
  "\<exists>s. server_reach {[]} two_clients s \<and> owner (st_pool s) = O_Destroyed \<and> mset (map fst (st_replies s)) = {#7, 8#} \<and>
     table_models (cs_table (st_calls s)) [user_Ann]"
proof (rule played [OF look_ended])
  fix s
  assume r: "server_reach {[]} two_clients s" and "look s = (O_Destroyed, [W_Done, W_Done], [7, 8], 2, [(7, Some 0), (8, Some 1)], [user_Ann], [0, 1], 2)"
  then have s: "owner (st_pool s) = O_Destroyed" "PoolState.accepted (st_pool s) = [7, 8]" "cs_log (st_calls s) = [user_Ann]" by (simp_all add: look_def)
  from server_shutdown_complete [OF r s(1)] s show ?thesis using r by (intro exI [of _ s]) simp
qed

text \<open>C15: The running server comes to an end behind a shutdown: once \<open>thread_pool_destroy\<close> joins the workers, every
  run of all threads together, table calls and spurious wakeups included, has at most \<open>server_bound\<close>
  steps, and a run that has not destroyed the pool can be continued by some thread, if there are
  ids for the clients that are left.\<close>

theorem server_shutdown_terminates:
  assumes "server_reach envs peer s" and "[] \<in> envs" and "owner (st_pool s) = O_Join k" and "ids_suffice s"
    and "(server_step envs peer ^^ n) s s'"
  shows "n \<le> server_bound s \<and> (owner (st_pool s') = O_Destroyed \<or> (\<exists>s''. server_thread_step envs peer s' s''))"
proof -
  have r: "n \<le> server_bound s" "server_reach envs peer s'" "ids_suffice s'"
    "owner (st_pool s') = O_Destroyed \<or> (\<exists>k'. owner (st_pool s') = O_Join k')"
    using server_drain_run [OF assms(5,1,3,4)] by simp_all
  show ?thesis
  proof (cases "owner (st_pool s') = O_Destroyed")
    case False
    then obtain k' where "owner (st_pool s') = O_Join k'" using r(4) by blast
    then obtain p where "thread_step (st_pool s') p"
      using pool_progress [OF server_reach_pool [OF r(2)]] by (auto simp: failing_def)
    then show ?thesis using thread_goes_on [OF r(2) assms(2) ids_suffice_left [OF r(3)]] r(1) by blast
  qed (use r(1) in simp)
qed

theorem server_shutdown_terminates_witness:
  "\<exists>s. server_reach {[]} two_clients s \<and> owner (st_pool s) = O_Join 0 \<and>
     (\<forall>n s'. (server_step {[]} two_clients ^^ n) s s' \<longrightarrow> n \<le> server_bound s)"
proof (rule played [OF look_joining])
  fix s
  assume r: "server_reach {[]} two_clients s" and "look s = (O_Join 0, [W_Close 7, W_Handle 8], [7, 8], 1, [(7, Some 0)], [user_Ann], [0], 14)"
  then have s: "owner (st_pool s) = O_Join 0" and w: "length (workers (st_pool s)) = 2"
    and n: "next_id (cs_table (st_calls s)) + int (number takes_id (cs_calls (st_calls s))) + int (drain_bound (st_pool s)) = 14"
    by (simp_all add: look_def)
  have "starters s \<subseteq> {..<2}" using w by (auto simp: starters_def handling_def)
  then have "card (starters s) \<le> 2" using card_mono [of "{..<2::nat}"] by simp
  then have ids: "ids_suffice s" using n by (simp add: ids_suffice_def INT_MAX_def)
  show ?thesis using server_shutdown_terminates [OF r _ s ids] r s by blast
qed

text \<open>C14: The running server does not get stuck, without relying on spurious wakeups and as long as there are
  ids: while a job is queued or a worker is in the handler, and the accept loop does nothing with
  the pool, a worker or a table call can take a step (the owner of the pool stays idle); and in
  the middle of an operation of the owner, some thread can.\<close>

theorem server_never_stuck:
  assumes "server_reach envs peer s" and "[] \<in> envs" and "ids_left (st_calls s)"
    and "owner (st_pool s) \<noteq> O_Destroyed"
    and "owner (st_pool s) \<noteq> O_Idle \<or> 0 < tp_size (pool (st_pool s)) \<or> (\<exists>i fd. handling (st_pool s) i fd)"
  shows "\<exists>s'. server_thread_step envs peer s s' \<and> (owner (st_pool s) = O_Idle \<longrightarrow> owner (st_pool s') = O_Idle)"
  using assms by (rule server_progress)

theorem server_never_stuck_witness:
  "\<exists>s s'. server_reach {[]} two_clients s \<and> workers (st_pool s) = [W_Handle 7, W_Handle 8] \<and> owner (st_pool s) = O_Idle \<and>
     server_thread_step {[]} two_clients s s' \<and> owner (st_pool s') = O_Idle"
proof (rule played [OF look_busy])
  fix s
  assume r: "server_reach {[]} two_clients s" and "look s = (O_Idle, [W_Handle 7, W_Handle 8], [7, 8], 0, [], [], [], 11)"
  then have s: "owner (st_pool s) = O_Idle" "workers (st_pool s) = [W_Handle 7, W_Handle 8]"
    and n: "next_id (cs_table (st_calls s)) + int (number takes_id (cs_calls (st_calls s))) + int (drain_bound (st_pool s)) = 11"
    by (auto simp: look_def)
  have h: "handling (st_pool s) 0 7" by (simp add: handling_def s(2))
  have ids: "ids_left (st_calls s)" using n by (simp add: ids_left_def INT_MAX_def)
  have "\<exists>s'. server_thread_step {[]} two_clients s s' \<and> (owner (st_pool s) = O_Idle \<longrightarrow> owner (st_pool s') = O_Idle)"
    by (rule server_never_stuck [OF r _ ids]) (use s(1) h in auto)
  then show ?thesis using r s by blast
qed

text \<open>C13: The handler is its pieces in a row: for a request that calls the table, handling the client is the same,
  for any outcomes of the library calls, as the steps of its table call with nobody in between,
  followed by the piece that turns the result into a response.\<close>

theorem server_handler_is_its_steps:
  assumes "request_op es = Some (c, op)"
  shows "server_handle_client t es ss e =
    do { (res, t', e1) \<leftarrow> run_alone (work (start_pc op)) t (start_pc op) e;
         (sent, e2) \<leftarrow> finish_query c res (rec_heap t') ss e1;
         Some (Some t', sent, e2) }"
  using assms by (rule handler_split)

theorem server_handler_is_its_steps_witness:
  "server_handle_client (table_upto 16) (fst (two_clients 7)) [] [True, False] =
    do { (res, t', e1) \<leftarrow> run_alone 6 (table_upto 16) (Inserting (Ins_Start ''Ann'' 7)) [True, False];
         (sent, e2) \<leftarrow> finish_query (stmt_command insert_Ann) res (rec_heap t') [] e1;
         Some (Some t', sent, e2) }"
proof -
  have "request_op (fst (two_clients 7)) = Some (stmt_command insert_Ann, Op_Insert ''Ann'' 7)"
    using two_clients_route [of 7] by (simp add: two_routes_def)
  from server_handler_is_its_steps [OF this] show ?thesis by simp
qed

text \<open>C4: The whole running program loses no connection: when the pool is destroyed, the accept loop among the
  threads has done what the sequential loop does for some outcomes of the submissions, namely
  those of the pool; in the order of their arrival every accepted descriptor was handed to the
  pool or closed, those handed over got exactly one reply each, and the refused ones the 503
  response, under any failures of the library calls (for insertions, the harmless ones).\<close>

theorem program_accounts_for_connections:
  assumes "program_reach envs peer evs e0 s" and "pool_owner s = O_Destroyed"
  shows "\<exists>evs' as e'. map open_event evs' = map open_event evs \<and> server_run_loop evs' e0 = Some (as, e') \<and> pg_actions s = as @ [Pool_Shutdown] \<and>
    concat (map handed_over as) = Server_Correct.accepted evs \<and> mset (map fst (st_replies (pg_server s))) = mset (concat (map pooled as)) \<and>
    (\<forall>a \<in> set as. refusal_ok (all_succeed e0 \<and> clients_receive evs) a)"
proof -
  have r: "server_reach envs peer (pg_server s)" by (rule program_server [OF assms(1)])
  obtain evs' as where l: "map open_event evs' = map open_event evs" "server_run_loop evs' e0 = Some (as, pg_env s)"
    "pg_actions s = as @ [Pool_Shutdown]" "concat (map pooled (pg_actions s)) = pool_accepted s"
    using program_reach_inv [OF assms(1)] assms(2) by (auto simp: program_inv_def split: accept_pc.splits)
  obtain as' e' where "server_run_loop evs' e0 = Some (as', e')" "concat (map handed_over as') = Server_Correct.accepted evs'"
    "\<forall>a \<in> set as'. refusal_ok (all_succeed e0 \<and> clients_receive evs') a"
    using server_run_loop_actions by blast
  then have a: "concat (map handed_over as) = Server_Correct.accepted evs" "\<forall>a \<in> set as. refusal_ok (all_succeed e0 \<and> clients_receive evs) a"
    using l(1,2) accepted_open [of evs'] accepted_open [of evs] receive_open [of evs'] receive_open [of evs] by simp_all
  have "pool_final (st_pool (pg_server s))" using reach_inv [OF server_reach_pool [OF r]] assms(2) by (simp add: pool_inv_def)
  moreover have "map fst (st_replies (pg_server s)) = handled (st_pool (pg_server s))" using server_reach_inv [OF r] unfolding server_inv_def by blast
  ultimately have "mset (map fst (st_replies (pg_server s))) = mset (concat (map pooled as))" using l(3,4) by (simp add: pool_final_def)
  then show ?thesis using l(1-3) a by blast
qed

theorem program_accounts_for_connections_witness:
  "\<exists>s. program_reach {[]} two_clients sample_events [] s \<and> pg_actions s = [To_Pool 7, To_Pool 8, Pool_Shutdown] \<and>
     mset (map fst (st_replies (pg_server s))) = {#7, 8#}"
proof -
  obtain a where a: "program_play two_routes program_moves program2 = Some a"
    "look (pg_server a) = (O_Destroyed, [W_Done, W_Done], [7, 8], 2, [(7, Some 0), (8, Some 1)], [user_Ann], [0, 1], 2)"
    "pg_actions a = [To_Pool 7, To_Pool 8, Pool_Shutdown]" using look_program by auto
  have "program_stands_for program2 program2" by (simp add: program_stands_for_def stands_for_def)
  from program_play_reach [OF two_clients_route a(1) program2_reach this]
  obtain s where s: "program_reach {[]} two_clients sample_events [] s" "program_stands_for a s" by blast
  have "look (pg_server s) = look (pg_server a)" "pg_actions s = pg_actions a"
    using s(2) look_same by (auto simp: program_stands_for_def)
  then have o: "pool_owner s = O_Destroyed" "pg_actions s = [To_Pool 7, To_Pool 8, Pool_Shutdown]" using a(2,3) by (simp_all add: look_def)
  from program_accounts_for_connections [OF s(1) o(1)] o(2)
  have "mset (map fst (st_replies (pg_server s))) = mset (concat (map pooled [To_Pool 7, To_Pool 8]))" by auto
  then show ?thesis using s(1) o(2) by auto
qed

text \<open>The whole running program never gets stuck: until the pool is destroyed, the accept loop or some thread can take a step, as long as there are ids.\<close>

theorem program_never_stuck:
  assumes "program_reach envs peer evs e0 s" and "[] \<in> envs" and "ids_left (st_calls (pg_server s))"
    and "pool_owner s \<noteq> O_Destroyed"
  shows "\<exists>s'. program_step envs peer s s'"
  using assms by (rule program_goes_on)

theorem program_never_stuck_witness:
  "\<exists>s. program_reach {[]} two_clients sample_events [] s \<and> (\<exists>s'. program_step {[]} two_clients s s')"
proof -
  have "ids_left (st_calls (pg_server program2))" "pool_owner program2 \<noteq> O_Destroyed"
    using table_upto_next by (simp_all add: program2_def server2_def created_state_def initial_state_def ids_left_def INT_MAX_def)
  from program_never_stuck [OF program2_reach _ this] show ?thesis using program2_reach by blast
qed

end
