(* ===== verification/Spec2Isabelle.thy ===== *)
theory Spec2Isabelle
  imports BPTree_Descent Repl_Props Api_Props Pool_Props Server_Props Calls_Props Bench_Props Threads_Props
begin

text \<open>
  A development of the in-memory database with its HTTP front end.

  \<^bold>\<open>The program.\<close> A table of users is kept in sixteen buckets, each a growing array of record pointers
  with a B+ tree over the ids and a read-write lock (\<^verbatim>\<open>sql_processor/table.c\<close>, \<^verbatim>\<open>bptree.c\<close>). A parser
  and an executor of a small SQL dialect work on the table (\<^verbatim>\<open>sql.c\<close>), driven either by an interactive
  loop (\<^verbatim>\<open>sql_processor/main.c\<close>) or by a server: the accept loop (\<^verbatim>\<open>server/server.c\<close>) hands connections
  to a pool of threads (\<^verbatim>\<open>thread_pool.c\<close>), whose handler reads a request (\<^verbatim>\<open>http.c\<close>), executes its body
  (\<^verbatim>\<open>api.c\<close>) and sends the answer as JSON (\<^verbatim>\<open>json_util.c\<close>).

  \<^bold>\<open>Conventions\<close> (\<open>Prelude\<close>, \<open>C_Strings\<close>).
  \<^item> A pointer is a natural number into a heap that is a partial function, \<open>NULL\<close> is \<open>None\<close>, and an
    output parameter is a component of the result.
  \<^item> The outer \<open>option\<close> of an operation is undefined behaviour: an access outside of an array, to an
    uninitialised cell or a freed record, an overflow of an \<open>int\<close>. A theorem that an operation
    equals \<open>Some\<close> of something therefore also says that none of this happens. In \<open>thread_pool_init\<close>, and so
    in \<open>server_create\<close> and \<open>server_main\<close>, \<open>None\<close> is also a call that never returns.
  \<^item> Calls of the library that can fail (allocations, locks, sockets) take their outcome from an
    environment, a list of booleans; behind its end everything succeeds (\<open>env_next\<close>, \<open>all_succeed\<close>).
  \<^item> Errors are values: results, statuses and messages as the code has them.
  \<^item> An \<open>int\<close> is a HOL integer with its range as a side condition and with the conversion from
    \<open>long\<close> written out (\<open>to_int\<close>); a \<open>size_t\<close> is a natural number. \<open>strtol\<close> and \<open>strtoul\<close> clamp as in C.
  \<^item> Text is a list of characters without the final zero; where the code reads an array as a string
    (\<open>c_string\<close>) the zero is looked for.

  \<^bold>\<open>B+ tree.\<close> \<open>BPTree_Heap\<close> holds every function of \<^verbatim>\<open>bptree.c\<close> on a heap of nodes with parent and next
  pointers. \<open>BPTree_Shape\<close> has the abstract trees and the reference insertion that climbs to the
  root, \<open>BPTree_Rep\<close> says when a heap represents a tree, \<open>BPTree_Ops\<close> and \<open>BPTree_Climb\<close> show what
  each helper and the climb do to the heap, \<open>BPTree_Correct\<close> and \<open>BPTree_Destroy\<close> that the public
  operations implement an ordered map and free every node. \<open>BPTree_Index\<close> states this as a locale
  and interprets it. \<open>BPTree_Descent\<close> counts the rounds of the descent, which are logarithmic in the
  number of inserted keys, and shows what an insertion loses when an allocation fails behind the
  split of a leaf.

  \<^bold>\<open>Users table.\<close> \<open>Table_Store\<close> holds \<^verbatim>\<open>table.c\<close>: buckets, locks, the record heap, queries. \<open>Growable\<close>
  is the contract of its result arrays, \<open>Table_Correct\<close> and \<open>Table_Life\<close> relate a table to the list of
  its users in order of id (\<open>table_models\<close>), \<open>Table_Props\<close> has the properties. An insertion is
  harmless when it fails in one of its first four library calls; a later failure, in the middle of
  a split, can lose entries of the index (shown in \<open>BPTree_Descent\<close>).

  \<^bold>\<open>Concurrent calls.\<close> \<open>Table_Calls\<close> cuts the insertion, the lookup by id and the queries of \<^verbatim>\<open>table.c\<close> at
  their lock operations and interleaves any number of calls; the code between two lock operations is
  that of \<open>Table_Store\<close>. A state also holds the history: the records in the order in which they
  entered the table. \<open>Calls_Store\<close> is the invariant of the store without its locks in terms of the
  history, \<open>Calls_Locks\<close> counts the calls inside each critical section, \<open>Calls_Invariant\<close> says what a
  call knows at its place and which ids are taken, \<open>Calls_Steps\<close> that every step keeps all this.
  \<open>Calls_Progress\<close> has the absence of deadlock, a measure of the work left as a locale, and the
  equality of one call alone with the sequential function; \<open>Calls_Success\<close> has the runs in which no
  library call fails. \<open>Calls_Props\<close> has the properties: lookups are atomic, insertions are neither
  lost nor doubled, but a SELECT sees each bucket at a moment of its own and is no snapshot.

  \<^bold>\<open>SQL.\<close> \<open>Sql_Parser\<close> and \<open>Sql_Engine\<close> hold \<^verbatim>\<open>sql.c\<close> and the interactive loop; the cursor is the rest of
  the input. \<open>Sql_Correct\<close> and \<open>Sql_Props\<close> show that the parser accepts or rejects every input and
  reads back every printed statement. \<open>Sql_Exec\<close> has the abstract database (\<open>db_exec\<close>), the
  statement that any accepted text stands for (\<open>command_stmt\<close>), and
  \<open>Repl_Props\<close> that executing a statement implements it and that the interactive program prints
  its dialogue.

  \<^bold>\<open>Responses.\<close> \<open>Json_Buffer\<close> holds the text buffer, \<open>Json_Correct\<close> the contract of writers as a locale
  with its composition, \<open>Api_Query\<close> the query interface, \<open>Api_Props\<close> that the body is the JSON text
  of the abstract answer and that strings survive; \<open>query_answer\<close> is the abstract answer to any text,
  a statement or not.

  \<^bold>\<open>Thread pool.\<close> \<open>Thread_Pool\<close> holds the ring buffer and the steps of the workers and of the owner
  between two accesses to shared state, over all interleavings and with spurious wakeups.
  \<open>thread_pool_init\<close> is the creation of a pool as its caller sees it, with an outcome for every
  \<open>pthread_create\<close> and, behind a failed one, for every \<open>pthread_join\<close>.
  \<open>Pool_Ring\<close> has the bounded queue as a locale, \<open>Pool_Invariant\<close> the invariant of the reachable
  states, among it that every job in the queue has a woken worker while somebody waits (\<open>wakeups_ok\<close>),
  and that a run may start behind the creation of the workers (\<open>creation_completed\<close>), \<open>Pool_Props\<close> the account of the descriptors, the absence of lost wakeups, and that a
  shutdown drains the queue and ends.

  \<^bold>\<open>Server.\<close> \<open>Http_Io\<close> holds \<^verbatim>\<open>http.c\<close> over a socket that delivers pieces, interruptions, time-outs and
  errors; \<open>Http_Correct\<close> shows that only the stream of bytes matters. \<open>Server_Client\<close> holds the
  handler of a client, creation and destruction, the accept loop, the command line and \<open>main\<close>;
  \<open>Server_Correct\<close> and \<open>Server_Props\<close> compose them: from the bytes a client sends to the bytes it
  receives and to the abstract database, for the whole run of the program: \<open>client_reply\<close> is the
  abstract server, for whatever a client delivers.

  \<^bold>\<open>Running server.\<close> \<open>Server_Handler\<close> cuts the handler of a client at its call of the table: the request in
  front of it (\<open>request_op\<close>), the call, and the response behind it (\<open>finish_query\<close>); put together, the
  pieces are the handler, for any outcomes of the library calls. \<open>Handler_Answers\<close> says what a result
  of a call is answered with. \<open>Server_Threads\<close> composes the pool of \<open>Thread_Pool\<close> with the calls of
  \<open>Table_Calls\<close>: a step is one of a thread of the pool, of a table call, or a piece of a handler, and a
  run of the server is a run of each of them. \<open>Threads_Invariant\<close> ties them together: which worker is
  in which call, the replies in the order of the handled descriptors, and each reply an answer to its
  request; \<open>Threads_Progress\<close> shows that some thread can go on and bounds the steps behind a shutdown
  (\<open>server_bound\<close>: a table call and its reply take at most 51 steps for each descriptor that is left).
  \<open>Server_Program\<close> puts the accept loop of \<^verbatim>\<open>server_run\<close> in the place of the owner of the pool, so that
  the outcome of a submission is what the pool does. \<open>Server_Play\<close> has the steps as functions, one for
  each choice of the scheduler; \<open>Threads_Props\<close> has a sample run with two workers, evaluated with them,
  and the properties: every reply answers its request, a client that asks behind an answered INSERT
  sees it, and a shutdown leaves no connection, no call and no lock behind.

  \<^bold>\<open>Benchmarks.\<close> \<open>Benchmarks\<close> holds \<^verbatim>\<open>perf10.c\<close> and \<^verbatim>\<open>cond10.c\<close>, clients of the table that compare its
  index with scans; \<open>Bench_Props\<close> shows that both methods agree and what the programs report.

  \<^bold>\<open>Bounds.\<close> No definition has fuel: loops are structural or terminate by a measure, loops over
  input end with the input (the end of a list of events is the end of the stream, or a shutdown),
  and the heap walks of the B+ tree that need not end are partial functions whose result is shown
  to exist. \<open>TEXT_LIMIT\<close> (2 to the power of 62) bounds the texts in a JSON buffer, so that doubling
  its capacity stays in the range of \<open>size_t\<close>. Ids stay below \<open>INT_MAX\<close>, where the increment of
  the next id would overflow.

  \<^bold>\<open>Not modelled.\<close> Two models of the whole program stand side by side: \<open>server_main\<close>, from the arguments
  to the exit status, handles the clients one after the other in any order and takes the outcome of
  each submission as an input; \<open>program_step\<close> interleaves all threads, from the created server to the
  destroyed pool, and is related to the first by \<open>program_accounts_for_connections\<close> (the accept loop)
  and \<open>server_handler_is_its_steps\<close> (a handler). In the second, a descriptor stands for its connection:
  what a client sends and receives is a parameter (\<open>peer\<close>), and descriptors are not reused for other
  clients. The records behind the call of a handler are read in one step, since a record does not
  change once it is in the table. The threads start behind the listening socket in the model, where
  nobody can have submitted anything yet; whether a join in the failure path of \<open>thread_pool_init\<close>
  returns is an input of \<open>server_create\<close>, and that it may not is shown for the steps in \<open>Pool_Props\<close>.
  The joins of \<open>thread_pool_destroy\<close> always return (\<open>pool_destroy_terminates\<close>) and are left out of
  \<open>server_create\<close> and \<open>server_destroy\<close>. In the benchmarks the times are exact numbers. Left out are the text
  on standard error, the layout of the reports, the debug output of the queue, the guards for \<open>NULL\<close>
  arguments of \<open>http_read_request\<close>, the scripts, the tests and the longer benchmarks
  (\<^verbatim>\<open>unit_test.c\<close>, \<^verbatim>\<open>perf_test.c\<close>, \<^verbatim>\<open>condition_perf_test.c\<close>): they call the same operations and
  have no logic of their own.
\<close>

end
